(* ===== verification/Prelude.thy ===== *)
theory Prelude
  imports Main "HOL-Library.Word" "HOL-Library.AList"
begin

text \<open>
  What every component of the engine model shares: the outcome of a Rust call (a value, an
  error value, a panic, or no return at all), the state-passing form of a \<open>&mut self\<close> method,
  the loop combinator with its total-correctness and simulation rules, checked 32-bit arithmetic,
  and the association lists that stand for the engine's hash maps.
\<close>

named_theorems outcome_simps \<open>unfolding rules of the outcome and state combinators\<close>

section \<open>Identifiers and machine integers\<close>

text \<open>
  A \<open>Uuid\<close> is 128 bits; the crate compares the big-endian bytes, which is the order of the
  128-bit number. The nil identifier has every bit clear. Timestamps (\<open>i64\<close>) are only stored
  and compared.
\<close>

type_synonym uuid = "128 word"
type_synonym u32 = "32 word"
type_synonym u8 = "8 word"
type_synonym i64 = int

abbreviation nil_uuid :: uuid where
  "nil_uuid \<equiv> 0"

section \<open>Outcomes\<close>

text \<open>
  \<open>Ok\<close> and \<open>Err\<close> are the two cases of a Rust \<open>Result\<close>; \<open>Panic\<close> is a failed \<open>assert!\<close>,
  \<open>expect\<close> or index, or an overflow caught by overflow checks; \<open>Diverge\<close> is a loop that never
  leaves.
\<close>

datatype ('e, 'a) result = Ok 'a | Err 'e | Panic | Diverge

fun bnd :: "('e, 'a) result \<Rightarrow> ('a \<Rightarrow> ('e, 'b) result) \<Rightarrow> ('e, 'b) result" where
  "bnd (Ok x) f = f x"
| "bnd (Err e) f = Err e"
| "bnd Panic f = Panic"
| "bnd Diverge f = Diverge"

fun map_err :: "('e \<Rightarrow> 'f) \<Rightarrow> ('e, 'a) result \<Rightarrow> ('f, 'a) result" where
  "map_err f (Ok x) = Ok x"
| "map_err f (Err e) = Err (f e)"
| "map_err f Panic = Panic"
| "map_err f Diverge = Diverge"

fun is_ok :: "('e, 'a) result \<Rightarrow> bool" where
  "is_ok (Ok x) = True"
| "is_ok r = False"

text \<open>\<open>opt.expect(..)\<close> and a slice index: absence is a panic.\<close>

definition expect :: "'a option \<Rightarrow> ('e, 'a) result" where
  "expect x = (case x of None \<Rightarrow> Panic | Some v \<Rightarrow> Ok v)"

definition ok_or :: "'a option \<Rightarrow> 'e \<Rightarrow> ('e, 'a) result" where
  "ok_or x e = (case x of None \<Rightarrow> Err e | Some v \<Rightarrow> Ok v)"

definition get_at :: "'a list \<Rightarrow> nat \<Rightarrow> 'a option" where
  "get_at xs i = (if i < length xs then Some (xs ! i) else None)"

definition index_at :: "'a list \<Rightarrow> nat \<Rightarrow> ('e, 'a) result" where
  "index_at xs i = (if i < length xs then Ok (xs ! i) else Panic)"

text \<open>A \<open>for\<close> loop over a sequence whose body may return early with an error or panic.\<close>

fun for_each :: "('a \<Rightarrow> ('e, unit) result) \<Rightarrow> 'a list \<Rightarrow> ('e, unit) result" where
  "for_each f [] = Ok ()"
| "for_each f (x # xs) = bnd (f x) (\<lambda>_. for_each f xs)"

fun fold_res :: "('a \<Rightarrow> 's \<Rightarrow> ('e, 's) result) \<Rightarrow> 'a list \<Rightarrow> 's \<Rightarrow> ('e, 's) result" where
  "fold_res f [] s = Ok s"
| "fold_res f (x # xs) s = bnd (f x s) (fold_res f xs)"

fun map_res :: "('a \<Rightarrow> ('e, 'b) result) \<Rightarrow> 'a list \<Rightarrow> ('e, 'b list) result" where
  "map_res f [] = Ok []"
| "map_res f (x # xs) = bnd (f x) (\<lambda>y. bnd (map_res f xs) (\<lambda>ys. Ok (y # ys)))"

text \<open>\<open>Result::expect\<close>: an error is a panic.\<close>

fun unwrap :: "('e, 'a) result \<Rightarrow> ('f, 'a) result" where
  "unwrap (Ok x) = Ok x"
| "unwrap Diverge = Diverge"
| "unwrap r = Panic"

text \<open>\<open>iter().position(..)\<close>: the index of the first element that satisfies the test.\<close>

fun position :: "('a \<Rightarrow> bool) \<Rightarrow> 'a list \<Rightarrow> nat option" where
  "position P [] = None"
| "position P (x # xs) = (if P x then Some 0 else map_option Suc (position P xs))"

text \<open>\<open>iter().find_map(..)\<close>, \<open>iter().min_by_key(..)\<close> (the first of equal minima) and \<open>Result::err\<close>.\<close>

fun find_map :: "('a \<Rightarrow> 'b option) \<Rightarrow> 'a list \<Rightarrow> 'b option" where
  "find_map f [] = None"
| "find_map f (x # xs) = (case f x of Some y \<Rightarrow> Some y | None \<Rightarrow> find_map f xs)"

fun min_by_key :: "('a \<Rightarrow> 'k::linorder) \<Rightarrow> 'a list \<Rightarrow> 'a option" where
  "min_by_key key [] = None"
| "min_by_key key (x # xs) = Some (fold (\<lambda>y best. if key y < key best then y else best) xs x)"

definition err_of :: "('e, 'a) result \<Rightarrow> 'e option" where
  "err_of r = (case r of Err e \<Rightarrow> Some e | _ \<Rightarrow> None)"

text \<open>The first occurrences of a list's elements, in order.\<close>

definition dedup_first :: "'a list \<Rightarrow> 'a list" where
  "dedup_first xs = rev (remdups (rev xs))"

lemma bnd_eq_Ok [simp]: "bnd r f = Ok y \<longleftrightarrow> (\<exists>x. r = Ok x \<and> f x = Ok y)"
  by (cases r) auto

lemma bnd_eq_Err [simp]: "bnd r f = Err e \<longleftrightarrow> r = Err e \<or> (\<exists>x. r = Ok x \<and> f x = Err e)"
  by (cases r) auto

lemma bnd_assoc: "bnd (bnd r f) g = bnd r (\<lambda>x. bnd (f x) g)"
  by (cases r) auto

lemma bnd_cong_ok: "(r = Ok () \<Longrightarrow> x = y) \<Longrightarrow> bnd r (\<lambda>_. x) = bnd r (\<lambda>_. y)"
  by (cases r) simp_all

lemma expect_simps [simp]: "expect (Some v) = Ok v" "expect None = Panic"
  by (simp_all add: expect_def)

lemma expect_eq_Ok [simp]: "expect x = Ok v \<longleftrightarrow> x = Some v"
  by (cases x) auto

lemma ok_or_simps [simp]: "ok_or (Some v) e = Ok v" "ok_or None e = Err e"
  by (simp_all add: ok_or_def)

lemma ok_or_eq_Ok [simp]: "ok_or x e = Ok v \<longleftrightarrow> x = Some v"
  by (cases x) auto

lemma ok_or_eq_Err [simp]: "ok_or x e = Err e' \<longleftrightarrow> x = None \<and> e = e'"
  by (cases x) auto

lemma index_at_ok [simp]: "i < length xs \<Longrightarrow> index_at xs i = Ok (xs ! i)"
  by (simp add: index_at_def)

lemma index_at_eq_Ok: "index_at xs i = Ok x \<longleftrightarrow> i < length xs \<and> xs ! i = x"
  by (simp add: index_at_def)

lemma map_err_eq_Ok [simp]: "map_err f r = Ok x \<longleftrightarrow> r = Ok x"
  by (cases r) auto

lemma for_each_Ok [simp]: "for_each f xs = Ok () \<longleftrightarrow> (\<forall>x \<in> set xs. f x = Ok ())"
  by (induction xs) auto

lemma for_each_append: "for_each f (xs @ ys) = bnd (for_each f xs) (\<lambda>_. for_each f ys)"
  by (induction xs) (auto simp: bnd_assoc)

lemma map_res_Ok:
  "(\<And>x. x \<in> set xs \<Longrightarrow> f x = Ok (g x)) \<Longrightarrow> map_res f xs = Ok (map g xs)"
  by (induction xs) auto

lemma for_each_Err:
  "for_each f xs = Err e \<Longrightarrow> \<exists>x \<in> set xs. f x = Err e"
  by (induction xs) auto

lemma position_Some_iff:
  "position P xs = Some i \<longleftrightarrow> i < length xs \<and> P (xs ! i) \<and> (\<forall>j < i. \<not> P (xs ! j))"
proof (induction xs arbitrary: i)
  case (Cons x xs)
  show ?case
  proof (cases i)
    case 0
    then show ?thesis by auto
  next
    case (Suc j)
    with Cons.IH [of j] show ?thesis by (auto simp: less_Suc_eq_0_disj)
  qed
qed simp

lemma position_None_iff: "position P xs = None \<longleftrightarrow> (\<forall>x \<in> set xs. \<not> P x)"
  by (induction xs) auto

lemma position_eq_distinct:
  "distinct xs \<Longrightarrow> i < length xs \<Longrightarrow> position (\<lambda>y. y = xs ! i) xs = Some i"
  by (auto simp: position_Some_iff nth_eq_iff_index_eq)

lemma find_map_None: "find_map f xs = None \<longleftrightarrow> (\<forall>x \<in> set xs. f x = None)"
  by (induction xs) (auto split: option.splits)

lemma fold_min_by_key:
  "let b = fold (\<lambda>y best. if key y < key best then y else best) xs x in
     b \<in> set (x # xs) \<and> (\<forall>y \<in> set (x # xs). (key b :: 'k::linorder) \<le> key y)"
proof (induction xs arbitrary: x)
  case (Cons y ys)
  show ?case
  proof (cases "key y < key x")
    case True
    with Cons [of y] show ?thesis by (auto simp: Let_def)
  next
    case False
    with Cons [of x] show ?thesis by (force simp: Let_def)
  qed
qed simp

lemma min_by_key_Some: "min_by_key key xs = Some b \<Longrightarrow> b \<in> set xs \<and> (\<forall>y \<in> set xs. key b \<le> key y)"
  using fold_min_by_key [of key] by (cases xs) (auto simp: Let_def)

lemma min_by_key_None [simp]: "min_by_key key xs = None \<longleftrightarrow> xs = []"
  by (cases xs) auto

lemma dedup_first_set [simp]: "set (dedup_first xs) = set xs"
  by (simp add: dedup_first_def)

lemma dedup_first_distinct [simp]: "distinct (dedup_first xs)"
  by (simp add: dedup_first_def)

lemma dedup_first_id: "distinct xs \<Longrightarrow> dedup_first xs = xs"
  by (simp add: dedup_first_def distinct_remdups_id)

text \<open>A check that comes to a verdict: it neither panics nor runs forever.\<close>

definition decided :: "('e, 'a) result \<Rightarrow> bool" where
  "decided r \<longleftrightarrow> (\<exists>x. r = Ok x) \<or> (\<exists>e. r = Err e)"

lemma decided_simps [simp]: "decided (Ok x)" "decided (Err e)" "\<not> decided Panic" "\<not> decided Diverge"
  by (simp_all add: decided_def)

lemma decided_bnd: "decided r \<Longrightarrow> (\<And>x. r = Ok x \<Longrightarrow> decided (f x)) \<Longrightarrow> decided (bnd r f)"
  by (cases r) simp_all

lemma decided_for_each: "(\<And>x. x \<in> set xs \<Longrightarrow> decided (f x)) \<Longrightarrow> decided (for_each f xs)"
  by (induction xs) (auto intro!: decided_bnd)

lemma decided_unit: "decided r \<Longrightarrow> r = Ok () \<or> (\<exists>e. r = Err e)"
  by (auto simp: decided_def)

section \<open>State-passing methods\<close>

text \<open>
  A method taking \<open>&mut self\<close> maps the state before the call to its outcome and the state
  after it. On \<open>Err\<close> the state is the one the call left behind, so that an operation which
  refuses without touching the state can be shown to do so. After \<open>Panic\<close> or \<open>Diverge\<close> no
  caller continues.
\<close>

type_synonym ('s, 'e, 'a) sm = "'s \<Rightarrow> ('e, 'a) result \<times> 's"

definition sret :: "'a \<Rightarrow> ('s, 'e, 'a) sm" where
  "sret x s = (Ok x, s)"

definition sbind :: "('s, 'e, 'a) sm \<Rightarrow> ('a \<Rightarrow> ('s, 'e, 'b) sm) \<Rightarrow> ('s, 'e, 'b) sm" where
  "sbind m f s = (case m s of (r, s') \<Rightarrow>
     (case r of Ok x \<Rightarrow> f x s' | Err e \<Rightarrow> (Err e, s') | Panic \<Rightarrow> (Panic, s') | Diverge \<Rightarrow> (Diverge, s')))"

definition sgets :: "('s \<Rightarrow> ('e, 'a) result) \<Rightarrow> ('s, 'e, 'a) sm" where
  "sgets f s = (f s, s)"

definition smodify :: "('s \<Rightarrow> 's) \<Rightarrow> ('s, 'e, unit) sm" where
  "smodify f s = (Ok (), f s)"

text \<open>Running a method of a component on a field of the enclosing state.\<close>

definition szoom :: "('s \<Rightarrow> 't) \<Rightarrow> ('t \<Rightarrow> 's \<Rightarrow> 's) \<Rightarrow> ('t, 'e, 'a) sm \<Rightarrow> ('s, 'e, 'a) sm" where
  "szoom get put m s = (case m (get s) of (r, t) \<Rightarrow> (r, put t s))"

fun sfor :: "('a \<Rightarrow> ('s, 'e, unit) sm) \<Rightarrow> 'a list \<Rightarrow> ('s, 'e, unit) sm" where
  "sfor f [] = sret ()"
| "sfor f (x # xs) = sbind (f x) (\<lambda>_. sfor f xs)"

fun sfold :: "('a \<Rightarrow> 'b \<Rightarrow> ('s, 'e, 'b) sm) \<Rightarrow> 'a list \<Rightarrow> 'b \<Rightarrow> ('s, 'e, 'b) sm" where
  "sfold f [] acc = sret acc"
| "sfold f (x # xs) acc = sbind (f x acc) (sfold f xs)"

lemma sbind_simps [outcome_simps]:
  "m s = (Ok x, s') \<Longrightarrow> sbind m f s = f x s'"
  "m s = (Err e, s') \<Longrightarrow> sbind m f s = (Err e, s')"
  "m s = (Panic, s') \<Longrightarrow> sbind m f s = (Panic, s')"
  "m s = (Diverge, s') \<Longrightarrow> sbind m f s = (Diverge, s')"
  by (simp_all add: sbind_def)

lemma sbind_sgets [outcome_simps]:
  "sbind (sgets g) f s =
     (case g s of Ok x \<Rightarrow> f x s | Err e \<Rightarrow> (Err e, s) | Panic \<Rightarrow> (Panic, s) | Diverge \<Rightarrow> (Diverge, s))"
  by (simp add: sbind_def sgets_def)

lemma sbind_smodify [outcome_simps]: "sbind (smodify g) f s = f () (g s)"
  by (simp add: sbind_def smodify_def)

lemma sbind_sret [outcome_simps]: "sbind (sret x) f s = f x s"
  by (simp add: sbind_def sret_def)

lemma sret_apply [outcome_simps]: "sret x s = (Ok x, s)"
  by (simp add: sret_def)

lemma sgets_apply [outcome_simps]: "sgets g s = (g s, s)"
  by (simp add: sgets_def)

lemma smodify_apply [outcome_simps]: "smodify g s = (Ok (), g s)"
  by (simp add: smodify_def)

lemma sbind_eq_Ok:
  "sbind m f s = (Ok y, s'') \<longleftrightarrow> (\<exists>x s'. m s = (Ok x, s') \<and> f x s' = (Ok y, s''))"
  by (auto simp: sbind_def split: prod.splits result.splits)

lemma sbind_eq_Err:
  "sbind m f s = (Err e, s'') \<longleftrightarrow>
     m s = (Err e, s'') \<or> (\<exists>x s'. m s = (Ok x, s') \<and> f x s' = (Err e, s''))"
  by (auto simp: sbind_def split: prod.splits result.splits)

subsection \<open>Sessions\<close>

text \<open>
  A caller issues operations one after the other; an error is reported to the caller and the
  session goes on with the state the operation left. Only a panic or a loop that does not end
  stops it.
\<close>

definition settle :: "('s, 'e, 'a) sm \<Rightarrow> ('s, 'e, unit) sm" where
  "settle m s = (case m s of (r, s') \<Rightarrow>
     (case r of Ok x \<Rightarrow> (Ok (), s') | Err e \<Rightarrow> (Ok (), s') | Panic \<Rightarrow> (Panic, s') | Diverge \<Rightarrow> (Diverge, s')))"

text \<open>
  A session of at most \<open>n\<close> operations survives if every operation does whenever the state has
  grown by no more than the operations so far.
\<close>

lemma session_grows:
  fixes run :: "'i \<Rightarrow> ('s, 'e, 'a) sm" and size_of :: "'s \<Rightarrow> nat" and inv :: "'s \<Rightarrow> bool"
  assumes step: "\<And>i s. inv s \<Longrightarrow> size_of s < n \<Longrightarrow>
      \<exists>r s'. run i s = (r, s') \<and> ((\<exists>x. r = Ok x) \<or> (\<exists>e. r = Err e)) \<and> inv s' \<and> size_of s' \<le> Suc (size_of s)"
    and "inv s" "size_of s + length calls \<le> n"
  shows "\<exists>s'. sfor (\<lambda>i. settle (run i)) calls s = (Ok (), s') \<and> inv s' \<and> size_of s' \<le> size_of s + length calls"
  using assms(2,3)
proof (induction calls arbitrary: s)
  case (Cons c calls)
  then obtain r s' where s': "run c s = (r, s')" "(\<exists>x. r = Ok x) \<or> (\<exists>e. r = Err e)" "inv s'"
    "size_of s' \<le> Suc (size_of s)" using step [of s c] by auto
  then obtain s'' where "sfor (\<lambda>i. settle (run i)) calls s' = (Ok (), s'')" "inv s''" "size_of s'' \<le> size_of s' + length calls"
    using Cons.IH [of s'] Cons.prems by auto
  moreover have "settle (run c) s = (Ok (), s')" using s' by (auto simp: settle_def)
  ultimately show ?case using s' by (intro exI [of _ s'']) (simp add: sbind_def)
qed (simp add: sret_def)

lemma session_safe:
  fixes run :: "'i \<Rightarrow> ('s, 'e, 'a) sm" and size_of :: "'s \<Rightarrow> nat" and inv :: "'s \<Rightarrow> bool"
  assumes "\<And>i s. inv s \<Longrightarrow> size_of s < n \<Longrightarrow>
      \<exists>r s'. run i s = (r, s') \<and> ((\<exists>x. r = Ok x) \<or> (\<exists>e. r = Err e)) \<and> inv s' \<and> size_of s' \<le> Suc (size_of s)"
    and "inv s" "size_of s + length calls \<le> n"
  shows "\<exists>s'. sfor (\<lambda>i. settle (run i)) calls s = (Ok (), s') \<and> inv s'"
  using session_grows [of inv size_of n run, OF assms] by blast

subsection \<open>Operations guarded by a check\<close>

text \<open>
  The trees and the board expose each mutation with a check that refuses the arguments it cannot
  take and changes nothing. The contract: the check decides; what it refuses the operation
  refuses with the same error and an untouched state; what it accepts the operation carries out
  and keeps the invariant, as long as the state \<open>fits\<close> the machine integers.
\<close>

locale guarded =
  fixes inv :: "'s \<Rightarrow> bool" and fits :: "'i \<Rightarrow> 's \<Rightarrow> bool"
    and chk :: "'i \<Rightarrow> 's \<Rightarrow> ('e, unit) result" and run :: "'i \<Rightarrow> ('s, 'e, 'a) sm"
  assumes decides: "inv s \<Longrightarrow> (\<exists>e. chk i s = Err e) \<or> chk i s = Ok ()"
    and refuses: "inv s \<Longrightarrow> chk i s = Err e \<Longrightarrow> run i s = (Err e, s)"
    and accepts: "inv s \<Longrightarrow> fits i s \<Longrightarrow> chk i s = Ok () \<Longrightarrow> \<exists>x s'. run i s = (Ok x, s') \<and> inv s'"
begin

lemma run_cases:
  assumes "inv s" "fits i s"
  obtains (refused) e where "chk i s = Err e" "run i s = (Err e, s)"
    | (carried_out) x s' where "chk i s = Ok ()" "run i s = (Ok x, s')" "inv s'"
  using decides [OF assms(1)] refuses [OF assms(1)] accepts [OF assms] by metis

lemma run_total:
  assumes "inv s" "fits i s"
  shows "(\<exists>e. chk i s = Err e \<and> run i s = (Err e, s)) \<or>
     (chk i s = Ok () \<and> (\<exists>x s'. run i s = (Ok x, s') \<and> inv s'))"
  by (rule run_cases [OF assms]) auto

lemma run_checked: "inv s \<Longrightarrow> run i s = (Ok x, s') \<Longrightarrow> chk i s = Ok ()"
  using decides [of s i] refuses [of s i] by auto

lemma run_keeps:
  assumes "inv s" "fits i s" "run i s = (r, s')"
  shows "inv s'"
  by (rule run_cases [OF assms(1,2)]) (use assms in auto)

end

section \<open>Loops\<close>

text \<open>
  \<open>run_loop f s\<close> runs the body \<open>f\<close> from the loop state \<open>s\<close>: \<open>Inl\<close> goes round again,
  \<open>Inr\<close> leaves with a value, an error or a panic leaves the enclosing function.
\<close>

partial_function (option) iter_loop ::
  "('s \<Rightarrow> ('e, 's + 'r) result) \<Rightarrow> 's \<Rightarrow> ('e, 'r) result option" where
  "iter_loop f s = (case f s of
      Ok x \<Rightarrow> (case x of Inl s' \<Rightarrow> iter_loop f s' | Inr r \<Rightarrow> Some (Ok r))
    | Err e \<Rightarrow> Some (Err e) | Panic \<Rightarrow> Some Panic | Diverge \<Rightarrow> Some Diverge)"

declare iter_loop.simps [code]

definition run_loop :: "('s \<Rightarrow> ('e, 's + 'r) result) \<Rightarrow> 's \<Rightarrow> ('e, 'r) result" where
  "run_loop f s = (case iter_loop f s of None \<Rightarrow> Diverge | Some r \<Rightarrow> r)"

lemma run_loop_unfold:
  "run_loop f s = bnd (f s) (\<lambda>x. case x of Inl s' \<Rightarrow> run_loop f s' | Inr r \<Rightarrow> Ok r)"
  unfolding run_loop_def
  by (subst iter_loop.simps) (auto split: result.split sum.split)

lemma run_loop_next: "f s = Ok (Inl s') \<Longrightarrow> run_loop f s = run_loop f s'"
  by (subst run_loop_unfold) simp

lemma run_loop_done: "f s = Ok (Inr r) \<Longrightarrow> run_loop f s = Ok r"
  by (subst run_loop_unfold) simp

text \<open>
  Total correctness: an invariant kept by the body and a measure that shrinks whenever the
  body goes round again show that the loop returns and that its value meets \<open>Q\<close>.
\<close>

lemma run_loop_total:
  fixes m :: "'s \<Rightarrow> nat"
  assumes "I s"
    and step: "\<And>s. I s \<Longrightarrow> (\<exists>s'. f s = Ok (Inl s') \<and> I s' \<and> m s' < m s) \<or> (\<exists>r. f s = Ok (Inr r) \<and> Q r)"
  shows "\<exists>r. run_loop f s = Ok r \<and> Q r"
  using assms(1)
proof (induction "m s" arbitrary: s rule: less_induct)
  case less
  from step [OF less.prems] show ?case
  proof (elim disjE exE conjE)
    fix s' assume "f s = Ok (Inl s')" "I s'" "m s' < m s"
    with less.hyps [of s'] show ?thesis by (simp add: run_loop_next)
  next
    fix r assume "f s = Ok (Inr r)" "Q r"
    then show ?thesis by (auto simp: run_loop_done)
  qed
qed

text \<open>The same for a body that may also leave the enclosing function with an error.\<close>

lemma run_loop_total_err:
  fixes m :: "'s \<Rightarrow> nat"
  assumes "I s"
    and step: "\<And>s. I s \<Longrightarrow> (\<exists>s'. f s = Ok (Inl s') \<and> I s' \<and> m s' < m s) \<or>
      (\<exists>r. f s = Ok (Inr r) \<and> Q r) \<or> (\<exists>e. f s = Err e \<and> E e)"
  shows "(\<exists>r. run_loop f s = Ok r \<and> Q r) \<or> (\<exists>e. run_loop f s = Err e \<and> E e)"
  using assms(1)
proof (induction "m s" arbitrary: s rule: less_induct)
  case less
  from step [OF less.prems] show ?case
  proof (elim disjE exE conjE)
    fix s' assume "f s = Ok (Inl s')" "I s'" "m s' < m s"
    with less.hyps [of s'] show ?thesis by (simp add: run_loop_next)
  next
    fix r assume "f s = Ok (Inr r)" "Q r"
    then show ?thesis by (auto simp: run_loop_done)
  next
    fix e assume "f s = Err e" "E e"
    then show ?thesis by (subst (1 2) run_loop_unfold) simp
  qed
qed

text \<open>
  Induction along the rounds of a loop that returns, and its consequence for two loops whose
  bodies step in lockstep.
\<close>

lemma run_loop_induct [consumes 1, case_names again leave]:
  fixes f :: "'s \<Rightarrow> ('e, 's + 'r) result"
  assumes ret: "run_loop f s = Ok r"
    and next_round: "\<And>s s'. f s = Ok (Inl s') \<Longrightarrow> P s' \<Longrightarrow> P s"
    and last_round: "\<And>s. f s = Ok (Inr r) \<Longrightarrow> P s"
  shows "P s"
proof -
  from ret have it: "iter_loop f s = Some (Ok r)"
    by (auto simp: run_loop_def split: option.splits)
  have "f = f \<longrightarrow> (Ok r :: ('e, 'r) result) = Ok r \<longrightarrow> P s"
  proof (rule iter_loop.raw_induct [where P = "\<lambda>f' s (r' :: ('e, 'r) result).
      f' = f \<longrightarrow> r' = Ok r \<longrightarrow> P s", OF _ it])
    fix it f' s and r' :: "('e, 'r) result"
    assume IH: "\<And>f' s r'. it f' s = Some r' \<Longrightarrow> f' = f \<longrightarrow> r' = Ok r \<longrightarrow> P s"
      and eq: "(case f' s of Ok x \<Rightarrow> (case x of Inl s' \<Rightarrow> it f' s' | Inr r \<Rightarrow> Some (Ok r))
        | Err e \<Rightarrow> Some (Err e) | Panic \<Rightarrow> Some Panic | Diverge \<Rightarrow> Some Diverge) = Some r'"
    show "f' = f \<longrightarrow> r' = Ok r \<longrightarrow> P s"
      using eq IH next_round last_round
      by (auto split: result.splits sum.splits)
  qed
  then show ?thesis by simp
qed

lemma run_loop_sim:
  assumes ret: "run_loop f s = Ok r" and "R s t"
    and step: "\<And>s t. R s t \<Longrightarrow>
      (\<exists>s' t'. f s = Ok (Inl s') \<and> g t = Ok (Inl t') \<and> R s' t') \<or>
      (\<exists>r q. f s = Ok (Inr r) \<and> g t = Ok (Inr q) \<and> Q r q)"
  shows "\<exists>q. run_loop g t = Ok q \<and> Q r q"
  using ret assms(2)
proof (induction s arbitrary: t rule: run_loop_induct)
  case (again s s')
  from step [OF again.prems] again.hyps obtain t' where "g t = Ok (Inl t')" "R s' t'" by auto
  with again.IH show ?case by (simp add: run_loop_next)
next
  case (leave s)
  from step [OF leave.prems] leave.hyps show ?case by (auto simp: run_loop_done)
qed

section \<open>Checked 32-bit arithmetic\<close>

text \<open>
  \<open>u32\<close> arithmetic with overflow checks, as a debug build performs it: leaving the range is a
  panic. \<open>u32_checked_add\<close> is the library's \<open>checked_add\<close>.
\<close>

definition u32_add :: "u32 \<Rightarrow> u32 \<Rightarrow> ('e, u32) result" where
  "u32_add a b = (if unat a + unat b < 2 ^ 32 then Ok (a + b) else Panic)"

definition u32_sub :: "u32 \<Rightarrow> u32 \<Rightarrow> ('e, u32) result" where
  "u32_sub a b = (if b \<le> a then Ok (a - b) else Panic)"

definition u32_checked_add :: "u32 \<Rightarrow> u32 \<Rightarrow> u32 option" where
  "u32_checked_add a b = (if unat a + unat b < 2 ^ 32 then Some (a + b) else None)"

lemma u32_checked_add_Some:
  "u32_checked_add a b = Some c \<longleftrightarrow> unat c = unat a + unat b"
proof -
  have "unat a + unat b < 2 ^ 32 \<Longrightarrow> unat (a + b) = unat a + unat b"
    by (simp add: unat_word_ariths)
  moreover have "unat c < 2 ^ 32" using unsigned_less [of c] by simp
  ultimately show ?thesis
    by (auto simp: u32_checked_add_def intro: word_unat_eq_iff [THEN iffD2])
qed

lemma u32_add_Ok: "u32_add a b = Ok c \<longleftrightarrow> unat c = unat a + unat b"
proof -
  have "unat a + unat b < 2 ^ 32 \<Longrightarrow> unat (a + b) = unat a + unat b"
    by (simp add: unat_word_ariths)
  moreover have "unat c < 2 ^ 32" using unsigned_less [of c] by simp
  ultimately show ?thesis
    by (auto simp: u32_add_def intro: word_unat_eq_iff [THEN iffD2])
qed

lemma u32_add_no_panic: "unat a + unat b < 2 ^ 32 \<Longrightarrow> u32_add a b = Ok (a + b)"
  by (simp add: u32_add_def)

lemma unat_u32_add: "unat a + unat b < 2 ^ 32 \<Longrightarrow> unat ((a::u32) + b) = unat a + unat b"
  by (simp add: unat_word_ariths)

lemma u32_sub_Ok: "unat b \<le> unat a \<Longrightarrow> u32_sub a b = Ok (a - b) \<and> unat (a - b) = unat a - unat b"
  by (simp add: u32_sub_def word_le_nat_alt unat_sub)

text \<open>A sum overflows exactly when it wraps below an operand, which is how it is evaluated.\<close>

lemma u32_no_overflow: "unat a + unat b < 2 ^ 32 \<longleftrightarrow> a \<le> a + (b :: u32)"
proof -
  have "unat (a + b) = (unat a + unat b) mod 2 ^ 32" by (simp add: unat_word_ariths)
  moreover have "unat a < 2 ^ 32" "unat b < 2 ^ 32" using unsigned_less [of a] unsigned_less [of b] by simp_all
  ultimately show ?thesis by (auto simp: word_le_nat_alt mod_if)
qed

lemma u32_add_code [code]: "u32_add a b = (if a \<le> a + b then Ok (a + b) else Panic)"
  by (simp only: u32_add_def u32_no_overflow)

lemma u32_checked_add_code [code]: "u32_checked_add a b = (if a \<le> a + b then Some (a + b) else None)"
  by (simp only: u32_checked_add_def u32_no_overflow)

section \<open>Hash maps\<close>

text \<open>
  A \<open>HashMap\<close> is an association list with pairwise distinct keys; the order of the list is the
  unspecified order in which the map iterates. Theorems hold for every such order.
\<close>

type_synonym ('k, 'v) hmap = "('k \<times> 'v) list"

definition hm_ok :: "('k, 'v) hmap \<Rightarrow> bool" where
  "hm_ok m \<longleftrightarrow> distinct (map fst m)"

definition hm_get :: "('k, 'v) hmap \<Rightarrow> 'k \<Rightarrow> 'v option" where
  "hm_get m k = map_of m k"

definition hm_insert :: "'k \<Rightarrow> 'v \<Rightarrow> ('k, 'v) hmap \<Rightarrow> ('k, 'v) hmap" where
  "hm_insert k v m = AList.update k v m"

definition hm_remove :: "'k \<Rightarrow> ('k, 'v) hmap \<Rightarrow> ('k, 'v) hmap" where
  "hm_remove k m = AList.delete k m"

definition hm_keys :: "('k, 'v) hmap \<Rightarrow> 'k list" where
  "hm_keys m = map fst m"

definition hm_contains :: "('k, 'v) hmap \<Rightarrow> 'k \<Rightarrow> bool" where
  "hm_contains m k \<longleftrightarrow> hm_get m k \<noteq> None"

lemma hm_get_Nil [simp]: "hm_get [] k = None"
  by (simp add: hm_get_def)

lemma hm_get_insert [simp]: "hm_get (hm_insert k v m) k' = (if k' = k then Some v else hm_get m k')"
  by (simp add: hm_get_def hm_insert_def update_conv)

lemma hm_get_remove [simp]: "hm_get (hm_remove k m) k' = (if k' = k then None else hm_get m k')"
  by (simp add: hm_get_def hm_remove_def delete_conv)

lemma hm_ok_Nil [simp]: "hm_ok []"
  by (simp add: hm_ok_def)

lemma hm_ok_insert [simp]: "hm_ok m \<Longrightarrow> hm_ok (hm_insert k v m)"
  by (simp add: hm_ok_def hm_insert_def distinct_update)

lemma hm_ok_remove [simp]: "hm_ok m \<Longrightarrow> hm_ok (hm_remove k m)"
  by (simp add: hm_ok_def hm_remove_def distinct_delete)

lemma hm_contains_iff [simp]: "hm_contains m k \<longleftrightarrow> hm_get m k \<noteq> None"
  by (simp add: hm_contains_def)

lemma hm_keys_set: "set (hm_keys m) = {k. hm_get m k \<noteq> None}"
  by (auto simp: hm_keys_def hm_get_def map_of_eq_None_iff)

lemma hm_keys_iff: "k \<in> set (hm_keys m) \<longleftrightarrow> hm_get m k \<noteq> None"
  by (simp add: hm_keys_set)

lemma hm_get_in: "hm_get m k = Some v \<Longrightarrow> (k, v) \<in> set m"
  by (simp add: hm_get_def map_of_SomeD)

lemma hm_in_get: "hm_ok m \<Longrightarrow> (k, v) \<in> set m \<longleftrightarrow> hm_get m k = Some v"
  by (simp add: hm_ok_def hm_get_def map_of_eq_Some_iff)

lemma hm_keys_distinct: "hm_ok m \<Longrightarrow> distinct (hm_keys m)"
  by (simp add: hm_keys_def hm_ok_def)

end
