(* ===== verification/Tree_Types.thy ===== *)
theory Tree_Types
  imports Prelude
begin

text \<open>
  The data the trees store and the errors they return: \<open>src/tree/node.rs\<close>,
  \<open>src/tree/error.rs\<close> and \<open>src/types.rs\<close> of the engine crate.
\<close>

section \<open>Nodes\<close>

text \<open>A \<open>NodeIndex\<close> is a position in the arena's node vector.\<close>

type_synonym node_index = nat

record node =
  user_id :: uuid
  parent :: "node_index option"
  children :: "node_index list"
  sponsor :: "node_index option"
  sponsored :: "node_index list"
  depth :: u32
  enrolled_at :: i64

record responsored =
  rs_user_id :: uuid
  rs_new_sponsor_id :: uuid

record tree_position =
  tp_user_id :: uuid
  tp_parent_user_id :: "uuid option"
  tp_sponsor_user_id :: "uuid option"
  tp_position :: nat
  tp_depth :: u32
  tp_child_count :: nat
  tp_downline_counts :: "(nat, nat) hmap"
  tp_enrolled_at :: i64

section \<open>Errors of the tree operations\<close>

datatype (plugins only: code size) tree_error =
    UserNotFound uuid
  | UserAlreadyExists uuid
  | PositionOutOfRange uuid nat nat
  | HasChildren uuid nat
  | RootAlreadyExists
  | PositionOccupied uuid nat
  | InvalidWidth u8
  | TreeEmpty
  | CannotRemoveRoot
  | SponsorNotFound uuid
  | UserNotInHoldingTank uuid
  | UserInHoldingTank uuid
  | SponsorInHoldingTank uuid uuid
  | UnsupportedSpillover
  | SubtreeFull uuid
  | SponsorlessWithRecruits uuid nat
  | SponsorCycle uuid nat
  | NilUserId

end
