(* ===== verification/Forest.thy ===== *)
theory Forest
  imports Prelude
begin

text \<open>
  Link structures: every element names at most one element above it and lists the elements
  below it. The arena keeps two of them, placement (\<open>parent\<close>/\<open>children\<close>) and sponsorship
  (\<open>sponsor\<close>/\<open>sponsored\<close>). This theory defines the two walks every traversal of the engine
  performs, up a chain and breadth-first down a queue, and states as the locale
  \<open>link_forest\<close> what the traversals rely on.
\<close>

section \<open>Walking up\<close>

text \<open>\<open>upn up k x\<close> is the element \<open>k\<close> links above \<open>x\<close>; \<open>chain up n x\<close> lists the first
  \<open>n\<close> elements above \<open>x\<close>, nearest first.\<close>

primrec upn :: "('a \<Rightarrow> 'a option) \<Rightarrow> nat \<Rightarrow> 'a \<Rightarrow> 'a option" where
  "upn up 0 x = Some x"
| "upn up (Suc k) x = (case up x of None \<Rightarrow> None | Some y \<Rightarrow> upn up k y)"

primrec chain :: "('a \<Rightarrow> 'a option) \<Rightarrow> nat \<Rightarrow> 'a \<Rightarrow> 'a list" where
  "chain up 0 x = []"
| "chain up (Suc n) x = (case up x of None \<Rightarrow> [] | Some y \<Rightarrow> y # chain up n y)"

lemma upn_add: "upn up (j + k) x = (case upn up j x of None \<Rightarrow> None | Some y \<Rightarrow> upn up k y)"
  by (induction j arbitrary: x) (auto split: option.split)

lemma upn_Suc_last: "upn up (Suc k) x = (case upn up k x of None \<Rightarrow> None | Some y \<Rightarrow> up y)"
  using upn_add [of up k 1 x] by (auto split: option.splits)

lemma upn_None_mono: "upn up j x = None \<Longrightarrow> j \<le> k \<Longrightarrow> upn up k x = None"
  by (metis le_Suc_ex option.simps(4) upn_add)

lemma length_chain: "length (chain up n x) \<le> n"
  by (induction n arbitrary: x) (auto split: option.split)

lemma nth_chain: "i < length (chain up n x) \<Longrightarrow> upn up (Suc i) x = Some (chain up n x ! i)"
proof (induction n arbitrary: x i)
  case (Suc n)
  then obtain y where y: "up x = Some y" by (auto split: option.splits)
  show ?case
  proof (cases i)
    case (Suc j)
    with Suc.prems y have "j < length (chain up n y)" by simp
    from Suc.IH [OF this] Suc y show ?thesis by simp
  qed (simp add: y)
qed simp

lemma chain_complete: "upn up (Suc i) x = Some y \<Longrightarrow> i < n \<Longrightarrow> i < length (chain up n x)"
proof (induction n arbitrary: x i)
  case (Suc n)
  then show ?case by (cases i) (auto split: option.splits)
qed simp

lemma set_chain: "set (chain up n x) = {y. \<exists>i < n. upn up (Suc i) x = Some y}"
proof (intro set_eqI iffI)
  fix y assume "y \<in> set (chain up n x)"
  then obtain i where i: "i < length (chain up n x)" "chain up n x ! i = y"
    by (auto simp: in_set_conv_nth)
  with nth_chain [OF i(1)] length_chain [of up n x] show "y \<in> {y. \<exists>i < n. upn up (Suc i) x = Some y}"
    using order_less_le_trans by blast
next
  fix y assume "y \<in> {y. \<exists>i < n. upn up (Suc i) x = Some y}"
  then obtain i where i: "i < n" "upn up (Suc i) x = Some y" by blast
  from chain_complete [OF i(2,1)] have "i < length (chain up n x)" .
  with nth_chain [OF this] i(2) show "y \<in> set (chain up n x)"
    by (metis nth_mem option.inject)
qed

lemma take_chain: "m \<le> n \<Longrightarrow> take m (chain up n x) = chain up m x"
proof (induction n arbitrary: m x)
  case (Suc n)
  then show ?case by (cases m) (auto split: option.split)
qed simp

lemma chain_mono: "length (chain up m x) < m \<Longrightarrow> m \<le> n \<Longrightarrow> chain up n x = chain up m x"
proof (induction m arbitrary: n x)
  case (Suc m)
  from Suc.prems(2) obtain n' where n': "n = Suc n'" "m \<le> n'" by (cases n) auto
  show ?case
  proof (cases "up x")
    case (Some y)
    with Suc.prems(1) have "length (chain up m y) < m" by simp
    from Suc.IH [OF this n'(2)] n'(1) Some show ?thesis by simp
  qed (simp add: n'(1))
qed simp

lemma chain_end: "up x = None \<Longrightarrow> chain up n x = []"
  by (cases n) auto

lemma chain_min:
  assumes "upn up (Suc n) x = None"
  shows "chain up (min n m) x = chain up m x"
proof (cases "m \<le> n")
  case False
  have "length (chain up m x) \<le> n"
  proof (rule ccontr)
    assume "\<not> length (chain up m x) \<le> n"
    then have "n < length (chain up m x)" by simp
    from nth_chain [OF this] assms show False by simp
  qed
  with False have "chain up m x = chain up (Suc n) x" "length (chain up (Suc n) x) \<le> n"
    using take_chain [of "Suc n" m up x] by auto
  with False take_chain [of n "Suc n" up x] show ?thesis by (simp add: min_def)
qed (simp add: min_def)

text \<open>A renaming that commutes with the links commutes with the walk.\<close>

lemma chain_rename:
  assumes "\<And>x. P x \<Longrightarrow> up' (f x) = map_option f (up x)" "\<And>x y. P x \<Longrightarrow> up x = Some y \<Longrightarrow> P y" "P x"
  shows "chain up' n (f x) = map f (chain up n x)"
  using assms(3)
proof (induction n arbitrary: x)
  case (Suc n)
  then show ?case using assms(1) [of x] assms(2) [of x] by (cases "up x") auto
qed simp

section \<open>Walking down, breadth first\<close>

text \<open>
  \<open>kids down q\<close> are the elements directly below those of \<open>q\<close>, in order; \<open>level down k x\<close>
  are those \<open>k\<close> links below \<open>x\<close>; \<open>level_order down n x\<close> lists levels 1 to \<open>n\<close>.
\<close>

definition kids :: "('a \<Rightarrow> 'a list) \<Rightarrow> 'a list \<Rightarrow> 'a list" where
  "kids down q = concat (map down q)"

definition level :: "('a \<Rightarrow> 'a list) \<Rightarrow> nat \<Rightarrow> 'a \<Rightarrow> 'a list" where
  "level down k x = (kids down ^^ k) [x]"

definition level_order :: "('a \<Rightarrow> 'a list) \<Rightarrow> nat \<Rightarrow> 'a \<Rightarrow> 'a list" where
  "level_order down n x = concat (map (\<lambda>k. level down (Suc k) x) [0..<n])"

text \<open>
  \<open>fifo down q out\<close>: a queue that starts as \<open>q\<close>, gives up its front element and takes that
  element's successors at the back, gives up the elements \<open>out\<close> in this order and empties.
\<close>

inductive fifo :: "('a \<Rightarrow> 'a list) \<Rightarrow> 'a list \<Rightarrow> 'a list \<Rightarrow> bool" for down where
  fifo_Nil: "fifo down [] []"
| fifo_Cons: "fifo down (q @ down x) out \<Longrightarrow> fifo down (x # q) (x # out)"

lemma kids_simps [simp]:
  "kids down [] = []"
  "kids down (x # q) = down x @ kids down q"
  "kids down (p @ q) = kids down p @ kids down q"
  by (simp_all add: kids_def)

lemma fifo_prefix: "fifo down (r @ kids down q) out \<Longrightarrow> fifo down (q @ r) (q @ out)"
proof (induction q arbitrary: r)
  case (Cons x q)
  from Cons.prems Cons.IH [of "r @ down x"] show ?case
    by (simp add: fifo_Cons)
qed simp

lemma kids_shift: "(kids down ^^ k) (kids down q) = (kids down ^^ Suc k) q"
  by (simp add: funpow_Suc_right del: funpow.simps)

lemma fifo_levels:
  assumes "(kids down ^^ n) q = []"
  shows "fifo down q (concat (map (\<lambda>k. (kids down ^^ k) q) [0..<n]))"
  using assms
proof (induction n arbitrary: q)
  case 0
  then show ?case by (simp add: fifo_Nil)
next
  case (Suc n)
  have split: "[0..<Suc n] = 0 # map Suc [0..<n]"
    by (simp add: map_Suc_upt upt_conv_Cons del: upt_Suc)
  from Suc.prems have "(kids down ^^ n) (kids down q) = []"
    by (simp only: kids_shift)
  from Suc.IH [OF this] fifo_prefix [of down "[]" q]
  have "fifo down q (q @ concat (map (\<lambda>k. (kids down ^^ k) (kids down q)) [0..<n]))"
    by simp
  then show ?case unfolding split by (simp add: comp_def kids_shift del: upt_Suc funpow.simps(2))
qed

lemma fifo_level_order:
  assumes "level down (Suc n) x = []"
  shows "fifo down (down x) (level_order down n x)"
proof -
  have eq: "(kids down ^^ k) (down x) = level down (Suc k) x" for k
    using kids_shift [of k down "[x]"] by (simp add: level_def del: funpow.simps(2))
  from fifo_levels [of n down "down x"] assms show ?thesis
    by (simp add: eq level_order_def)
qed

lemma fifo_level_order_self:
  assumes "level down (Suc n) x = []"
  shows "fifo down [x] (x # level_order down n x)"
  using fifo_level_order [OF assms] by (simp add: fifo_Cons)

text \<open>
  A queue loop of the engine: the body takes the front element, folds it into the accumulator
  and appends its successors. It visits exactly the elements \<open>fifo\<close> gives.
\<close>

lemma fifo_loop:
  assumes "fifo next q out"
    and "\<And>x q acc. x \<in> set out \<Longrightarrow> body (x # q, acc) = Ok (Inl (q @ next x, visit x acc))"
    and "\<And>acc. body ([], acc) = Ok (Inr (fin acc))"
  shows "run_loop body (q, acc) = Ok (fin (fold visit out acc))"
  using assms(1,2)
proof (induction q out arbitrary: acc rule: fifo.induct)
  case fifo_Nil
  show ?case by (simp add: run_loop_done assms(3))
next
  case (fifo_Cons q x out)
  have "run_loop body (x # q, acc) = run_loop body (q @ next x, visit x acc)"
    by (rule run_loop_next) (simp add: fifo_Cons.prems)
  with fifo_Cons show ?case by simp
qed

lemma level_0 [simp]: "level down 0 x = [x]"
  by (simp add: level_def)

lemma level_Suc: "level down (Suc k) x = kids down (level down k x)"
  by (simp add: level_def)

lemma level_empty_mono: "level down k x = [] \<Longrightarrow> k \<le> n \<Longrightarrow> level down n x = []"
proof (induction n)
  case (Suc n)
  then show ?case by (cases "k = Suc n") (auto simp: level_Suc)
qed simp

lemma level_order_0 [simp]: "level_order down 0 x = []"
  by (simp add: level_order_def)

lemma level_order_Suc: "level_order down (Suc n) x = level_order down n x @ level down (Suc n) x"
  by (simp add: level_order_def)

lemma level_order_stop: "level down (Suc m) x = [] \<Longrightarrow> m \<le> n \<Longrightarrow> level_order down n x = level_order down m x"
proof (induction n)
  case (Suc n)
  then show ?case
    by (cases "m = Suc n") (auto simp: level_order_Suc intro: level_empty_mono [of down "Suc m"])
qed simp

lemma set_level_order: "set (level_order down n x) = (\<Union>k \<in> {1..n}. set (level down k x))"
  by (induction n) (auto simp: level_order_Suc atLeastAtMostSuc_conv)

lemma level_rename:
  assumes "\<And>x. P x \<Longrightarrow> down' (f x) = map f (down x)" "\<And>x y. P x \<Longrightarrow> y \<in> set (down x) \<Longrightarrow> P y" "P x"
  shows "level down' k (f x) = map f (level down k x) \<and> (\<forall>y \<in> set (level down k x). P y)"
proof (induction k)
  case (Suc k)
  have "kids down' (map f q) = map f (kids down q)" if "\<forall>y \<in> set q. P y" for q
    using that by (induction q) (auto simp: assms(1))
  with Suc assms(2) show ?case by (auto simp: level_Suc kids_def)
qed (simp add: assms(3))

lemma level_order_rename:
  assumes "\<And>x. P x \<Longrightarrow> down' (f x) = map f (down x)" "\<And>x y. P x \<Longrightarrow> y \<in> set (down x) \<Longrightarrow> P y" "P x"
  shows "level_order down' n (f x) = map f (level_order down n x)"
  using level_rename [of P down' f down, OF assms] by (simp add: level_order_def map_concat comp_def)

lemma distinct_concat_map:
  assumes "distinct xs" and "\<And>x. x \<in> set xs \<Longrightarrow> distinct (f x)"
    and "\<And>x y z. x \<in> set xs \<Longrightarrow> y \<in> set xs \<Longrightarrow> z \<in> set (f x) \<Longrightarrow> z \<in> set (f y) \<Longrightarrow> x = y"
  shows "distinct (concat (map f xs))"
  using assms
proof (induction xs)
  case (Cons a xs)
  have "distinct (concat (map f xs))" using Cons by auto
  moreover have "set (f a) \<inter> set (concat (map f xs)) = {}"
    using Cons.prems(1) Cons.prems(3) [of a] by fastforce
  ultimately show ?case using Cons.prems(2) by simp
qed simp

section \<open>The contract of a link structure\<close>

text \<open>
  The state invariant \<open>inv\<close> guarantees that the live elements are finitely many, that links
  stay among them, that the downward lists and the upward links say the same, without
  repetition, and that a rank falls along every upward link, so that no chain returns to its
  start.
\<close>

locale link_forest =
  fixes inv :: "'s \<Rightarrow> bool"
    and live :: "'s \<Rightarrow> nat set"
    and up :: "'s \<Rightarrow> nat \<Rightarrow> nat option"
    and down :: "'s \<Rightarrow> nat \<Rightarrow> nat list"
    and rnk :: "'s \<Rightarrow> nat \<Rightarrow> nat"
  assumes live_finite: "inv s \<Longrightarrow> finite (live s)"
    and up_live: "inv s \<Longrightarrow> x \<in> live s \<Longrightarrow> up s x = Some y \<Longrightarrow> y \<in> live s"
    and down_live: "inv s \<Longrightarrow> x \<in> live s \<Longrightarrow> y \<in> set (down s x) \<Longrightarrow> y \<in> live s"
    and down_up: "inv s \<Longrightarrow> x \<in> live s \<Longrightarrow> y \<in> live s \<Longrightarrow> y \<in> set (down s x) \<longleftrightarrow> up s y = Some x"
    and down_distinct: "inv s \<Longrightarrow> x \<in> live s \<Longrightarrow> distinct (down s x)"
    and up_rank: "inv s \<Longrightarrow> x \<in> live s \<Longrightarrow> up s x = Some y \<Longrightarrow> rnk s y < rnk s x"
begin

lemma upn_live: "inv s \<Longrightarrow> x \<in> live s \<Longrightarrow> upn (up s) k x = Some y \<Longrightarrow> y \<in> live s"
  by (induction k arbitrary: x) (auto split: option.splits dest: up_live)

lemma upn_rank: "inv s \<Longrightarrow> x \<in> live s \<Longrightarrow> upn (up s) k x = Some y \<Longrightarrow> rnk s y + k \<le> rnk s x"
proof (induction k arbitrary: x)
  case (Suc k)
  then obtain z where z: "up s x = Some z" "upn (up s) k z = Some y"
    by (auto split: option.splits)
  with Suc have "rnk s y + k \<le> rnk s z" "rnk s z < rnk s x"
    by (auto dest: up_live up_rank)
  then show ?case by simp
qed simp

lemma upn_inj:
  assumes "inv s" "x \<in> live s" "upn (up s) i x = Some y" "upn (up s) j x = Some y"
  shows "i = j"
proof -
  have "upn (up s) i x = Some y \<Longrightarrow> upn (up s) j x = Some y \<Longrightarrow> i \<le> j \<Longrightarrow> i = j" for i j
  proof -
    assume i: "upn (up s) i x = Some y" and j: "upn (up s) j x = Some y" and "i \<le> j"
    then obtain k where k: "j = i + k" by (auto simp: le_iff_add)
    with i j have "upn (up s) k y = Some y" by (simp add: upn_add)
    from upn_rank [OF assms(1) upn_live [OF assms(1,2) i] this] k show "i = j" by simp
  qed
  with assms show ?thesis by (metis nat_le_linear)
qed

lemma upn_bound:
  assumes "inv s" "x \<in> live s" "upn (up s) k x = Some y"
  shows "k < card (live s)"
proof -
  define f where "f i = the (upn (up s) i x)" for i
  have some: "upn (up s) i x = Some (f i)" if "i \<le> k" for i
    using that assms(3) upn_None_mono [of "up s" i x k] unfolding f_def
    by (cases "upn (up s) i x") auto
  have "inj_on f {..k}"
    using upn_inj [OF assms(1,2)] some by (auto intro!: inj_onI)
  moreover have "f ` {..k} \<subseteq> live s"
    using some upn_live [OF assms(1,2)] by auto
  ultimately have "card {..k} \<le> card (live s)"
    using live_finite [OF assms(1)] by (rule card_inj_on_le)
  then show ?thesis by simp
qed

lemma chain_in_live: "inv s \<Longrightarrow> x \<in> live s \<Longrightarrow> set (chain (up s) n x) \<subseteq> live s"
  by (auto simp: set_chain simp del: upn.simps dest: upn_live)

lemma chain_length_bound: "inv s \<Longrightarrow> x \<in> live s \<Longrightarrow> length (chain (up s) n x) < card (live s)"
proof (cases "chain (up s) n x")
  case Nil
  assume "inv s" "x \<in> live s"
  with Nil show ?thesis using live_finite by (auto simp: card_gt_0_iff)
next
  case (Cons y ys)
  assume "inv s" "x \<in> live s"
  from Cons have "length ys < length (chain (up s) n x)" by simp
  from nth_chain [OF this] upn_bound [OF \<open>inv s\<close> \<open>x \<in> live s\<close>] Cons show ?thesis by auto
qed

lemma chain_full: "inv s \<Longrightarrow> x \<in> live s \<Longrightarrow> card (live s) \<le> n \<Longrightarrow> chain (up s) n x = chain (up s) (card (live s)) x"
  by (rule chain_mono) (auto intro: chain_length_bound)

lemma chain_distinct: "inv s \<Longrightarrow> x \<in> live s \<Longrightarrow> distinct (x # chain (up s) n x)"
proof -
  assume inv: "inv s" and x: "x \<in> live s"
  have "distinct (chain (up s) n x)"
    unfolding distinct_conv_nth
    using nth_chain [of _ "up s" n x] upn_inj [OF inv x] by (metis nat.inject)
  moreover have "x \<notin> set (chain (up s) n x)"
    using upn_inj [OF inv x, of 0] by (force simp: set_chain simp del: upn.simps(2))
  ultimately show ?thesis by simp
qed

lemma set_level:
  assumes "inv s" "x \<in> live s"
  shows "set (level (down s) k x) = {y \<in> live s. upn (up s) k y = Some x}"
proof (induction k)
  case 0
  then show ?case using assms by auto
next
  case (Suc k)
  show ?case
  proof (intro set_eqI iffI)
    fix z assume "z \<in> set (level (down s) (Suc k) x)"
    then obtain y where y: "y \<in> set (level (down s) k x)" "z \<in> set (down s y)"
      by (auto simp: level_Suc kids_def)
    with Suc.IH have yl: "y \<in> live s" "upn (up s) k y = Some x" by auto
    from down_live [OF assms(1) yl(1) y(2)] have zl: "z \<in> live s" .
    with down_up [OF assms(1) yl(1) zl] y(2) have "up s z = Some y" by simp
    with yl zl show "z \<in> {y \<in> live s. upn (up s) (Suc k) y = Some x}" by simp
  next
    fix z assume z: "z \<in> {y \<in> live s. upn (up s) (Suc k) y = Some x}"
    then obtain y where y: "up s z = Some y" "upn (up s) k y = Some x"
      by (auto split: option.splits)
    from z up_live [OF assms(1) _ y(1)] have yl: "y \<in> live s" by simp
    with y(2) Suc.IH have "y \<in> set (level (down s) k x)" by simp
    moreover from z y(1) down_up [OF assms(1) yl, of z] have "z \<in> set (down s y)" by simp
    ultimately show "z \<in> set (level (down s) (Suc k) x)"
      by (auto simp: level_Suc kids_def)
  qed
qed

lemma distinct_level:
  assumes "inv s" "x \<in> live s"
  shows "distinct (level (down s) k x)"
proof (induction k)
  case (Suc k)
  have live: "y \<in> live s" if "y \<in> set (level (down s) k x)" for y
    using that set_level [OF assms] by auto
  have "y = z" if "y \<in> live s" "z \<in> live s" "w \<in> set (down s y)" "w \<in> set (down s z)" for w y z
    using that down_live [OF assms(1)] down_up [OF assms(1)] by (metis option.inject)
  with Suc live show ?case
    unfolding level_Suc kids_def
    by (intro distinct_concat_map) (auto intro: down_distinct [OF assms(1)])
qed simp

lemma level_vanishes:
  assumes "inv s" "x \<in> live s" "card (live s) \<le> k"
  shows "level (down s) k x = []"
proof (rule ccontr)
  assume "level (down s) k x \<noteq> []"
  then obtain y where "y \<in> set (level (down s) k x)" by (cases "level (down s) k x") auto
  with set_level [OF assms(1,2)] upn_bound [OF assms(1)] assms(3) show False
    by fastforce
qed

lemma in_level_order:
  assumes "inv s" "x \<in> live s"
  shows "y \<in> set (level_order (down s) n x) \<longleftrightarrow> y \<in> live s \<and> (\<exists>k \<in> {1..n}. upn (up s) k y = Some x)"
  by (auto simp: set_level_order set_level [OF assms])

lemma distinct_level_order:
  assumes "inv s" "x \<in> live s"
  shows "distinct (level_order (down s) n x)"
proof (induction n)
  case (Suc n)
  have "set (level_order (down s) n x) \<inter> set (level (down s) (Suc n) x) = {}"
  proof (rule ccontr)
    assume "set (level_order (down s) n x) \<inter> set (level (down s) (Suc n) x) \<noteq> {}"
    then obtain y where "y \<in> set (level_order (down s) n x)" "y \<in> set (level (down s) (Suc n) x)"
      by blast
    then obtain k where "k \<le> n" and yl: "y \<in> live s"
      and k: "upn (up s) k y = Some x" and n: "upn (up s) (Suc n) y = Some x"
      by (auto simp: in_level_order [OF assms] set_level [OF assms] simp del: upn.simps)
    with upn_inj [OF assms(1) yl k n] show False by simp
  qed
  with Suc show ?case by (simp add: level_order_Suc distinct_level [OF assms])
qed simp

lemma not_in_own_level_order:
  assumes "inv s" "x \<in> live s"
  shows "x \<notin> set (level_order (down s) n x)"
proof
  assume "x \<in> set (level_order (down s) n x)"
  then obtain k where "k \<ge> 1" "upn (up s) k x = Some x"
    by (auto simp: in_level_order [OF assms])
  with upn_inj [OF assms, of 0 x k] show False by simp
qed

lemma level_order_chain:
  assumes "inv s" "x \<in> live s" "y \<in> live s" "card (live s) \<le> n"
  shows "y \<in> set (level_order (down s) n x) \<longleftrightarrow> x \<in> set (chain (up s) n y)"
proof
  assume "y \<in> set (level_order (down s) n x)"
  then obtain k where "k \<in> {1..n}" "upn (up s) k y = Some x"
    by (auto simp: in_level_order [OF assms(1,2)])
  then show "x \<in> set (chain (up s) n y)"
    unfolding set_chain by (intro CollectI exI [of _ "k - 1"]) (auto simp del: upn.simps)
next
  assume "x \<in> set (chain (up s) n y)"
  then obtain i where "i < n" "upn (up s) (Suc i) y = Some x" by (auto simp: set_chain)
  then show "y \<in> set (level_order (down s) n x)"
    using assms(3) unfolding in_level_order [OF assms(1,2)]
    by (intro conjI bexI [of _ "Suc i"]) auto
qed

text \<open>Below every node there is one with nothing below it.\<close>

lemma leaf_below:
  assumes "inv s" "x \<in> live s" "card (live s) \<le> Suc n"
  shows "\<exists>y \<in> set (x # level_order (down s) n x). down s y = []"
proof -
  define m where "m = (LEAST m. level (down s) m x = [])"
  have "level (down s) (Suc n) x = []" by (rule level_vanishes [OF assms])
  then have m: "level (down s) m x = []" "m \<le> Suc n"
    unfolding m_def by (rule LeastI, rule Least_le)
  then obtain k where k: "m = Suc k" by (cases m) auto
  have "level (down s) k x \<noteq> []"
  proof
    assume "level (down s) k x = []"
    then have "m \<le> k" unfolding m_def by (rule Least_le)
    with k show False by simp
  qed
  then obtain y where y: "y \<in> set (level (down s) k x)" by (cases "level (down s) k x") auto
  with m(1) have "down s y = []" unfolding k level_Suc by (simp add: kids_def)
  moreover have "y \<in> set (x # level_order (down s) n x)"
  proof (cases k)
    case (Suc j)
    with y m(2) k show ?thesis by (auto simp: set_level_order)
  qed (use y in simp)
  ultimately show ?thesis by blast
qed

lemma fifo_down:
  "inv s \<Longrightarrow> x \<in> live s \<Longrightarrow> card (live s) \<le> Suc n \<Longrightarrow> fifo (down s) (down s x) (level_order (down s) n x)"
  by (rule fifo_level_order) (auto intro: level_vanishes)

end

end
