(* ===== verification/Arena.thy ===== *)
theory Arena
  imports Tree_Types Forest
begin

text \<open>
  The arena of \<open>src/tree/arena.rs\<close>: node storage shared by the three tree types, its
  allocation and tombstoning, the sponsor bookkeeping of a removal, and the traversals.
  \<open>self.nodes[i]\<close> is \<open>index_at\<close>, which panics out of range; \<open>self.node(i)\<close> is
  \<open>arena_node\<close>, which also panics on a freed slot.
\<close>

record arena =
  nodes :: "node list"
  index :: "(uuid, node_index) hmap"
  free_list :: "node_index list"
  root :: "node_index option"

definition arena_new :: arena where
  "arena_new = \<lparr>nodes = [], index = [], free_list = [], root = None\<rparr>"

section \<open>Storage\<close>

definition resolve :: "arena \<Rightarrow> uuid \<Rightarrow> (tree_error, node_index) result" where
  "resolve a user = ok_or (hm_get (index a) user) (UserNotFound user)"

definition arena_node :: "arena \<Rightarrow> node_index \<Rightarrow> ('e, node) result" where
  "arena_node a i = bnd (index_at (nodes a) i) (\<lambda>n. if user_id n \<noteq> nil_uuid then Ok n else Panic)"

text \<open>
  The placements of the three trees resolve a sponsor and rename the error of an unknown one.
\<close>

definition sponsor_not_found :: "tree_error \<Rightarrow> tree_error" where
  "sponsor_not_found e = (case e of UserNotFound user \<Rightarrow> SponsorNotFound user | other \<Rightarrow> other)"

definition resolve_sponsor :: "arena \<Rightarrow> uuid \<Rightarrow> (tree_error, node_index) result" where
  "resolve_sponsor a sponsor_id = map_err sponsor_not_found (resolve a sponsor_id)"

text \<open>Writing through \<open>node_mut(i)\<close>, and through \<open>&mut self.nodes[i]\<close>.\<close>

definition arena_node_mut :: "node_index \<Rightarrow> (node \<Rightarrow> node) \<Rightarrow> (arena, 'e, unit) sm" where
  "arena_node_mut i f = sbind (sgets (\<lambda>a. arena_node a i)) (\<lambda>n.
     smodify (\<lambda>a. a\<lparr>nodes := (nodes a)[i := f n]\<rparr>))"

definition nodes_mut :: "node_index \<Rightarrow> (node \<Rightarrow> node) \<Rightarrow> (arena, 'e, unit) sm" where
  "nodes_mut i f a = (if i < length (nodes a)
     then (Ok (), a\<lparr>nodes := (nodes a)[i := f (nodes a ! i)]\<rparr>) else (Panic, a))"

definition alloc_slot :: "node \<Rightarrow> (arena, 'e, node_index) sm" where
  "alloc_slot n a = (if free_list a \<noteq> [] then
      (let i = last (free_list a); a' = a\<lparr>free_list := butlast (free_list a)\<rparr>
       in if i < length (nodes a) then (Ok i, a'\<lparr>nodes := (nodes a)[i := n]\<rparr>) else (Panic, a'))
    else (Ok (length (nodes a)), a\<lparr>nodes := nodes a @ [n]\<rparr>))"

definition check_user_id :: "uuid \<Rightarrow> (tree_error, unit) result" where
  "check_user_id user = (if user = nil_uuid then Err NilUserId else Ok ())"

definition cleared_node :: node where
  "cleared_node = \<lparr>user_id = nil_uuid, parent = None, children = [], sponsor = None,
     sponsored = [], depth = 0, enrolled_at = 0\<rparr>"

definition tombstone :: "node_index \<Rightarrow> (arena, 'e, unit) sm" where
  "tombstone i a = (if i \<in> set (free_list a) then (Panic, a)
     else if i < length (nodes a)
     then (Ok (), a\<lparr>nodes := (nodes a)[i := cleared_node], free_list := free_list a @ [i]\<rparr>)
     else (Panic, a))"

section \<open>Sponsor bookkeeping of a removal\<close>

primrec surviving_walk ::
  "arena \<Rightarrow> node_index set \<Rightarrow> tree_error \<Rightarrow> nat \<Rightarrow> node_index option \<Rightarrow> (tree_error, node_index option) result" where
  "surviving_walk a removed err 0 current = Err err"
| "surviving_walk a removed err (Suc k) current = (case current of
      None \<Rightarrow> Ok None
    | Some candidate \<Rightarrow> if candidate \<notin> removed then Ok (Some candidate)
        else bnd (index_at (nodes a) candidate) (\<lambda>n. surviving_walk a removed err k (sponsor n)))"

definition surviving_sponsor ::
  "arena \<Rightarrow> node_index \<Rightarrow> node_index set \<Rightarrow> (tree_error, node_index option) result" where
  "surviving_sponsor a i removed = bnd (index_at (nodes a) i) (\<lambda>n.
     surviving_walk a removed (SponsorCycle (user_id n) (length (nodes a))) (length (nodes a)) (sponsor n))"

definition surviving_recruits ::
  "arena \<Rightarrow> node_index \<Rightarrow> node_index set \<Rightarrow> (tree_error, node_index list) result" where
  "surviving_recruits a i removed =
     bnd (index_at (nodes a) i) (\<lambda>n. Ok (filter (\<lambda>s. s \<notin> removed) (sponsored n)))"

definition check_removable_one ::
  "arena \<Rightarrow> node_index set \<Rightarrow> node_index \<Rightarrow> (tree_error, unit) result" where
  "check_removable_one a removed i = bnd (surviving_recruits a i removed) (\<lambda>survivors.
     if survivors = [] then Ok ()
     else bnd (surviving_sponsor a i removed) (\<lambda>target. bnd (index_at (nodes a) i) (\<lambda>n. case target of
         None \<Rightarrow> Err (SponsorlessWithRecruits (user_id n) (length survivors))
       | Some t \<Rightarrow> if t \<in> set survivors then Err (SponsorCycle (user_id n) (length (nodes a)))
           else Ok ())))"

definition check_sponsored_removable :: "arena \<Rightarrow> node_index list \<Rightarrow> (tree_error, unit) result" where
  "check_sponsored_removable a removed = for_each (check_removable_one a (set removed)) removed"

definition plan_move ::
  "arena \<Rightarrow> node_index set \<Rightarrow> node_index \<Rightarrow>
     (tree_error, node_index \<times> node_index list \<times> node_index option) result" where
  "plan_move a removed i = bnd (surviving_recruits a i removed) (\<lambda>survivors.
     if survivors = [] then Ok (i, survivors, None)
     else bnd (unwrap (surviving_sponsor a i removed)) (\<lambda>target. Ok (i, survivors, target)))"

definition move_recruit ::
  "node_index option \<Rightarrow> node_index \<Rightarrow> responsored list \<Rightarrow> (arena, tree_error, responsored list) sm" where
  "move_recruit target s moved =
     sbind (nodes_mut s (\<lambda>n. n\<lparr>sponsor := target\<rparr>)) (\<lambda>_. case target of
         None \<Rightarrow> sret moved
       | Some t \<Rightarrow> sbind (nodes_mut t (\<lambda>n. n\<lparr>sponsored := sponsored n @ [s]\<rparr>)) (\<lambda>_.
           sbind (sgets (\<lambda>a. index_at (nodes a) s)) (\<lambda>n.
           sbind (sgets (\<lambda>a. index_at (nodes a) t)) (\<lambda>m.
           sret (moved @ [\<lparr>rs_user_id = user_id n, rs_new_sponsor_id = user_id m\<rparr>])))))"

definition apply_move ::
  "node_index \<times> node_index list \<times> node_index option \<Rightarrow> responsored list \<Rightarrow>
     (arena, tree_error, responsored list) sm" where
  "apply_move p moved = (case p of (i, survivors, target) \<Rightarrow>
     sbind (sfold (move_recruit target) survivors moved) (\<lambda>moved'.
     sbind (nodes_mut i (\<lambda>n. n\<lparr>sponsored := []\<rparr>)) (\<lambda>_. sret moved')))"

definition reparent_sponsored :: "node_index list \<Rightarrow> (arena, tree_error, responsored list) sm" where
  "reparent_sponsored removed =
     sbind (sgets (\<lambda>a. map_res (plan_move a (set removed)) (dedup_first removed))) (\<lambda>plan.
     sfold apply_move plan [])"

definition node_count :: "arena \<Rightarrow> ('e, nat) result" where
  "node_count a = (if length (free_list a) \<le> length (nodes a)
     then Ok (length (nodes a) - length (free_list a)) else Panic)"

section \<open>Placement traversals\<close>

text \<open>
  The two upward walks of the source differ only in the link they follow; \<open>depth = 0\<close> walks
  to the end.
\<close>

definition upline_body ::
  "arena \<Rightarrow> (node \<Rightarrow> node_index option) \<Rightarrow> u32 \<Rightarrow> node_index option \<times> u32 \<times> node list \<Rightarrow>
     ('e, (node_index option \<times> u32 \<times> node list) + node list) result" where
  "upline_body a link d st = (case st of (current, steps, acc) \<Rightarrow> (case current of
      None \<Rightarrow> Ok (Inr acc)
    | Some p \<Rightarrow> if 0 < d \<and> d \<le> steps then Ok (Inr acc)
        else bnd (index_at (nodes a) p) (\<lambda>n. bnd (u32_add steps 1) (\<lambda>steps'.
          Ok (Inl (link n, steps', acc @ [n]))))))"

definition walk_upline :: "arena \<Rightarrow> node_index \<Rightarrow> u32 \<Rightarrow> ('e, node list) result" where
  "walk_upline a start d = bnd (index_at (nodes a) start) (\<lambda>n.
     run_loop (upline_body a parent d) (parent n, 0, []))"

text \<open>
  The downward walks share their loop up to what they accumulate: \<open>visit\<close> is
  \<open>result.push(node)\<close> in \<open>bfs_downline\<close> and \<open>count += 1\<close> in \<open>count_downline\<close>.
\<close>

definition downline_body ::
  "arena \<Rightarrow> (node \<Rightarrow> 'r \<Rightarrow> 'r) \<Rightarrow> u32 \<Rightarrow> u32 \<Rightarrow> node_index list \<times> 'r \<Rightarrow>
     ('e, (node_index list \<times> 'r) + 'r) result" where
  "downline_body a visit start_depth d st = (case st of (queue, acc) \<Rightarrow> (case queue of
      [] \<Rightarrow> Ok (Inr acc)
    | i # rest \<Rightarrow> bnd (index_at (nodes a) i) (\<lambda>n. bnd (u32_sub (depth n) start_depth) (\<lambda>relative_depth.
        Ok (Inl (if d = 0 \<or> relative_depth < d then rest @ children n else rest, visit n acc))))))"

definition bfs_downline :: "arena \<Rightarrow> node_index \<Rightarrow> u32 \<Rightarrow> ('e, node list) result" where
  "bfs_downline a start d = bnd (index_at (nodes a) start) (\<lambda>n.
     run_loop (downline_body a (\<lambda>m acc. acc @ [m]) (depth n) d) (children n, []))"

definition count_downline :: "arena \<Rightarrow> node_index \<Rightarrow> u32 \<Rightarrow> ('e, nat) result" where
  "count_downline a start d = bnd (index_at (nodes a) start) (\<lambda>n.
     run_loop (downline_body a (\<lambda>_ count. count + 1) (depth n) d) (children n, 0))"

definition branch_body ::
  "arena \<Rightarrow> (node \<Rightarrow> 'r \<Rightarrow> 'r) \<Rightarrow> node_index list \<times> 'r \<Rightarrow> ('e, (node_index list \<times> 'r) + 'r) result" where
  "branch_body a visit st = (case st of (queue, acc) \<Rightarrow> (case queue of
      [] \<Rightarrow> Ok (Inr acc)
    | i # rest \<Rightarrow> bnd (index_at (nodes a) i) (\<lambda>n. Ok (Inl (rest @ children n, visit n acc)))))"

definition get_branch :: "arena \<Rightarrow> node_index \<Rightarrow> nat \<Rightarrow> (tree_error, node list) result" where
  "get_branch a p pos = bnd (index_at (nodes a) p) (\<lambda>n.
     if length (children n) \<le> pos
     then Err (PositionOutOfRange (user_id n) pos (length (children n)))
     else run_loop (branch_body a (\<lambda>m acc. acc @ [m])) ([children n ! pos], []))"

definition count_branch :: "arena \<Rightarrow> node_index \<Rightarrow> nat \<Rightarrow> (tree_error, nat) result" where
  "count_branch a p pos = bnd (index_at (nodes a) p) (\<lambda>n.
     if length (children n) \<le> pos
     then Err (PositionOutOfRange (user_id n) pos (length (children n)))
     else run_loop (branch_body a (\<lambda>_ count. count + 1)) ([children n ! pos], 0))"

definition count_subtree :: "arena \<Rightarrow> node_index \<Rightarrow> ('e, nat) result" where
  "count_subtree a start = count_downline a start 0"

definition collect_body ::
  "arena \<Rightarrow> node_index list \<times> node list \<Rightarrow> ('e, (node_index list \<times> node list) + node list) result" where
  "collect_body a st = (case st of (queue, acc) \<Rightarrow> (case queue of
      [] \<Rightarrow> Ok (Inr acc)
    | i # rest \<Rightarrow> bnd (arena_node a i) (\<lambda>n. Ok (Inl (rest @ children n, acc @ [n])))))"

definition collect_subtree :: "arena \<Rightarrow> node_index \<Rightarrow> ('e, node list) result" where
  "collect_subtree a r = run_loop (collect_body a) ([r], [])"

definition descendant_body :: "arena \<Rightarrow> node_index \<Rightarrow> node_index \<Rightarrow> ('e, node_index + bool) result" where
  "descendant_body a ancestor current = bnd (index_at (nodes a) current) (\<lambda>n. case parent n of
      None \<Rightarrow> Ok (Inr False)
    | Some p \<Rightarrow> if p = ancestor then Ok (Inr True) else Ok (Inl p))"

definition is_descendant_of :: "arena \<Rightarrow> node_index \<Rightarrow> node_index \<Rightarrow> ('e, bool) result" where
  "is_descendant_of a user ancestor = (if user = ancestor then Ok False
     else run_loop (descendant_body a ancestor) user)"

definition child_counts :: "arena \<Rightarrow> node_index list \<Rightarrow> ('e, (nat, nat) hmap) result" where
  "child_counts a cs = fold_res (\<lambda>(pos, c) m. bnd (count_subtree a c) (\<lambda>k. Ok (hm_insert pos k m)))
     (enumerate 0 cs) []"

definition get_position :: "arena \<Rightarrow> node_index \<Rightarrow> ('e, tree_position) result" where
  "get_position a i = bnd (index_at (nodes a) i) (\<lambda>n.
     bnd (case parent n of None \<Rightarrow> Ok None
          | Some p \<Rightarrow> bnd (index_at (nodes a) p) (\<lambda>m. Ok (Some (user_id m)))) (\<lambda>parent_user.
     bnd (case sponsor n of None \<Rightarrow> Ok None
          | Some s \<Rightarrow> bnd (index_at (nodes a) s) (\<lambda>m. Ok (Some (user_id m)))) (\<lambda>sponsor_user.
     bnd (case parent n of None \<Rightarrow> Ok 0
          | Some p \<Rightarrow> bnd (index_at (nodes a) p) (\<lambda>m. expect (position (\<lambda>c. c = i) (children m)))) (\<lambda>pos.
     bnd (child_counts a (children n)) (\<lambda>counts.
     Ok \<lparr>tp_user_id = user_id n, tp_parent_user_id = parent_user, tp_sponsor_user_id = sponsor_user,
        tp_position = pos, tp_depth = depth n, tp_child_count = length (children n),
        tp_downline_counts = counts, tp_enrolled_at = enrolled_at n\<rparr>)))))"

section \<open>Sponsor traversals\<close>

definition get_sponsor :: "arena \<Rightarrow> node_index \<Rightarrow> ('e, node option) result" where
  "get_sponsor a i = bnd (index_at (nodes a) i) (\<lambda>n. case sponsor n of
      None \<Rightarrow> Ok None | Some s \<Rightarrow> bnd (index_at (nodes a) s) (\<lambda>m. Ok (Some m)))"

definition walk_sponsor_upline :: "arena \<Rightarrow> node_index \<Rightarrow> u32 \<Rightarrow> ('e, node list) result" where
  "walk_sponsor_upline a start d = bnd (index_at (nodes a) start) (\<lambda>n.
     run_loop (upline_body a sponsor d) (sponsor n, 0, []))"

definition get_sponsored :: "arena \<Rightarrow> node_index \<Rightarrow> ('e, node list) result" where
  "get_sponsored a i = bnd (index_at (nodes a) i) (\<lambda>n. map_res (index_at (nodes a)) (sponsored n))"

section \<open>The queries every tree delegates to its arena\<close>

text \<open>The macro \<open>impl_arena_delegations\<close>; \<open>TreeNavigator\<close> exposes the same methods.\<close>

definition nav_contains :: "arena \<Rightarrow> uuid \<Rightarrow> bool" where
  "nav_contains a user = hm_contains (index a) user"

definition nav_user_ids :: "arena \<Rightarrow> uuid list" where
  "nav_user_ids a = hm_keys (index a)"

definition nav_get_parent :: "arena \<Rightarrow> uuid \<Rightarrow> (tree_error, node option) result" where
  "nav_get_parent a user = bnd (resolve a user) (\<lambda>i. bnd (arena_node a i) (\<lambda>n. case parent n of
      Some p \<Rightarrow> bnd (arena_node a p) (\<lambda>m. Ok (Some m)) | None \<Rightarrow> Ok None))"

definition nav_get_children :: "arena \<Rightarrow> uuid \<Rightarrow> (tree_error, node list) result" where
  "nav_get_children a user = bnd (resolve a user) (\<lambda>i. bnd (arena_node a i) (\<lambda>n.
     map_res (arena_node a) (children n)))"

definition nav_get_upline :: "arena \<Rightarrow> uuid \<Rightarrow> u32 \<Rightarrow> (tree_error, node list) result" where
  "nav_get_upline a user d = bnd (resolve a user) (\<lambda>i. walk_upline a i d)"

definition nav_get_downline :: "arena \<Rightarrow> uuid \<Rightarrow> u32 \<Rightarrow> (tree_error, node list) result" where
  "nav_get_downline a user d = bnd (resolve a user) (\<lambda>i. bfs_downline a i d)"

definition nav_count_downline :: "arena \<Rightarrow> uuid \<Rightarrow> u32 \<Rightarrow> (tree_error, nat) result" where
  "nav_count_downline a user d = bnd (resolve a user) (\<lambda>i. count_downline a i d)"

definition nav_is_descendant_of :: "arena \<Rightarrow> uuid \<Rightarrow> uuid \<Rightarrow> (tree_error, bool) result" where
  "nav_is_descendant_of a user ancestor = bnd (resolve a ancestor) (\<lambda>ancestor_idx.
     if user = ancestor then Ok False
     else bnd (resolve a user) (\<lambda>user_idx. is_descendant_of a user_idx ancestor_idx))"

definition nav_get_sponsor :: "arena \<Rightarrow> uuid \<Rightarrow> (tree_error, node option) result" where
  "nav_get_sponsor a user = bnd (resolve a user) (get_sponsor a)"

definition nav_get_sponsor_upline :: "arena \<Rightarrow> uuid \<Rightarrow> u32 \<Rightarrow> (tree_error, node list) result" where
  "nav_get_sponsor_upline a user d = bnd (resolve a user) (\<lambda>i. walk_sponsor_upline a i d)"

definition nav_get_sponsored :: "arena \<Rightarrow> uuid \<Rightarrow> (tree_error, node list) result" where
  "nav_get_sponsored a user = bnd (resolve a user) (get_sponsored a)"

end
