(* ===== verification/Arena_Wf.thy ===== *)
theory Arena_Wf
  imports Arena
begin

text \<open>
  The arena's invariant and what the traversals compute under it. The invariant says that the
  index and the live slots name each other, that placement and sponsorship are each a link
  forest with their downward lists in agreement with their upward links, that depth counts the
  links to the root, that the free list names distinct tombstones, and that a non-empty arena
  has exactly one parentless node, its root.
\<close>

section \<open>Reading slots\<close>

text \<open>\<open>nd a i\<close> is the node in slot \<open>i\<close>, and the cleared node past the end.\<close>

definition nd :: "arena \<Rightarrow> node_index \<Rightarrow> node" where
  "nd a i = (if i < length (nodes a) then nodes a ! i else cleared_node)"

definition live :: "arena \<Rightarrow> node_index \<Rightarrow> bool" where
  "live a i \<longleftrightarrow> user_id (nd a i) \<noteq> nil_uuid"

definition live_set :: "arena \<Rightarrow> node_index set" where
  "live_set a = {i. live a i}"

abbreviation par :: "arena \<Rightarrow> node_index \<Rightarrow> node_index option" where
  "par a i \<equiv> parent (nd a i)"

abbreviation kds :: "arena \<Rightarrow> node_index \<Rightarrow> node_index list" where
  "kds a i \<equiv> children (nd a i)"

abbreviation spn :: "arena \<Rightarrow> node_index \<Rightarrow> node_index option" where
  "spn a i \<equiv> sponsor (nd a i)"

abbreviation spd :: "arena \<Rightarrow> node_index \<Rightarrow> node_index list" where
  "spd a i \<equiv> sponsored (nd a i)"

abbreviation dep :: "arena \<Rightarrow> node_index \<Rightarrow> nat" where
  "dep a i \<equiv> unat (depth (nd a i))"

lemma cleared_fields [simp]:
  "user_id cleared_node = nil_uuid" "parent cleared_node = None" "children cleared_node = []"
  "sponsor cleared_node = None" "sponsored cleared_node = []" "depth cleared_node = 0"
  by (simp_all add: cleared_node_def)

lemma nd_beyond [simp]: "length (nodes a) \<le> i \<Longrightarrow> nd a i = cleared_node"
  by (simp add: nd_def)

lemma live_bound: "live a i \<Longrightarrow> i < length (nodes a)"
  by (rule ccontr) (simp add: live_def)

lemma live_set_iff [simp]: "i \<in> live_set a \<longleftrightarrow> live a i"
  by (simp add: live_set_def)

lemma live_set_bound: "live_set a \<subseteq> {..<length (nodes a)}"
  by (auto dest: live_bound)

lemma live_set_finite [simp]: "finite (live_set a)"
  by (rule finite_subset [OF live_set_bound]) simp

lemma card_live: "card (live_set a) \<le> length (nodes a)"
  using card_mono [OF _ live_set_bound [of a]] by simp

lemma index_at_nd: "i < length (nodes a) \<Longrightarrow> index_at (nodes a) i = Ok (nd a i)"
  by (simp add: nd_def)

lemma index_at_live [simp]: "live a i \<Longrightarrow> index_at (nodes a) i = Ok (nd a i)"
  by (rule index_at_nd) (rule live_bound)

lemma arena_node_live [simp]: "live a i \<Longrightarrow> arena_node a i = Ok (nd a i)"
  by (simp add: arena_node_def) (simp add: live_def)

lemma nd_list_update [simp]:
  "nd (a\<lparr>nodes := (nodes a)[i := x]\<rparr>) j = (if j = i \<and> i < length (nodes a) then x else nd a j)"
  by (simp add: nd_def)

lemma nd_append [simp]:
  "nd (a\<lparr>nodes := nodes a @ [x]\<rparr>) j = (if j = length (nodes a) then x else nd a j)"
  by (simp add: nd_def nth_append)

lemma nd_other_fields [simp]:
  "nd (a\<lparr>index := ix\<rparr>) j = nd a j" "nd (a\<lparr>free_list := fl\<rparr>) j = nd a j"
  "nd (a\<lparr>root := r\<rparr>) j = nd a j"
  by (simp_all add: nd_def)

section \<open>The invariant\<close>

definition index_wf :: "arena \<Rightarrow> bool" where
  "index_wf a \<longleftrightarrow> hm_ok (index a) \<and>
     (\<forall>u i. hm_get (index a) u = Some i \<longleftrightarrow> u \<noteq> nil_uuid \<and> user_id (nd a i) = u)"

definition links_wf :: "(node \<Rightarrow> node_index option) \<Rightarrow> (node \<Rightarrow> node_index list) \<Rightarrow> arena \<Rightarrow> bool" where
  "links_wf up down a \<longleftrightarrow> (\<forall>i. live a i \<longrightarrow>
     distinct (down (nd a i)) \<and>
     (\<forall>j. j \<in> set (down (nd a i)) \<longleftrightarrow> live a j \<and> up (nd a j) = Some i) \<and>
     (\<forall>j. up (nd a i) = Some j \<longrightarrow> live a j))"

definition depth_wf :: "arena \<Rightarrow> bool" where
  "depth_wf a \<longleftrightarrow> (\<forall>i. live a i \<longrightarrow>
     dep a i = (case par a i of None \<Rightarrow> 0 | Some p \<Rightarrow> Suc (dep a p)))"

definition tombs_wf :: "arena \<Rightarrow> bool" where
  "tombs_wf a \<longleftrightarrow> (\<forall>i. \<not> live a i \<longrightarrow>
     par a i = None \<and> spn a i = None \<and> kds a i = [] \<and> spd a i = [])"

definition free_wf :: "arena \<Rightarrow> bool" where
  "free_wf a \<longleftrightarrow> distinct (free_list a) \<and>
     (\<forall>i \<in> set (free_list a). i < length (nodes a) \<and> \<not> live a i)"

definition root_wf :: "arena \<Rightarrow> bool" where
  "root_wf a \<longleftrightarrow> (case root a of
      None \<Rightarrow> (\<forall>i. \<not> live a i)
    | Some r \<Rightarrow> live a r \<and> par a r = None \<and> spn a r = None \<and>
        (\<forall>i. live a i \<longrightarrow> par a i = None \<longrightarrow> i = r))"

definition chains_wf :: "arena \<Rightarrow> bool" where
  "chains_wf a \<longleftrightarrow> (\<forall>i. live a i \<longrightarrow> (\<exists>n. upn (spn a) n i = None))"

definition arena_wf :: "arena \<Rightarrow> bool" where
  "arena_wf a \<longleftrightarrow> index_wf a \<and> links_wf parent children a \<and> links_wf sponsor sponsored a \<and>
     depth_wf a \<and> tombs_wf a \<and> free_wf a \<and> root_wf a \<and> chains_wf a"

lemma arena_wfD:
  assumes "arena_wf a"
  shows "index_wf a" "links_wf parent children a" "links_wf sponsor sponsored a" "depth_wf a"
    "tombs_wf a" "free_wf a" "root_wf a" "chains_wf a"
  using assms by (simp_all add: arena_wf_def)

text \<open>The rank of a sponsor chain: the links to its end.\<close>

definition spn_rank :: "arena \<Rightarrow> node_index \<Rightarrow> nat" where
  "spn_rank a i = (LEAST n. upn (spn a) n i = None)"

lemma spn_rank_falls:
  assumes "upn (spn a) n i = None" "spn a i = Some s"
  shows "spn_rank a s < spn_rank a i"
proof -
  have "upn (spn a) (spn_rank a i) i = None"
    unfolding spn_rank_def by (rule LeastI [of _ n]) (rule assms)
  then obtain m where m: "spn_rank a i = Suc m" by (cases "spn_rank a i") auto
  with \<open>upn (spn a) (spn_rank a i) i = None\<close> assms(2) have "upn (spn a) m s = None" by simp
  then have "spn_rank a s \<le> m" unfolding spn_rank_def by (rule Least_le)
  with m show ?thesis by simp
qed

text \<open>A function that falls along every sponsor link ends every chain.\<close>

lemma chains_wfI:
  assumes "\<And>i s. live a i \<Longrightarrow> spn a i = Some s \<Longrightarrow> live a s \<and> r s < (r i :: nat)"
  shows "chains_wf a"
proof -
  have "live a i \<Longrightarrow> \<exists>n. upn (spn a) n i = None" for i
  proof (induction "r i" arbitrary: i rule: less_induct)
    case less
    show ?case
    proof (cases "spn a i")
      case None
      then show ?thesis by (intro exI [of _ 1]) simp
    next
      case (Some s)
      with assms [OF less.prems Some] less.hyps obtain n where "upn (spn a) n s = None" by blast
      with Some show ?thesis by (intro exI [of _ "Suc n"]) simp
    qed
  qed
  then show ?thesis by (simp add: chains_wf_def)
qed

interpretation placement: link_forest arena_wf live_set par kds dep
proof unfold_locales
  fix a x y
  assume wf: "arena_wf a" and x: "x \<in> live_set a"
  note D = arena_wfD [OF wf]
  show "par a x = Some y \<Longrightarrow> y \<in> live_set a" "distinct (kds a x)"
    "y \<in> set (kds a x) \<Longrightarrow> y \<in> live_set a"
    "y \<in> live_set a \<Longrightarrow> (y \<in> set (kds a x)) = (par a y = Some x)"
    using D(2) x by (auto simp: links_wf_def)
  show "par a x = Some y \<Longrightarrow> dep a y < dep a x"
    using D(4) x by (auto simp: depth_wf_def)
qed simp

interpretation sponsorship: link_forest arena_wf live_set spn spd spn_rank
proof unfold_locales
  fix a x y
  assume wf: "arena_wf a" and x: "x \<in> live_set a"
  note D = arena_wfD [OF wf]
  show "spn a x = Some y \<Longrightarrow> y \<in> live_set a" "distinct (spd a x)"
    "y \<in> set (spd a x) \<Longrightarrow> y \<in> live_set a"
    "y \<in> live_set a \<Longrightarrow> (y \<in> set (spd a x)) = (spn a y = Some x)"
    using D(3) x by (auto simp: links_wf_def)
  show "spn a x = Some y \<Longrightarrow> spn_rank a y < spn_rank a x"
    using D(8) x spn_rank_falls by (auto simp: chains_wf_def)
qed simp

lemma arena_new_wf: "arena_wf arena_new"
  by (simp add: arena_wf_def arena_new_def index_wf_def links_wf_def depth_wf_def tombs_wf_def
      free_wf_def root_wf_def chains_wf_def live_def nd_def)

subsection \<open>First consequences\<close>

lemma index_live:
  assumes "arena_wf a" "hm_get (index a) u = Some i"
  shows "live a i" "user_id (nd a i) = u" "u \<noteq> nil_uuid"
  using arena_wfD(1) [OF assms(1)] assms(2) by (auto simp: index_wf_def live_def)

lemma live_indexed: "arena_wf a \<Longrightarrow> live a i \<Longrightarrow> hm_get (index a) (user_id (nd a i)) = Some i"
  using arena_wfD(1) by (auto simp: index_wf_def live_def)

lemma user_id_inj:
  assumes "arena_wf a" "live a i" "user_id (nd a i) = user_id (nd a j)"
  shows "i = j"
proof -
  from assms have "live a j" by (simp add: live_def)
  with live_indexed [OF assms(1)] assms show ?thesis by (metis option.inject)
qed

lemma resolve_live: "arena_wf a \<Longrightarrow> resolve a u = Ok i \<Longrightarrow> live a i \<and> user_id (nd a i) = u"
  by (auto simp: resolve_def index_live)

lemma kds_live: "arena_wf a \<Longrightarrow> live a i \<Longrightarrow> j \<in> set (kds a i) \<Longrightarrow> live a j"
  using placement.down_live by fastforce

lemma par_live: "arena_wf a \<Longrightarrow> live a i \<Longrightarrow> par a i = Some p \<Longrightarrow> live a p"
  using placement.up_live by fastforce

lemma spn_live: "arena_wf a \<Longrightarrow> live a i \<Longrightarrow> spn a i = Some p \<Longrightarrow> live a p"
  using sponsorship.up_live by fastforce

lemma spd_live: "arena_wf a \<Longrightarrow> live a i \<Longrightarrow> j \<in> set (spd a i) \<Longrightarrow> live a j"
  using sponsorship.down_live by fastforce

text \<open>Depth is the distance to the root, and every live node hangs below the root.\<close>

lemma upn_dep:
  assumes "arena_wf a" "live a i" "upn (par a) k i = Some j"
  shows "dep a i = dep a j + k"
  using assms(2,3)
proof (induction k arbitrary: i)
  case (Suc k)
  then obtain p where p: "par a i = Some p" "upn (par a) k p = Some j" by (auto split: option.splits)
  with Suc.IH [OF par_live [OF assms(1) Suc.prems(1) p(1)]] arena_wfD(4) [OF assms(1)] Suc.prems(1)
  show ?case by (simp add: depth_wf_def)
qed simp

lemma upn_dep_root:
  assumes "arena_wf a" "live a i" "root a = Some r"
  shows "upn (par a) (dep a i) i = Some r"
  using assms(2)
proof (induction "dep a i" arbitrary: i)
  case 0
  then have "par a i = None"
    using arena_wfD(4) [OF assms(1)] by (auto simp: depth_wf_def split: option.splits)
  with 0 arena_wfD(7) [OF assms(1)] assms(3) show ?case by (auto simp: root_wf_def)
next
  case (Suc d)
  then obtain p where p: "par a i = Some p" "dep a p = d"
    using arena_wfD(4) [OF assms(1)] by (auto simp: depth_wf_def split: option.splits)
  with Suc.hyps(1) [of p] par_live [OF assms(1) Suc.prems p(1)] Suc.hyps(2) show ?case
    by (metis option.simps(5) upn.simps(2))
qed

lemma live_root_exists: "arena_wf a \<Longrightarrow> live a i \<Longrightarrow> \<exists>r. root a = Some r"
  using arena_wfD(7) [of a] by (cases "root a") (auto simp: root_wf_def)

section \<open>Upward walks\<close>

lemma upline_loop:
  fixes a link
  defines "up \<equiv> \<lambda>i. link (nd a i)"
  assumes ends: "upn up (Suc n) x = None"
    and range: "\<And>y. y \<in> set (chain up n x) \<Longrightarrow> y < length (nodes a)"
    and steps: "unat st + n < 2 ^ 32" and d: "d = 0 \<or> st \<le> d"
  shows "run_loop (upline_body a link d) (up x, st, acc) =
     (Ok (acc @ map (nd a) (if d = 0 then chain up n x
        else chain up (min n (unat d - unat st)) x)) :: ('e, node list) result)"
  using ends range steps d
proof (induction n arbitrary: x st acc)
  case 0
  then have "up x = None" by (auto split: option.splits)
  then show ?case by (intro run_loop_done [THEN trans]) (auto simp: upline_body_def)
next
  case (Suc n)
  show ?case
  proof (cases "up x")
    case None
    then show ?thesis
      by (intro run_loop_done [THEN trans])
         (auto simp: upline_body_def chain_end)
  next
    case (Some y)
    show ?thesis
    proof (cases "d \<noteq> 0 \<and> d \<le> st")
      case True
      with Suc.prems(4) have "d = st" by auto
      with True show ?thesis
        by (intro run_loop_done [THEN trans]) (auto simp: upline_body_def Some word_gt_0)
    next
      case False
      then have lt: "d = 0 \<or> st < d" by (auto simp: not_le)
      have y: "y < length (nodes a)" using Suc.prems(2) Some by simp
      have add: "u32_add st 1 = Ok (st + 1)"
        using Suc.prems(3) by (intro u32_add_no_panic) simp
      have st1: "unat (st + 1) = Suc (unat st)"
        using Suc.prems(3) by (subst unat_u32_add) auto
      have "run_loop (upline_body a link d) (up x, st, acc) =
          (run_loop (upline_body a link d) (up y, st + 1, acc @ [nd a y]) :: ('e, node list) result)"
        using lt by (intro run_loop_next)
          (auto simp: upline_body_def Some [unfolded up_def] index_at_nd [OF y] add up_def word_gt_0)
      also have "\<dots> = Ok ((acc @ [nd a y]) @ map (nd a)
          (if d = 0 then chain up n y else chain up (min n (unat d - unat (st + 1))) y))"
      proof (rule Suc.IH)
        show "upn up (Suc n) y = None" using Suc.prems(1) Some by simp
        show "\<And>z. z \<in> set (chain up n y) \<Longrightarrow> z < length (nodes a)" using Suc.prems(2) Some by simp
        show "unat (st + 1) + n < 2 ^ 32" using Suc.prems(3) st1 by simp
        show "d = 0 \<or> st + 1 \<le> d" using lt st1 by (auto simp: word_le_nat_alt word_less_nat_alt)
      qed
      also have "\<dots> = Ok (acc @ map (nd a) (if d = 0 then chain up (Suc n) x
          else chain up (min (Suc n) (unat d - unat st)) x))"
      proof (cases "d = 0")
        case False
        with lt have "unat st < unat d" by (simp add: word_less_nat_alt)
        then have "min (Suc n) (unat d - unat st) = Suc (min n (unat d - unat (st + 1)))"
          using st1 by auto
        with False Some show ?thesis by simp
      qed (simp add: Some)
      finally show ?thesis .
    qed
  qed
qed

lemma walk_upline_eq:
  assumes "arena_wf a" "live a i"
  shows "walk_upline a i d = Ok (map (nd a) (chain (par a) (if d = 0 then dep a i else unat d) i))"
proof -
  obtain r where r: "root a = Some r" using live_root_exists [OF assms] by blast
  have ends: "upn (par a) (Suc (dep a i)) i = None"
    using upn_dep_root [OF assms r] arena_wfD(7) [OF assms(1)] r
    by (simp add: upn_Suc_last root_wf_def del: upn.simps)
  have "run_loop (upline_body a parent d) (par a i, 0, []) =
      Ok ([] @ map (nd a) (if d = 0 then chain (par a) (dep a i) i
        else chain (par a) (min (dep a i) (unat d - unat (0::u32))) i))"
  proof (rule upline_loop)
    show "y < length (nodes a)" if "y \<in> set (chain (par a) (dep a i) i)" for y
      using that placement.chain_in_live [OF assms(1), of i] assms(2) live_bound by fastforce
    show "unat (0::u32) + dep a i < 2 ^ 32" using unsigned_less [of "depth (nd a i)"] by simp
  qed (use ends in auto)
  then show ?thesis
    using assms(2) by (auto simp: walk_upline_def chain_min [OF ends])
qed

lemma walk_sponsor_upline_eq:
  assumes "arena_wf a" "live a i" "length (nodes a) \<le> 2 ^ 32"
  shows "walk_sponsor_upline a i d =
     Ok (map (nd a) (chain (spn a) (if d = 0 then card (live_set a) else unat d) i))"
proof -
  let ?n = "card (live_set a) - 1"
  have pos: "0 < card (live_set a)" using assms(2) by (auto simp: card_gt_0_iff)
  have ends: "upn (spn a) (Suc ?n) i = None"
    using sponsorship.upn_bound [OF assms(1), of i "Suc ?n"] assms(2) pos
    by (cases "upn (spn a) (Suc ?n) i") (auto simp del: upn.simps)
  have "run_loop (upline_body a sponsor d) (spn a i, 0, []) =
      Ok ([] @ map (nd a) (if d = 0 then chain (spn a) ?n i
        else chain (spn a) (min ?n (unat d - unat (0::u32))) i))"
  proof (rule upline_loop)
    show "y < length (nodes a)" if "y \<in> set (chain (spn a) ?n i)" for y
      using that sponsorship.chain_in_live [OF assms(1), of i] assms(2) live_bound by fastforce
    show "unat (0::u32) + ?n < 2 ^ 32" using assms(3) card_live [of a] pos by simp
  qed (use ends in auto)
  moreover have "chain (spn a) (card (live_set a)) i = chain (spn a) ?n i"
    using chain_min [OF ends, of "card (live_set a)"] pos by (simp add: min_def)
  ultimately show ?thesis
    using assms(2) by (auto simp: walk_sponsor_upline_def chain_min [OF ends, unfolded One_nat_def])
qed

lemma is_descendant_of_eq:
  assumes "arena_wf a" "live a i"
  shows "is_descendant_of a i j = Ok (j \<in> set (chain (par a) (dep a i) i))"
proof -
  have loop: "run_loop (descendant_body a j) x =
      (Ok (j \<in> set (chain (par a) (dep a x) x)) :: ('e, bool) result)"
    if "live a x" for x
    using that
  proof (induction "dep a x" arbitrary: x)
    case 0
    then have "par a x = None"
      using arena_wfD(4) [OF assms(1)] by (auto simp: depth_wf_def split: option.splits)
    with 0 show ?case by (intro run_loop_done [THEN trans]) (auto simp: descendant_body_def chain_end)
  next
    case (Suc d)
    then obtain p where p: "par a x = Some p" "dep a p = d"
      using arena_wfD(4) [OF assms(1)] by (auto simp: depth_wf_def split: option.splits)
    have ch: "chain (par a) (dep a x) x = p # chain (par a) (dep a p) p"
      using Suc.hyps(2) p by (simp flip: Suc.hyps(2))
    show ?case
    proof (cases "p = j")
      case True
      then show ?thesis
        using Suc.prems p ch by (intro run_loop_done [THEN trans]) (auto simp: descendant_body_def)
    next
      case False
      have "run_loop (descendant_body a j) x = (run_loop (descendant_body a j) p :: ('e, bool) result)"
        using Suc.prems p False by (intro run_loop_next) (simp add: descendant_body_def)
      also have "\<dots> = Ok (j \<in> set (chain (par a) (dep a p) p))"
        using Suc.hyps(1) [of p] p par_live [OF assms(1) Suc.prems p(1)] by simp
      finally show ?thesis using ch False by auto
    qed
  qed
  show ?thesis
    using loop [OF assms(2)] placement.chain_distinct [OF assms(1), of i "dep a i"] assms(2)
    by (auto simp: is_descendant_of_def)
qed

section \<open>Downward walks\<close>

text \<open>The nodes below \<open>i\<close> within \<open>d\<close> levels, all of them for \<open>d = 0\<close>, breadth first.\<close>

definition downline :: "arena \<Rightarrow> node_index \<Rightarrow> u32 \<Rightarrow> node_index list" where
  "downline a i d = level_order (kds a) (if d = 0 then length (nodes a) else unat d) i"

lemma level_dep:
  assumes "arena_wf a" "live a i" "j \<in> set (level (kds a) k i)"
  shows "live a j" "dep a j = dep a i + k"
  using assms placement.set_level [OF assms(1), of i k] upn_dep [OF assms(1)] by auto

definition limited :: "arena \<Rightarrow> node_index \<Rightarrow> u32 \<Rightarrow> node_index \<Rightarrow> node_index list" where
  "limited a i d j = (if d = 0 \<or> dep a j - dep a i < unat d then kds a j else [])"

lemma kids_cong: "(\<And>x. x \<in> set q \<Longrightarrow> f x = g x) \<Longrightarrow> kids f q = kids g q"
  by (simp add: kids_def cong: map_cong)

lemma level_limited:
  assumes "arena_wf a" "live a i" "d \<noteq> 0"
  shows "level (limited a i d) k i = (if k \<le> unat d then level (kds a) k i else [])"
proof (induction k)
  case (Suc k)
  show ?case
  proof (cases "k < unat d")
    case True
    then have "kids (limited a i d) (level (kds a) k i) = kids (kds a) (level (kds a) k i)"
      by (intro kids_cong) (simp add: limited_def level_dep [OF assms(1,2)])
    with True Suc show ?thesis by (simp add: level_Suc)
  next
    case False
    have "kids (limited a i d) (level (kds a) k i) = kids (\<lambda>_. []) (level (kds a) k i)"
      using False assms(3)
      by (intro kids_cong) (simp add: limited_def level_dep [OF assms(1,2)])
    then have "kids (limited a i d) (level (kds a) k i) = []" by (simp add: kids_def)
    with False Suc show ?thesis by (cases "k = unat d") (simp_all add: level_Suc)
  qed
qed simp

lemma level_order_limited:
  assumes "arena_wf a" "live a i" "d \<noteq> 0" "n \<le> unat d"
  shows "level_order (limited a i d) n i = level_order (kds a) n i"
  unfolding level_order_def using assms
  by (intro arg_cong [where f = concat] map_cong) (auto simp: level_limited simp del: upt.simps)

lemma fifo_limited:
  assumes "arena_wf a" "live a i"
  shows "fifo (limited a i d) (kds a i) (downline a i d)"
proof (cases "d = 0")
  case True
  then have "limited a i d = kds a" by (simp add: limited_def fun_eq_iff)
  with True placement.fifo_down [OF assms(1), of i "length (nodes a)"] assms(2) card_live [of a]
  show ?thesis by (simp add: downline_def)
next
  case False
  then have start: "limited a i d i = kds a i" by (simp add: limited_def unat_gt_0)
  have "level (limited a i d) (Suc (unat d)) i = []"
    using level_limited [OF assms False] by simp
  from fifo_level_order [OF this] show ?thesis
    using False by (simp add: start level_order_limited [OF assms] downline_def)
qed

lemma downline_live:
  assumes "arena_wf a" "live a i" "j \<in> set (downline a i d)"
  shows "live a j" "dep a i < dep a j"
proof -
  from assms obtain k where "1 \<le> k" "j \<in> set (level (kds a) k i)"
    by (auto simp: downline_def set_level_order)
  with level_dep [OF assms(1,2)] show "live a j" "dep a i < dep a j" by fastforce+
qed

lemma downline_loop:
  assumes "arena_wf a" "live a i"
  shows "run_loop (downline_body a visit (depth (nd a i)) d) (kds a i, acc) =
     Ok (fold (\<lambda>j. visit (nd a j)) (downline a i d) acc)"
proof -
  have "run_loop (downline_body a visit (depth (nd a i)) d) (kds a i, acc) =
     Ok (id (fold (\<lambda>j. visit (nd a j)) (downline a i d) acc))"
  proof (rule fifo_loop [OF fifo_limited [OF assms]])
    fix j q acc assume "j \<in> set (downline a i d)"
    note j = downline_live [OF assms this]
    have sub: "u32_sub (depth (nd a j)) (depth (nd a i)) = Ok (depth (nd a j) - depth (nd a i)) \<and>
        unat (depth (nd a j) - depth (nd a i)) = dep a j - dep a i"
      using j(2) by (intro u32_sub_Ok) simp
    note sub = conjunct1 [OF sub] conjunct2 [OF sub]
    then have "downline_body a visit (depth (nd a i)) d (j # q, acc) = Ok (Inl
       (if d = 0 \<or> depth (nd a j) - depth (nd a i) < d then q @ kds a j else q, visit (nd a j) acc))"
      using j(1) by (simp add: downline_body_def sub(1))
    with sub(2) show "downline_body a visit (depth (nd a i)) d (j # q, acc) =
        Ok (Inl (q @ limited a i d j, visit (nd a j) acc))"
      by (auto simp: limited_def word_less_nat_alt)
  qed (simp add: downline_body_def)
  then show ?thesis by simp
qed

lemma fold_append_map: "fold (\<lambda>j acc. acc @ [f j]) xs acc = acc @ map f xs"
  by (induction xs arbitrary: acc) auto

lemma fold_count: "fold (\<lambda>_ n. n + 1) xs (n :: nat) = n + length xs"
  by (induction xs arbitrary: n) auto

lemma bfs_downline_eq:
  "arena_wf a \<Longrightarrow> live a i \<Longrightarrow> bfs_downline a i d = Ok (map (nd a) (downline a i d))"
  by (simp add: bfs_downline_def downline_loop fold_append_map)

lemma count_downline_eq:
  "arena_wf a \<Longrightarrow> live a i \<Longrightarrow> count_downline a i d = Ok (length (downline a i d))"
  using fold_count [of "downline a i d" 0] by (simp add: count_downline_def downline_loop)

lemma count_subtree_eq:
  "arena_wf a \<Longrightarrow> live a i \<Longrightarrow> count_subtree a i = Ok (length (downline a i 0))"
  by (simp add: count_subtree_def count_downline_eq)

lemma fifo_subtree:
  assumes "arena_wf a" "live a i"
  shows "fifo (kds a) [i] (i # downline a i 0)"
  using fifo_level_order_self [of "kds a" "length (nodes a)" i] card_live [of a]
    placement.level_vanishes [OF assms(1), of i "Suc (length (nodes a))"] assms(2)
  by (simp add: downline_def)

lemma subtree_live:
  "arena_wf a \<Longrightarrow> live a i \<Longrightarrow> j \<in> set (i # downline a i d) \<Longrightarrow> live a j"
  using downline_live by auto

lemma branch_loop:
  assumes "arena_wf a" "live a i"
  shows "run_loop (branch_body a visit) ([i], acc) =
     Ok (fold (\<lambda>j. visit (nd a j)) (i # downline a i 0) acc)"
proof -
  have "run_loop (branch_body a visit) ([i], acc) =
     Ok (id (fold (\<lambda>j. visit (nd a j)) (i # downline a i 0) acc))"
    by (rule fifo_loop [OF fifo_subtree [OF assms]])
       (simp_all add: branch_body_def subtree_live [OF assms] del: fold_simps set_simps)
  then show ?thesis by simp
qed

lemma collect_subtree_eq:
  assumes "arena_wf a" "live a i"
  shows "collect_subtree a i = Ok (map (nd a) (i # downline a i 0))"
proof -
  have "run_loop (collect_body a) ([i], []) =
     Ok (id (fold (\<lambda>j acc. acc @ [nd a j]) (i # downline a i 0) []))"
    by (rule fifo_loop [OF fifo_subtree [OF assms]])
       (simp_all add: collect_body_def subtree_live [OF assms] del: fold_simps set_simps)
  then show ?thesis by (simp add: collect_subtree_def fold_append_map del: fold_simps)
qed

lemma get_branch_eq:
  assumes "arena_wf a" "live a i"
  shows "get_branch a i pos = (if pos < length (kds a i)
     then Ok (map (nd a) (kds a i ! pos # downline a (kds a i ! pos) 0))
     else Err (PositionOutOfRange (user_id (nd a i)) pos (length (kds a i))))"
  using assms kds_live [OF assms nth_mem]
  by (auto simp: get_branch_def branch_loop fold_append_map simp del: fold_simps)

lemma count_branch_eq:
  assumes "arena_wf a" "live a i"
  shows "count_branch a i pos = (if pos < length (kds a i)
     then Ok (Suc (length (downline a (kds a i ! pos) 0)))
     else Err (PositionOutOfRange (user_id (nd a i)) pos (length (kds a i))))"
  using assms kds_live [OF assms nth_mem] fold_count [of "x # xs" 0 for x xs]
  by (auto simp: count_branch_def branch_loop fold_count simp del: fold_simps)

end
