(* ===== verification/Arena_Ops.thy ===== *)
theory Arena_Ops
  imports Arena_Wf
begin

text \<open>
  What the mutations of the arena do to its slots, and that the invariant survives them. A new
  node is described by \<open>attached\<close>, which the three trees establish for their insertions, and
  \<open>attached_wf\<close> gives the invariant once for all of them.
\<close>

section \<open>Writing slots\<close>

definition upd_node :: "node_index \<Rightarrow> (node \<Rightarrow> node) \<Rightarrow> arena \<Rightarrow> arena" where
  "upd_node i f a = a\<lparr>nodes := (nodes a)[i := f (nd a i)]\<rparr>"

lemma upd_node_fields [simp]:
  "length (nodes (upd_node i f a)) = length (nodes a)" "index (upd_node i f a) = index a"
  "free_list (upd_node i f a) = free_list a" "root (upd_node i f a) = root a"
  by (simp_all add: upd_node_def)

lemma nd_upd_node [simp]:
  "i < length (nodes a) \<Longrightarrow> nd (upd_node i f a) j = (if j = i then f (nd a i) else nd a j)"
  by (simp add: upd_node_def)

lemma nodes_mut_upd: "i < length (nodes a) \<Longrightarrow> nodes_mut i f a = (Ok (), upd_node i f a)"
  by (simp add: nodes_mut_def upd_node_def nd_def)

lemma arena_node_mut_upd: "live a i \<Longrightarrow> arena_node_mut i f a = (Ok (), upd_node i f a)"
  by (simp add: arena_node_mut_def upd_node_def outcome_simps)

lemma live_upd_node [simp]:
  "i < length (nodes a) \<Longrightarrow> user_id (f (nd a i)) = user_id (nd a i) \<Longrightarrow>
     live (upd_node i f a) j = live a j"
  by (simp add: live_def)

lemma live_other_fields [simp]:
  "live (a\<lparr>index := ix\<rparr>) j = live a j" "live (a\<lparr>free_list := fl\<rparr>) j = live a j"
  "live (a\<lparr>root := r\<rparr>) j = live a j"
  by (simp_all add: live_def)

section \<open>Allocation\<close>

definition next_slot :: "arena \<Rightarrow> node_index" where
  "next_slot a = (if free_list a = [] then length (nodes a) else last (free_list a))"

definition placed :: "node \<Rightarrow> arena \<Rightarrow> arena" where
  "placed n a = (if free_list a = [] then a\<lparr>nodes := nodes a @ [n]\<rparr>
     else a\<lparr>nodes := (nodes a)[last (free_list a) := n], free_list := butlast (free_list a)\<rparr>)"

lemma next_slot_free: "free_wf a \<Longrightarrow> \<not> live a (next_slot a)"
  by (cases "free_list a = []") (auto simp: next_slot_def free_wf_def dest: live_bound)

lemma alloc_slot_eq:
  assumes "free_wf a"
  shows "alloc_slot n a = (Ok (next_slot a), placed n a)"
proof (cases "free_list a = []")
  case False
  then have "last (free_list a) < length (nodes a)" using assms by (auto simp: free_wf_def)
  with False show ?thesis by (simp add: alloc_slot_def placed_def next_slot_def Let_def)
qed (simp add: alloc_slot_def placed_def next_slot_def)

lemma nd_placed:
  assumes "free_wf a"
  shows "nd (placed n a) j = (if j = next_slot a then n else nd a j)"
proof (cases "free_list a = []")
  case False
  then have "last (free_list a) < length (nodes a)" using assms by (auto simp: free_wf_def)
  with False show ?thesis by (auto simp: placed_def next_slot_def nd_def)
qed (simp add: placed_def next_slot_def)

lemma placed_fields [simp]:
  "index (placed n a) = index a" "root (placed n a) = root a"
  "free_list (placed n a) = butlast (free_list a)" "length (nodes a) \<le> length (nodes (placed n a))"
  by (simp_all add: placed_def)

lemma next_slot_bound: "free_wf a \<Longrightarrow> next_slot a < length (nodes (placed n a))"
  by (auto simp: next_slot_def placed_def free_wf_def)

lemma placed_length: "length (nodes (placed n a)) \<le> Suc (length (nodes a))"
  by (simp add: placed_def)

lemma free_butlast:
  assumes "free_wf a"
  shows "distinct (butlast (free_list a))" "set (butlast (free_list a)) \<subseteq> set (free_list a) - {next_slot a}"
proof -
  have d: "distinct (free_list a)" using assms by (simp add: free_wf_def)
  then show "distinct (butlast (free_list a))" by (rule distinct_butlast)
  show "set (butlast (free_list a)) \<subseteq> set (free_list a) - {next_slot a}"
  proof (cases "free_list a = []")
    case False
    then obtain xs x where xs: "free_list a = xs @ [x]" by (meson rev_exhaust)
    with d show ?thesis by (auto simp: next_slot_def)
  qed simp
qed

section \<open>Attaching a node\<close>

text \<open>
  \<open>attached a a' i n cs\<close>: \<open>a'\<close> is \<open>a\<close> with the new node \<open>n\<close> in the free slot \<open>i\<close>, its
  parent's children replaced by \<open>cs\<close>, which adds \<open>i\<close> to them, and \<open>i\<close> pushed on its sponsor's
  list of recruits.
\<close>

definition attached :: "arena \<Rightarrow> arena \<Rightarrow> node_index \<Rightarrow> node \<Rightarrow> node_index list \<Rightarrow> bool" where
  "attached a a' i n cs \<longleftrightarrow>
     \<not> live a i \<and> user_id n \<noteq> nil_uuid \<and> hm_get (index a) (user_id n) = None \<and>
     children n = [] \<and> sponsored n = [] \<and>
     index a' = hm_insert (user_id n) i (index a) \<and>
     (\<forall>j. nd a' j = (if j = i then n else (nd a j)
        \<lparr>children := if parent n = Some j then cs else kds a j,
         sponsored := if sponsor n = Some j then spd a j @ [i] else spd a j\<rparr>)) \<and>
     distinct (free_list a') \<and> set (free_list a') \<subseteq> set (free_list a) - {i} \<and>
     length (nodes a) \<le> length (nodes a') \<and> length (nodes a') \<le> Suc (length (nodes a)) \<and>
     (case parent n of
         None \<Rightarrow> depth n = 0 \<and> sponsor n = None \<and> root a = None \<and> root a' = Some i
       | Some p \<Rightarrow> live a p \<and> unat (depth n) = Suc (dep a p) \<and> distinct cs \<and>
           set cs = insert i (set (kds a p)) \<and> root a' = root a) \<and>
     (\<forall>s. sponsor n = Some s \<longrightarrow> live a s)"

lemma attachedD:
  assumes "attached a a' i n cs"
  shows "\<not> live a i" "user_id n \<noteq> nil_uuid" "hm_get (index a) (user_id n) = None"
    "children n = []" "sponsored n = []" "index a' = hm_insert (user_id n) i (index a)"
    "nd a' i = n"
    "\<And>j. j \<noteq> i \<Longrightarrow> nd a' j = (nd a j)
        \<lparr>children := if parent n = Some j then cs else kds a j,
         sponsored := if sponsor n = Some j then spd a j @ [i] else spd a j\<rparr>"
    "distinct (free_list a')" "set (free_list a') \<subseteq> set (free_list a) - {i}"
    "length (nodes a) \<le> length (nodes a')"
    "\<And>p. parent n = Some p \<Longrightarrow> live a p \<and> unat (depth n) = Suc (dep a p) \<and> distinct cs \<and>
       set cs = insert i (set (kds a p)) \<and> root a' = root a"
    "parent n = None \<Longrightarrow> depth n = 0 \<and> sponsor n = None \<and> root a = None \<and> root a' = Some i"
    "\<And>s. sponsor n = Some s \<Longrightarrow> live a s" "length (nodes a') \<le> Suc (length (nodes a))"
  using assms by (simp_all add: attached_def)

lemma attached_live: "attached a a' i n cs \<Longrightarrow> live a' j \<longleftrightarrow> j = i \<or> live a j"
  using attachedD(2,7,8) [of a a' i n cs] by (cases "j = i") (auto simp: live_def)

lemma attached_links_parent:
  assumes wf: "arena_wf a" and att: "attached a a' i n cs"
  shows "links_wf parent children a'"
  unfolding links_wf_def
proof (intro allI impI)
  fix j assume j: "live a' j"
  note D = attachedD [OF att] and L = attached_live [OF att]
  have notin: "i \<notin> set (kds a k)" if "live a k" for k using kds_live [OF wf that] D(1) by blast
  have up: "k \<in> set (kds a m) \<longleftrightarrow> live a k \<and> par a k = Some m" if "live a m" for k m
    using arena_wfD(2) [OF wf] that by (auto simp: links_wf_def)
  have nobody: "par a k \<noteq> Some i" if "live a k" for k using par_live [OF wf that] D(1) by blast
  show "distinct (children (nd a' j)) \<and>
      (\<forall>k. k \<in> set (children (nd a' j)) \<longleftrightarrow> live a' k \<and> par a' k = Some j) \<and>
      (\<forall>k. par a' j = Some k \<longrightarrow> live a' k)"
  proof (cases "j = i")
    case True
    have "par a' k \<noteq> Some i" if "live a' k" for k
      using that nobody [of k] D(1,7,8,12) by (cases "k = i") (auto simp: L)
    with True D(4,7) D(12) show ?thesis by (auto simp: L)
  next
    case False
    with j have lj: "live a j" by (simp add: L)
    have dist: "distinct (kds a j)"
      using arena_wfD(2) [OF wf] lj by (simp add: links_wf_def)
    have "k \<in> set (children (nd a' j)) \<longleftrightarrow> live a' k \<and> par a' k = Some j" for k
      using False D(1,7,8,12) up [OF lj] by (cases "k = i") (auto simp: L notin [OF lj])
    with False dist D(8,12) par_live [OF wf lj] show ?thesis by (auto simp: L)
  qed
qed

lemma attached_links_sponsor:
  assumes wf: "arena_wf a" and att: "attached a a' i n cs"
  shows "links_wf sponsor sponsored a'"
  unfolding links_wf_def
proof (intro allI impI)
  fix j assume j: "live a' j"
  note D = attachedD [OF att] and L = attached_live [OF att]
  have notin: "i \<notin> set (spd a k)" if "live a k" for k using spd_live [OF wf that] D(1) by blast
  have up: "k \<in> set (spd a m) \<longleftrightarrow> live a k \<and> spn a k = Some m" if "live a m" for k m
    using arena_wfD(3) [OF wf] that by (auto simp: links_wf_def)
  have nobody: "spn a k \<noteq> Some i" if "live a k" for k using spn_live [OF wf that] D(1) by blast
  show "distinct (sponsored (nd a' j)) \<and>
      (\<forall>k. k \<in> set (sponsored (nd a' j)) \<longleftrightarrow> live a' k \<and> spn a' k = Some j) \<and>
      (\<forall>k. spn a' j = Some k \<longrightarrow> live a' k)"
  proof (cases "j = i")
    case True
    have "spn a' k \<noteq> Some i" if "live a' k" for k
      using that nobody [of k] D(1,7,8,14) by (cases "k = i") (auto simp: L)
    with True D(5,7) D(14) show ?thesis by (auto simp: L)
  next
    case False
    with j have lj: "live a j" by (simp add: L)
    have dist: "distinct (spd a j)"
      using arena_wfD(3) [OF wf] lj by (simp add: links_wf_def)
    have "k \<in> set (sponsored (nd a' j)) \<longleftrightarrow> live a' k \<and> spn a' k = Some j" for k
      using False D(1,7,8,14) up [OF lj] by (cases "k = i") (auto simp: L notin [OF lj])
    with False dist D(8,14) spn_live [OF wf lj] notin [OF lj] show ?thesis by (auto simp: L)
  qed
qed

lemma attached_depth:
  assumes wf: "arena_wf a" and att: "attached a a' i n cs"
  shows "depth_wf a'"
  unfolding depth_wf_def
proof (intro allI impI)
  fix j assume j: "live a' j"
  note D = attachedD [OF att] and L = attached_live [OF att]
  show "dep a' j = (case par a' j of None \<Rightarrow> 0 | Some p \<Rightarrow> Suc (dep a' p))"
  proof (cases "j = i")
    case True
    show ?thesis
    proof (cases "parent n")
      case (Some p)
      with D(1) D(12) [OF Some] have "p \<noteq> i" by auto
      with True Some D(7) D(8) [of p] D(12) [OF Some] show ?thesis by simp
    qed (use True D(7,13) in simp)
  next
    case False
    with j have lj: "live a j" by (simp add: L)
    have "par a j \<noteq> Some i" using par_live [OF wf lj] D(1) by blast
    with arena_wfD(4) [OF wf] lj False D(8) show ?thesis
      by (auto simp: depth_wf_def split: option.splits)
  qed
qed

lemma attached_chains:
  assumes wf: "arena_wf a" and att: "attached a a' i n cs"
  shows "chains_wf a'"
proof (rule chains_wfI [where r = "(spn_rank a)(i := case sponsor n of None \<Rightarrow> 0 | Some s \<Rightarrow> Suc (spn_rank a s))"])
  fix j s assume j: "live a' j" and s: "spn a' j = Some s"
  note D = attachedD [OF att] and L = attached_live [OF att]
  let ?r = "(spn_rank a)(i := case sponsor n of None \<Rightarrow> 0 | Some s \<Rightarrow> Suc (spn_rank a s))"
  show "live a' s \<and> ?r s < ?r j"
  proof (cases "j = i")
    case True
    with s D(7) D(14) [of s] D(1) show ?thesis by (auto simp: L)
  next
    case False
    with j have lj: "live a j" by (simp add: L)
    have sj: "spn a j = Some s" using s False D(8) by simp
    have "live a s" by (rule spn_live [OF wf lj sj])
    moreover have "spn_rank a s < spn_rank a j" using sponsorship.up_rank [OF wf] lj sj by simp
    ultimately show ?thesis using D(1) False by (auto simp: L)
  qed
qed

lemma attached_index:
  assumes wf: "arena_wf a" and att: "attached a a' i n cs"
  shows "index_wf a'"
proof -
  note D = attachedD [OF att]
  have ix: "hm_get (index a) u = Some k \<longleftrightarrow> u \<noteq> nil_uuid \<and> user_id (nd a k) = u" for u k
    using arena_wfD(1) [OF wf] by (simp add: index_wf_def)
  have "hm_get (index a') u = Some k \<longleftrightarrow> u \<noteq> nil_uuid \<and> user_id (nd a' k) = u" for u k
  proof (cases "k = i")
    case True
    with D(1) ix [of u i] D(2,6,7) show ?thesis by (auto simp: live_def)
  next
    case False
    with ix [of u k] D(2,3,6) D(8) [OF False] show ?thesis by auto
  qed
  then show ?thesis
    using arena_wfD(1) [OF wf] D(6) by (simp add: index_wf_def)
qed

lemma attached_root:
  assumes wf: "arena_wf a" and att: "attached a a' i n cs"
  shows "root_wf a'"
proof (cases "parent n")
  case None
  with attachedD(7,13) [OF att] arena_wfD(7) [OF wf] show ?thesis
    by (auto simp: root_wf_def attached_live [OF att])
next
  case (Some p)
  note D = attachedD [OF att] and L = attached_live [OF att]
  note p = D(12) [OF Some]
  then obtain r where r: "root a = Some r" using live_root_exists [OF wf] by blast
  then have lr: "live a r" "par a r = None" "spn a r = None"
    "\<And>k. live a k \<Longrightarrow> par a k = None \<Longrightarrow> k = r"
    using arena_wfD(7) [OF wf] by (auto simp: root_wf_def)
  have "r \<noteq> i" using D(1) lr(1) by auto
  moreover have "k = r" if "live a' k" "par a' k = None" for k
    using that lr(4) [of k] Some D(7) D(8) [of k] by (cases "k = i") (auto simp: L)
  ultimately show ?thesis using lr(1,2,3) p r D(8) [of r] by (simp add: root_wf_def L)
qed

lemma attached_tombs:
  assumes wf: "arena_wf a" and att: "attached a a' i n cs"
  shows "tombs_wf a'"
  unfolding tombs_wf_def
proof (intro allI impI)
  fix j assume "\<not> live a' j"
  then have j: "j \<noteq> i" "\<not> live a j" by (auto simp: attached_live [OF att])
  with attachedD(8) [OF att j(1)] attachedD(12,14) [OF att, of j] arena_wfD(5) [OF wf]
  show "par a' j = None \<and> spn a' j = None \<and> kds a' j = [] \<and> spd a' j = []"
    by (auto simp: tombs_wf_def)
qed

lemma attached_free:
  assumes wf: "arena_wf a" and att: "attached a a' i n cs"
  shows "free_wf a'"
  using arena_wfD(6) [OF wf] attachedD(9,10,11) [OF att]
  by (auto simp: free_wf_def attached_live [OF att] dest!: subsetD)

lemma attached_wf: "arena_wf a \<Longrightarrow> attached a a' i n cs \<Longrightarrow> arena_wf a'"
  by (simp add: arena_wf_def [of a'] attached_index attached_links_parent attached_links_sponsor
      attached_depth attached_tombs attached_free attached_root attached_chains)

text \<open>The two shapes in which the trees attach a node: a root, and a child with a sponsor if any.\<close>

abbreviation root_node :: "uuid \<Rightarrow> i64 \<Rightarrow> node" where
  "root_node user at \<equiv> \<lparr>user_id = user, parent = None, children = [], sponsor = None,
     sponsored = [], depth = 0, enrolled_at = at\<rparr>"

lemma root_attached:
  assumes "arena_wf a" "root a = None" "user \<noteq> nil_uuid" "hm_get (index a) user = None"
  shows "attached a ((placed (root_node user at) a)
     \<lparr>index := hm_insert user (next_slot a) (index a), root := Some (next_slot a)\<rparr>)
     (next_slot a) (root_node user at) []"
  using assms arena_wfD(6) [OF assms(1)] free_butlast [of a]
    placed_length [of "root_node user at" a]
  by (auto simp: attached_def nd_placed next_slot_free)

abbreviation child_node :: "uuid \<Rightarrow> node_index \<Rightarrow> node_index option \<Rightarrow> u32 \<Rightarrow> i64 \<Rightarrow> node" where
  "child_node user p so d at \<equiv> \<lparr>user_id = user, parent = Some p, children = [], sponsor = so,
     sponsored = [], depth = d, enrolled_at = at\<rparr>"

definition recruit :: "node_index option \<Rightarrow> node_index \<Rightarrow> arena \<Rightarrow> arena" where
  "recruit so i a = (case so of None \<Rightarrow> a
     | Some s \<Rightarrow> upd_node s (\<lambda>n. n\<lparr>sponsored := sponsored n @ [i]\<rparr>) a)"

lemma child_attached:
  fixes at :: i64
  assumes wf: "arena_wf a" and new: "user \<noteq> nil_uuid" "hm_get (index a) user = None"
    and p: "live a p" "unat d = Suc (dep a p)" and s: "\<And>s. so = Some s \<Longrightarrow> live a s"
    and f: "f (nd a p) = (nd a p)\<lparr>children := cs\<rparr>"
    and cs: "distinct cs" "set cs = insert (next_slot a) (set (kds a p))"
  defines "n \<equiv> child_node user p so d at"
  shows "attached a (recruit so (next_slot a) (upd_node p f
     ((placed n a)\<lparr>index := hm_insert user (next_slot a) (index a)\<rparr>))) (next_slot a) n cs"
proof -
  note fr = arena_wfD(6) [OF wf]
  let ?i = "next_slot a"
  let ?b = "upd_node p f ((placed n a)\<lparr>index := hm_insert user ?i (index a)\<rparr>)"
  have ne: "p \<noteq> ?i" "\<And>s. so = Some s \<Longrightarrow> s \<noteq> ?i" using next_slot_free [OF fr] p(1) s by auto
  have bound: "live a j \<Longrightarrow> j < length (nodes (placed n a))" for j
    using live_bound [of a j] by (rule less_le_trans) simp_all
  have b: "nd ?b j = (if j = ?i then n else if j = p then (nd a p)\<lparr>children := cs\<rparr> else nd a j)" for j
    using ne(1) f bound [OF p(1)] by (simp add: nd_placed [OF fr])
  have "nd (recruit so ?i ?b) j = (if j = ?i then n else (nd a j)
      \<lparr>children := if parent n = Some j then cs else kds a j,
       sponsored := if sponsor n = Some j then spd a j @ [?i] else spd a j\<rparr>)" for j
  proof (cases so)
    case None
    then show ?thesis using b [of j] by (auto simp: recruit_def n_def)
  next
    case (Some s')
    then have "s' < length (nodes ?b)" using bound s by simp
    with Some b [of j] b [of s'] ne show ?thesis by (auto simp: recruit_def n_def)
  qed
  moreover have "index (recruit so ?i ?b) = hm_insert user ?i (index a)"
    "free_list (recruit so ?i ?b) = butlast (free_list a)" "root (recruit so ?i ?b) = root a"
    "length (nodes a) \<le> length (nodes (recruit so ?i ?b))"
    "length (nodes (recruit so ?i ?b)) \<le> Suc (length (nodes a))"
    using placed_length [of n a] by (auto simp: recruit_def split: option.split)
  ultimately show ?thesis
    using new p s cs next_slot_free [OF fr] free_butlast [OF fr] by (simp add: attached_def n_def)
qed

lemma dep_bound: "arena_wf a \<Longrightarrow> live a i \<Longrightarrow> dep a i < card (live_set a)"
  using live_root_exists [of a i] upn_dep_root [of a i] placement.upn_bound [of a i "dep a i"] by auto

lemma full_upline:
  assumes "arena_wf a" "live a i" "dep a i \<le> n"
  shows "chain (par a) n i = chain (par a) (dep a i) i"
proof -
  obtain r where r: "root a = Some r" using live_root_exists [OF assms(1,2)] by blast
  have "upn (par a) (Suc (dep a i)) i = None"
    using upn_dep_root [OF assms(1,2) r] arena_wfD(7) [OF assms(1)] r
    by (simp add: upn_Suc_last root_wf_def del: upn.simps)
  from chain_min [OF this, of n] show ?thesis using assms(3) by (simp add: min_def split: if_splits)
qed

lemma child_depth:
  assumes "arena_wf a" "live a p" "length (nodes a) < 2 ^ 32"
  shows "u32_add (depth (nd a p)) 1 = Ok (depth (nd a p) + 1)"
    "unat (depth (nd a p) + 1) = Suc (dep a p)"
proof -
  have "dep a p + unat (1::u32) < 2 ^ 32"
    using dep_bound [OF assms(1,2)] card_live [of a] assms(3) by simp
  then show "u32_add (depth (nd a p)) 1 = Ok (depth (nd a p) + 1)"
    "unat (depth (nd a p) + 1) = Suc (dep a p)"
    by (simp_all add: u32_add_no_panic unat_u32_add)
qed

section \<open>Handing recruits over\<close>

definition survivors :: "arena \<Rightarrow> node_index set \<Rightarrow> node_index \<Rightarrow> node_index list" where
  "survivors a R i = filter (\<lambda>s. s \<notin> R) (spd a i)"

lemma surviving_recruits_eq:
  "i < length (nodes a) \<Longrightarrow> surviving_recruits a i R = Ok (survivors a R i)"
  by (simp add: surviving_recruits_def survivors_def nd_def)

text \<open>The walk finds the first sponsor up the chain that stays.\<close>

lemma surviving_walk_eq:
  assumes "upn (spn a) k i = None" "\<And>y. y \<in> set (chain (spn a) k i) \<Longrightarrow> y < length (nodes a)"
  shows "surviving_walk a R e k (spn a i) = Ok (find (\<lambda>x. x \<notin> R) (chain (spn a) k i))"
  using assms
proof (induction k arbitrary: i)
  case (Suc k)
  show ?case
  proof (cases "spn a i")
    case (Some c)
    with Suc.prems have "c < length (nodes a)" "upn (spn a) k c = None" by auto
    moreover have "y < length (nodes a)" if "y \<in> set (chain (spn a) k c)" for y
      using that Suc.prems(2) [of y] Some by simp
    ultimately show ?thesis using Some Suc.IH [of c] by (simp add: index_at_nd del: index_at_ok)
  qed simp
qed simp

text \<open>Moving the recruits \<open>ss\<close> under the sponsor \<open>t\<close>.\<close>

definition moved_to :: "node_index \<Rightarrow> node_index list \<Rightarrow> arena \<Rightarrow> arena" where
  "moved_to t ss a = fold (\<lambda>s a. upd_node t (\<lambda>n. n\<lparr>sponsored := sponsored n @ [s]\<rparr>)
     (upd_node s (\<lambda>n. n\<lparr>sponsor := Some t\<rparr>) a)) ss a"

lemma moved_to_Cons:
  "moved_to t (s # ss) a = moved_to t ss (upd_node t (\<lambda>n. n\<lparr>sponsored := sponsored n @ [s]\<rparr>)
     (upd_node s (\<lambda>n. n\<lparr>sponsor := Some t\<rparr>) a))"
  by (simp add: moved_to_def)

lemma moved_to_Nil [simp]: "moved_to t [] a = a"
  by (simp add: moved_to_def)

lemma moved_to_fields [simp]:
  "length (nodes (moved_to t ss a)) = length (nodes a)" "index (moved_to t ss a) = index a"
  "free_list (moved_to t ss a) = free_list a" "root (moved_to t ss a) = root a"
  by (induction ss arbitrary: a) (simp_all add: moved_to_Cons)

lemma nd_moved_to:
  assumes "t < length (nodes a)" "\<forall>s \<in> set ss. s < length (nodes a)"
  shows "nd (moved_to t ss a) j = (nd a j)
     \<lparr>sponsor := if j \<in> set ss then Some t else spn a j,
      sponsored := if j = t then spd a j @ ss else spd a j\<rparr>"
  using assms
proof (induction ss arbitrary: a)
  case (Cons s ss)
  then show ?case by (auto simp: moved_to_Cons)
qed simp

abbreviation handover :: "arena \<Rightarrow> node_index \<Rightarrow> node_index \<Rightarrow> responsored" where
  "handover a t s \<equiv> \<lparr>rs_user_id = user_id (nd a s), rs_new_sponsor_id = user_id (nd a t)\<rparr>"

lemma move_recruits_eq:
  assumes "t < length (nodes a)" "\<forall>s \<in> set ss. s < length (nodes a)"
  shows "sfold (move_recruit (Some t)) ss moved a =
     (Ok (moved @ map (handover a t) ss), moved_to t ss a)"
  using assms
proof (induction ss arbitrary: a moved)
  case (Cons s ss)
  let ?b = "upd_node t (\<lambda>n. n\<lparr>sponsored := sponsored n @ [s]\<rparr>) (upd_node s (\<lambda>n. n\<lparr>sponsor := Some t\<rparr>) a)"
  have id: "user_id (nd ?b j) = user_id (nd a j)" for j using Cons.prems by auto
  have "move_recruit (Some t) s moved a = (Ok (moved @ [handover a t s]), ?b)"
    using Cons.prems id
    by (simp add: move_recruit_def outcome_simps nodes_mut_upd index_at_nd del: index_at_ok)
  moreover have "handover ?b t = handover a t" by (simp add: fun_eq_iff id)
  ultimately show ?case
    using Cons.IH [of ?b "moved @ [handover a t s]"] Cons.prems
    by (simp add: sbind_simps moved_to_Cons)
qed (simp add: outcome_simps)

text \<open>The arena after the whole plan, for the removed nodes \<open>xs\<close> with heirs \<open>h\<close>.\<close>

definition handed_over ::
  "(node_index \<Rightarrow> node_index) \<Rightarrow> (node_index \<Rightarrow> node_index list) \<Rightarrow> node_index list \<Rightarrow> arena \<Rightarrow> arena" where
  "handed_over h S xs a =
     fold (\<lambda>i a. upd_node i (\<lambda>n. n\<lparr>sponsored := []\<rparr>) (moved_to (h i) (S i) a)) xs a"

lemma handed_over_fields [simp]:
  "length (nodes (handed_over h S xs a)) = length (nodes a)" "index (handed_over h S xs a) = index a"
  "free_list (handed_over h S xs a) = free_list a" "root (handed_over h S xs a) = root a"
  by (induction xs arbitrary: a) (simp_all add: handed_over_def)

definition plan_ok :: "(node_index \<Rightarrow> node_index) \<Rightarrow> (node_index \<Rightarrow> node_index list) \<Rightarrow> node_index list \<Rightarrow> arena \<Rightarrow> bool" where
  "plan_ok h S xs a \<longleftrightarrow> distinct xs \<and> (\<forall>i \<in> set xs. i < length (nodes a) \<and>
     (S i \<noteq> [] \<longrightarrow> h i < length (nodes a) \<and> h i \<notin> set xs) \<and>
     (\<forall>s \<in> set (S i). s < length (nodes a) \<and> spn a s = Some i))"

lemma nd_handed_over:
  assumes "plan_ok h S xs a"
  shows "nd (handed_over h S xs a) j = (nd a j)
     \<lparr>sponsor := (case spn a j of None \<Rightarrow> None
         | Some i \<Rightarrow> Some (if i \<in> set xs \<and> j \<in> set (S i) then h i else i)),
      sponsored := (if j \<in> set xs then []
         else spd a j @ concat (map (\<lambda>i. if h i = j then S i else []) xs))\<rparr>"
  using assms
proof (induction xs arbitrary: j rule: rev_induct)
  case Nil
  then show ?case by (simp add: handed_over_def split: option.split)
next
  case (snoc y ys)
  let ?b = "handed_over h S ys a"
  have step: "handed_over h S (ys @ [y]) a = upd_node y (\<lambda>n. n\<lparr>sponsored := []\<rparr>) (moved_to (h y) (S y) ?b)"
    by (simp add: handed_over_def)
  have y: "y < length (nodes a)" "y \<notin> set ys"
    "\<And>s. s \<in> set (S y) \<Longrightarrow> s < length (nodes a) \<and> spn a s = Some y"
    "S y \<noteq> [] \<Longrightarrow> h y < length (nodes a) \<and> h y \<notin> set (ys @ [y])"
    using snoc.prems by (auto simp: plan_ok_def)
  have ys: "plan_ok h S ys a" using snoc.prems by (auto simp: plan_ok_def)
  have IH: "nd ?b j = (nd a j)
     \<lparr>sponsor := (case spn a j of None \<Rightarrow> None
         | Some i \<Rightarrow> Some (if i \<in> set ys \<and> j \<in> set (S i) then h i else i)),
      sponsored := (if j \<in> set ys then []
         else spd a j @ concat (map (\<lambda>i. if h i = j then S i else []) ys))\<rparr>" for j
    by (rule snoc.IH [OF ys])
  show ?case
  proof (cases "S y = []")
    case True
    then show ?thesis using y(1,2) by (auto simp: step IH split: option.split)
  next
    case False
    with y have "nd (moved_to (h y) (S y) ?b) j = (nd ?b j)
       \<lparr>sponsor := if j \<in> set (S y) then Some (h y) else spn ?b j,
        sponsored := if j = h y then spd ?b j @ S y else spd ?b j\<rparr>" for j
      by (intro nd_moved_to) auto
    with y(1,2) y(3) [of j] y(4) [OF False] show ?thesis
      by (auto simp: step IH split: option.split)
  qed
qed

text \<open>Which sponsor inherits the recruits of \<open>i\<close> when the nodes \<open>R\<close> leave.\<close>

definition heir :: "arena \<Rightarrow> node_index set \<Rightarrow> node_index \<Rightarrow> node_index option" where
  "heir a R i = find (\<lambda>x. x \<notin> R) (chain (spn a) (length (nodes a)) i)"

lemma sponsor_chain_ends:
  assumes "arena_wf a" "live a i" "card (live_set a) \<le> k"
  shows "upn (spn a) k i = None"
  using sponsorship.upn_bound [OF assms(1), of i k] assms(2,3)
  by (cases "upn (spn a) k i") auto

lemma surviving_sponsor_eq:
  assumes "arena_wf a" "live a i"
  shows "surviving_sponsor a i R = Ok (heir a R i)"
proof -
  have "surviving_walk a R e (length (nodes a)) (spn a i) = Ok (heir a R i)" for e
    unfolding heir_def
  proof (rule surviving_walk_eq)
    show "upn (spn a) (length (nodes a)) i = None"
      by (rule sponsor_chain_ends [OF assms card_live])
    show "y < length (nodes a)" if "y \<in> set (chain (spn a) (length (nodes a)) i)" for y
      using that sponsorship.chain_in_live [OF assms(1), of i] assms(2) live_bound by fastforce
  qed
  then show ?thesis using assms(2) by (simp add: surviving_sponsor_def)
qed

lemma heir_unfold:
  assumes "arena_wf a" "live a i"
  shows "heir a R i = (case spn a i of None \<Rightarrow> None
     | Some s \<Rightarrow> if s \<in> R then heir a R s else Some s)"
proof (cases "spn a i")
  case None
  then show ?thesis by (simp add: heir_def chain_end)
next
  case (Some s)
  obtain n where n: "length (nodes a) = Suc n" using live_bound [OF assms(2)] by (cases "length (nodes a)") auto
  have "upn (spn a) (Suc n) s = None"
    using sponsor_chain_ends [OF assms(1) spn_live [OF assms Some] card_live] n by simp
  from chain_min [OF this, of "Suc n"] have "chain (spn a) (Suc n) s = chain (spn a) n s" by simp
  then show ?thesis using Some n by (simp add: heir_def del: chain.simps) (simp add: Some)
qed

lemma heir_Some:
  assumes "arena_wf a" "live a i" "heir a R i = Some t"
  shows "live a t" "t \<notin> R" "spn_rank a t < spn_rank a i"
proof -
  let ?c = "chain (spn a) (length (nodes a)) i"
  from assms(3) have t: "t \<in> set ?c" "t \<notin> R"
    by (auto simp: heir_def find_Some_iff)
  then show "t \<notin> R" by simp
  show "live a t" using sponsorship.chain_in_live [OF assms(1), of i] assms(2) t(1) by fastforce
  from t(1) obtain k where k: "upn (spn a) (Suc k) i = Some t" by (auto simp: set_chain)
  then show "spn_rank a t < spn_rank a i"
    using sponsorship.upn_rank [OF assms(1) _ k] assms(2) by simp
qed

lemma recruit_not_heir:
  assumes "arena_wf a" "live a i" "heir a R i = Some t"
  shows "t \<notin> set (spd a i)"
proof
  assume "t \<in> set (spd a i)"
  then have "spn a t = Some i"
    using arena_wfD(3) [OF assms(1)] assms(2) by (auto simp: links_wf_def)
  then have "spn_rank a i < spn_rank a t"
    using sponsorship.up_rank [OF assms(1)] heir_Some(1) [OF assms] by simp
  with heir_Some(3) [OF assms] show False by simp
qed

definition removable :: "arena \<Rightarrow> node_index set \<Rightarrow> bool" where
  "removable a R \<longleftrightarrow> (\<forall>i \<in> R. survivors a R i \<noteq> [] \<longrightarrow> heir a R i \<noteq> None)"

lemma check_removable_one_eq:
  assumes "arena_wf a" "live a i"
  shows "check_removable_one a R i = (if survivors a R i \<noteq> [] \<and> heir a R i = None
     then Err (SponsorlessWithRecruits (user_id (nd a i)) (length (survivors a R i))) else Ok ())"
  using assms recruit_not_heir [OF assms, of R] live_bound [OF assms(2)]
  by (auto simp: check_removable_one_def surviving_recruits_eq surviving_sponsor_eq survivors_def
      simp del: index_at_ok split: option.splits)

lemma check_sponsored_removable_ok:
  assumes "arena_wf a" "\<forall>i \<in> set R. live a i"
  shows "check_sponsored_removable a R = Ok () \<longleftrightarrow> removable a (set R)"
  using assms by (auto simp: check_sponsored_removable_def check_removable_one_eq removable_def)

lemma reparent_sponsored_eq:
  assumes plan: "plan_ok h (survivors a (set R)) R a"
    and heirs: "\<And>i. i \<in> set R \<Longrightarrow> survivors a (set R) i \<noteq> [] \<Longrightarrow>
      surviving_sponsor a i (set R) = Ok (Some (h i))"
  shows "reparent_sponsored R a =
     (Ok (concat (map (\<lambda>i. map (handover a (h i)) (survivors a (set R) i)) R)),
      handed_over h (survivors a (set R)) R a)"
proof -
  let ?S = "survivors a (set R)"
  let ?p = "\<lambda>i. (i, ?S i, if ?S i = [] then None else Some (h i))"
  have "plan_move a (set R) i = Ok (?p i)" if "i \<in> set R" for i
    using that plan heirs [OF that]
    by (auto simp: plan_move_def plan_ok_def surviving_recruits_eq)
  then have plans: "map_res (plan_move a (set R)) R = Ok (map ?p R)" by (rule map_res_Ok)
  have "sfold apply_move (map ?p xs) moved b =
      (Ok (moved @ concat (map (\<lambda>i. map (handover b (h i)) (?S i)) xs)), handed_over h ?S xs b)"
    if "\<forall>i \<in> set xs. i \<in> set R" "length (nodes b) = length (nodes a)" for xs b moved
    using that
  proof (induction xs arbitrary: b moved)
    case (Cons x xs)
    let ?b = "upd_node x (\<lambda>n. n\<lparr>sponsored := []\<rparr>) (moved_to (h x) (?S x) b)"
    have x: "x < length (nodes b)" "\<forall>s \<in> set (?S x). s < length (nodes b)"
      "?S x \<noteq> [] \<Longrightarrow> h x < length (nodes b)"
      using plan Cons.prems by (auto simp: plan_ok_def)
    have "apply_move (?p x) moved b = (Ok (moved @ map (handover b (h x)) (?S x)), ?b)"
    proof (cases "?S x = []")
      case True
      with x show ?thesis by (simp add: apply_move_def outcome_simps nodes_mut_upd)
    next
      case False
      with x have "sfold (move_recruit (Some (h x))) (?S x) moved b =
          (Ok (moved @ map (handover b (h x)) (?S x)), moved_to (h x) (?S x) b)"
        by (intro move_recruits_eq) auto
      with x False show ?thesis by (simp add: apply_move_def outcome_simps nodes_mut_upd)
    qed
    moreover have "user_id (nd ?b j) = user_id (nd b j)" for j
      using x by (cases "?S x = []") (simp_all add: nd_moved_to)
    ultimately show ?case
      using Cons.IH [of ?b "moved @ map (handover b (h x)) (?S x)"] Cons.prems
      by (simp add: sbind_simps handed_over_def)
  qed (simp add: outcome_simps handed_over_def)
  from this [of R a "[]"] show ?thesis
    using plan plans by (simp add: reparent_sponsored_def plan_ok_def dedup_first_id outcome_simps)
qed

lemma surviving_walk_cong:
  assumes "length (nodes b) = length (nodes a)" "\<And>j. spn b j = spn a j"
  shows "surviving_walk b R e k c = surviving_walk a R e k c"
proof (induction k arbitrary: c)
  case (Suc k)
  have "bnd (index_at (nodes b) i) (\<lambda>n. surviving_walk b R e k (sponsor n)) =
      bnd (index_at (nodes a) i) (\<lambda>n. surviving_walk a R e k (sponsor n))" for i
    using assms Suc.IH
    by (cases "i < length (nodes a)")
      (simp add: index_at_nd del: index_at_ok, simp add: index_at_def)
  then show ?case by (simp split: option.split)
qed simp

lemma surviving_sponsor_cong:
  assumes "length (nodes b) = length (nodes a)" "\<And>j. spn b j = spn a j"
    "\<And>j. user_id (nd b j) = user_id (nd a j)" "i < length (nodes a)"
  shows "surviving_sponsor b i R = surviving_sponsor a i R"
  using assms by (simp add: surviving_sponsor_def index_at_nd surviving_walk_cong [OF assms(1,2)] del: index_at_ok)

definition handovers :: "arena \<Rightarrow> node_index list \<Rightarrow> responsored list" where
  "handovers a R = concat (map (\<lambda>i.
     map (handover a (the (heir a (set R) i))) (survivors a (set R) i)) R)"

definition bequests :: "arena \<Rightarrow> node_index list \<Rightarrow> node_index \<Rightarrow> node_index list" where
  "bequests a R j = concat (map (\<lambda>i. if heir a (set R) i = Some j then survivors a (set R) i else []) R)"

lemma set_spd_iff:
  assumes "arena_wf a" "live a i"
  shows "k \<in> set (spd a i) \<longleftrightarrow> live a k \<and> spn a k = Some i"
  using arena_wfD(3) [OF assms(1)] assms(2) by (auto simp: links_wf_def)

lemma set_survivors:
  assumes "arena_wf a" "live a i"
  shows "k \<in> set (survivors a R i) \<longleftrightarrow> live a k \<and> k \<notin> R \<and> spn a k = Some i"
  by (auto simp: survivors_def set_spd_iff [OF assms])

lemma removable_plan:
  assumes wf: "arena_wf a" and R: "distinct R" "\<forall>i \<in> set R. live a i" "removable a (set R)"
  shows "plan_ok (\<lambda>i. the (heir a (set R) i)) (survivors a (set R)) R a"
  unfolding plan_ok_def
proof (intro conjI ballI impI)
  fix i assume i: "i \<in> set R"
  then have li: "live a i" using R(2) by blast
  show "i < length (nodes a)" by (rule live_bound [OF li])
  show "s < length (nodes a)" "spn a s = Some i" if "s \<in> set (survivors a (set R) i)" for s
    using that set_survivors [OF wf li] live_bound by auto
  assume "survivors a (set R) i \<noteq> []"
  then obtain t where "heir a (set R) i = Some t" using R(3) i by (auto simp: removable_def)
  with heir_Some [OF wf li this] live_bound
  show "the (heir a (set R) i) < length (nodes a)" "the (heir a (set R) i) \<notin> set R" by auto
qed (rule R(1))

text \<open>
  Re-sponsoring in an arena \<open>b\<close> that differs from the well-formed \<open>a\<close> at most in placement
  links and in the recruits of nodes that stay.
\<close>

lemma reparent_sponsored_wf:
  assumes wf: "arena_wf a" and R: "distinct R" "\<forall>i \<in> set R. live a i" "removable a (set R)"
    and b: "length (nodes b) = length (nodes a)" "\<And>j. spn b j = spn a j"
      "\<And>j. user_id (nd b j) = user_id (nd a j)" "\<And>i. i \<in> set R \<Longrightarrow> spd b i = spd a i"
  obtains b' where "reparent_sponsored R b = (Ok (handovers a R), b')"
    "length (nodes b') = length (nodes b)" "index b' = index b" "free_list b' = free_list b"
    "root b' = root b"
    "\<And>j. nd b' j = (nd b j)
       \<lparr>sponsor := if j \<in> set R \<or> \<not> live a j then spn a j else heir a (set R) j,
        sponsored := if j \<in> set R then [] else spd b j @ bequests a R j\<rparr>"
proof -
  let ?h = "\<lambda>i. the (heir a (set R) i)"
  have S: "survivors b (set R) i = survivors a (set R) i" if "i \<in> set R" for i
    using b(4) [OF that] by (simp add: survivors_def)
  have pa: "plan_ok ?h (survivors a (set R)) R a" by (rule removable_plan [OF wf R])
  then have pb: "plan_ok ?h (survivors b (set R)) R b" using b(1,2) S by (simp add: plan_ok_def)
  have heirs: "surviving_sponsor b i (set R) = Ok (Some (?h i))"
    if "i \<in> set R" "survivors b (set R) i \<noteq> []" for i
  proof -
    have "live a i" using R(2) that by blast
    then have "surviving_sponsor b i (set R) = Ok (heir a (set R) i)"
      by (simp add: surviving_sponsor_cong [OF b(1,2,3) live_bound] surviving_sponsor_eq [OF wf])
    with R(3) that S show ?thesis by (auto simp: removable_def)
  qed
  let ?b = "handed_over ?h (survivors b (set R)) R b"
  have res: "reparent_sponsored R b = (Ok (handovers a R), ?b)"
    using reparent_sponsored_eq [OF pb heirs] S
    by (simp add: handovers_def b(3) cong: map_cong)
  have bq: "map (\<lambda>i. if ?h i = j then survivors b (set R) i else []) R =
      map (\<lambda>i. if heir a (set R) i = Some j then survivors a (set R) i else []) R" for j
    using R(3) S by (intro map_cong) (auto simp: removable_def)
  have sp: "(case spn a j of None \<Rightarrow> None
      | Some i \<Rightarrow> Some (if i \<in> set R \<and> j \<in> set (survivors b (set R) i) then ?h i else i)) =
      (if j \<in> set R \<or> \<not> live a j then spn a j else heir a (set R) j)" for j
  proof (cases "spn a j")
    case None
    then show ?thesis using heir_unfold [OF wf, of j "set R"] by simp
  next
    case (Some i)
    then have lj: "live a j" using arena_wfD(5) [OF wf] by (auto simp: tombs_wf_def)
    note i = spn_live [OF wf lj Some]
    have sv: "j \<in> set (survivors a (set R) i) \<longleftrightarrow> j \<notin> set R"
      using set_survivors [OF wf i] lj Some by simp
    show ?thesis
    proof (cases "j \<notin> set R \<and> i \<in> set R")
      case True
      with sv have "survivors a (set R) i \<noteq> []" by force
      then show ?thesis
        using True Some lj S [of i] sv heir_unfold [OF wf lj, of "set R"] R(3)
        by (auto simp: removable_def)
    qed (use Some lj S [of i] sv heir_unfold [OF wf lj, of "set R"] in auto)
  qed
  show ?thesis
  proof (rule that [OF res])
    show "nd ?b j = (nd b j)
       \<lparr>sponsor := if j \<in> set R \<or> \<not> live a j then spn a j else heir a (set R) j,
        sponsored := if j \<in> set R then [] else spd b j @ bequests a R j\<rparr>" for j
      unfolding nd_handed_over [OF pb] b(2) sp bq bequests_def by simp
  qed simp_all
qed

section \<open>Detaching nodes\<close>

text \<open>
  \<open>unsponsored a a' R\<close>: in \<open>a'\<close> the nodes \<open>R\<close> of \<open>a\<close> are tombstones and every other node is
  sponsored by its heir; \<open>inherited\<close> is what a node's list of recruits becomes.
\<close>

definition inherited :: "arena \<Rightarrow> node_index list \<Rightarrow> node_index \<Rightarrow> node_index list" where
  "inherited a R j = filter (\<lambda>s. s \<notin> set R) (spd a j) @ bequests a R j"

definition unsponsored :: "arena \<Rightarrow> arena \<Rightarrow> node_index list \<Rightarrow> bool" where
  "unsponsored a a' R \<longleftrightarrow> distinct R \<and> (\<forall>i \<in> set R. live a i) \<and> removable a (set R) \<and>
     hm_ok (index a') \<and>
     (\<forall>v. hm_get (index a') v = (if \<exists>i \<in> set R. user_id (nd a i) = v then None else hm_get (index a) v)) \<and>
     (\<forall>j \<in> set R. nd a' j = cleared_node) \<and>
     (\<forall>j. j \<notin> set R \<longrightarrow> user_id (nd a' j) = user_id (nd a j) \<and>
        (live a j \<longrightarrow> spn a' j = heir a (set R) j \<and> spd a' j = inherited a R j) \<and>
        (\<not> live a j \<longrightarrow> nd a' j = nd a j)) \<and>
     distinct (free_list a') \<and> set (free_list a') = set (free_list a) \<union> set R \<and>
     length (nodes a') = length (nodes a)"

lemma unsponsoredD:
  assumes "unsponsored a a' R"
  shows "distinct R" "\<forall>i \<in> set R. live a i" "removable a (set R)" "hm_ok (index a')"
    "\<And>v. hm_get (index a') v = (if \<exists>i \<in> set R. user_id (nd a i) = v then None else hm_get (index a) v)"
    "\<And>j. j \<in> set R \<Longrightarrow> nd a' j = cleared_node"
    "\<And>j. j \<notin> set R \<Longrightarrow> user_id (nd a' j) = user_id (nd a j)"
    "\<And>j. j \<notin> set R \<Longrightarrow> live a j \<Longrightarrow> spn a' j = heir a (set R) j"
    "\<And>j. j \<notin> set R \<Longrightarrow> live a j \<Longrightarrow> spd a' j = inherited a R j"
    "\<And>j. j \<notin> set R \<Longrightarrow> \<not> live a j \<Longrightarrow> nd a' j = nd a j"
    "distinct (free_list a')" "set (free_list a') = set (free_list a) \<union> set R"
    "length (nodes a') = length (nodes a)"
  using assms by (auto simp: unsponsored_def)

lemma unsponsored_live: "unsponsored a a' R \<Longrightarrow> live a' j \<longleftrightarrow> live a j \<and> j \<notin> set R"
  using unsponsoredD(6,7) [of a a' R j] by (cases "j \<in> set R") (auto simp: live_def)

lemma set_inherited:
  assumes wf: "arena_wf a" and R: "\<forall>i \<in> set R. live a i" and j: "live a j" "j \<notin> set R"
  shows "k \<in> set (inherited a R j) \<longleftrightarrow> live a k \<and> k \<notin> set R \<and> heir a (set R) k = Some j"
proof -
  have "k \<in> set (inherited a R j) \<longleftrightarrow> live a k \<and> k \<notin> set R \<and>
      (spn a k = Some j \<or> (\<exists>i \<in> set R. spn a k = Some i \<and> heir a (set R) i = Some j))"
    using R set_survivors [OF wf] set_spd_iff [OF wf j(1)] by (auto simp: inherited_def bequests_def)
  then show ?thesis using heir_unfold [OF wf, of k "set R"] j(2)
    by (auto split: option.splits if_splits)
qed

lemma distinct_inherited:
  assumes wf: "arena_wf a" and R: "\<forall>i \<in> set R. live a i" "distinct R"
    and j: "live a j" "j \<notin> set R"
  shows "distinct (inherited a R j)"
proof -
  let ?m = "\<lambda>i. if heir a (set R) i = Some j then survivors a (set R) i else []"
  have dist: "distinct (spd a k)" if "live a k" for k
    using arena_wfD(3) [OF wf] that by (simp add: links_wf_def)
  have "distinct (concat (map ?m R))"
  proof (rule distinct_concat_map [OF R(2)])
    show "distinct (?m i)" if "i \<in> set R" for i
      using R(1) that dist [of i] by (simp add: survivors_def)
    show "i = k" if "i \<in> set R" "k \<in> set R" "s \<in> set (?m i)" "s \<in> set (?m k)" for i k s
      using that R(1) set_survivors [OF wf, of i s] set_survivors [OF wf, of k s]
      by (auto split: if_splits)
  qed
  moreover have "set (filter (\<lambda>s. s \<notin> set R) (spd a j)) \<inter> set (concat (map ?m R)) = {}"
  proof -
    have "s \<notin> set (?m i)" if "i \<in> set R" "s \<in> set (spd a j)" for i s
      using that j(2) R(1) set_survivors [OF wf, of i s] set_spd_iff [OF wf j(1)] by auto
    then show ?thesis by fastforce
  qed
  ultimately show ?thesis using dist [OF j(1)] by (simp add: inherited_def bequests_def)
qed

lemma unsponsored_links:
  assumes wf: "arena_wf a" and un: "unsponsored a a' R"
  shows "links_wf sponsor sponsored a'"
  unfolding links_wf_def
proof (intro allI impI)
  fix j assume "live a' j"
  note D = unsponsoredD [OF un] and L = unsponsored_live [OF un]
  from \<open>live a' j\<close> have j: "live a j" "j \<notin> set R" by (simp_all add: L)
  have "k \<in> set (spd a' j) \<longleftrightarrow> live a' k \<and> spn a' k = Some j" for k
    unfolding D(9) [OF j(2,1)] set_inherited [OF wf D(2) j]
    by (cases "live a k \<and> k \<notin> set R") (auto simp: L D(8))
  moreover have "live a' k" if "spn a' j = Some k" for k
    using that D(8) [OF j(2,1)] heir_Some [OF wf j(1)] by (simp add: L)
  moreover have "distinct (spd a' j)"
    using distinct_inherited [OF wf D(2,1) j] D(9) [OF j(2,1)] by simp
  ultimately show "distinct (spd a' j) \<and>
      (\<forall>k. k \<in> set (spd a' j) \<longleftrightarrow> live a' k \<and> spn a' k = Some j) \<and>
      (\<forall>k. spn a' j = Some k \<longrightarrow> live a' k)" by blast
qed

lemma unsponsored_chains:
  assumes wf: "arena_wf a" and un: "unsponsored a a' R"
  shows "chains_wf a'"
proof (rule chains_wfI [where r = "spn_rank a"])
  fix j s assume j: "live a' j" and s: "spn a' j = Some s"
  then have "live a j" "j \<notin> set R" by (simp_all add: unsponsored_live [OF un])
  with s heir_Some [OF wf, of j "set R" s] unsponsoredD(8) [OF un, of j]
  show "live a' s \<and> spn_rank a s < spn_rank a j" by (simp add: unsponsored_live [OF un])
qed

lemma unsponsored_index:
  assumes wf: "arena_wf a" and un: "unsponsored a a' R"
  shows "index_wf a'"
proof -
  note D = unsponsoredD [OF un]
  have ix: "hm_get (index a) u = Some k \<longleftrightarrow> u \<noteq> nil_uuid \<and> user_id (nd a k) = u" for u k
    using arena_wfD(1) [OF wf] by (simp add: index_wf_def)
  have "hm_get (index a') u = Some k \<longleftrightarrow> u \<noteq> nil_uuid \<and> user_id (nd a' k) = u" for u k
  proof (cases "k \<in> set R")
    case True
    with D(6) [OF True] ix [of u k] show ?thesis by (auto simp: D(5))
  next
    case False
    have "\<not> (\<exists>i \<in> set R. user_id (nd a i) = user_id (nd a k))"
      using user_id_inj [OF wf, of _ k] D(2) False by auto
    with D(7) [OF False] ix [of u k] show ?thesis by (auto simp: D(5))
  qed
  with D(4) show ?thesis by (simp add: index_wf_def)
qed

lemma unsponsored_free:
  assumes "arena_wf a" "unsponsored a a' R"
  shows "free_wf a'"
  using arena_wfD(6) [OF assms(1)] unsponsoredD(2,11,12,13) [OF assms(2)] live_bound
  by (auto simp: free_wf_def unsponsored_live [OF assms(2)])

lemma unsponsored_tombs:
  assumes wf: "arena_wf a" and un: "unsponsored a a' R"
  shows "tombs_wf a'"
  unfolding tombs_wf_def
proof (intro allI impI)
  fix j assume "\<not> live a' j"
  then consider "j \<in> set R" | "j \<notin> set R" "\<not> live a j" by (auto simp: unsponsored_live [OF un])
  then show "par a' j = None \<and> spn a' j = None \<and> kds a' j = [] \<and> spd a' j = []"
    by cases (use unsponsoredD(6,10) [OF un] arena_wfD(5) [OF wf] in \<open>auto simp: tombs_wf_def\<close>)
qed

text \<open>\<open>detached\<close>: the nodes \<open>R\<close> leave together with everything placed below them.\<close>

definition detached :: "arena \<Rightarrow> arena \<Rightarrow> node_index list \<Rightarrow> bool" where
  "detached a a' R \<longleftrightarrow> unsponsored a a' R \<and> (\<forall>i \<in> set R. set (kds a i) \<subseteq> set R) \<and>
     (\<forall>j. j \<notin> set R \<longrightarrow> par a' j = par a j \<and> depth (nd a' j) = depth (nd a j) \<and>
        enrolled_at (nd a' j) = enrolled_at (nd a j) \<and> kds a' j = filter (\<lambda>k. k \<notin> set R) (kds a j)) \<and>
     root a' = (case root a of None \<Rightarrow> None | Some r \<Rightarrow> if r \<in> set R then None else Some r)"

lemma detachedD:
  assumes "detached a a' R"
  shows "unsponsored a a' R" "\<And>i k. i \<in> set R \<Longrightarrow> k \<in> set (kds a i) \<Longrightarrow> k \<in> set R"
    "\<And>j. j \<notin> set R \<Longrightarrow> par a' j = par a j" "\<And>j. j \<notin> set R \<Longrightarrow> depth (nd a' j) = depth (nd a j)"
    "\<And>j. j \<notin> set R \<Longrightarrow> kds a' j = filter (\<lambda>k. k \<notin> set R) (kds a j)"
    "root a' = (case root a of None \<Rightarrow> None | Some r \<Rightarrow> if r \<in> set R then None else Some r)"
    "\<And>j. j \<notin> set R \<Longrightarrow> enrolled_at (nd a' j) = enrolled_at (nd a j)"
  using assms by (auto simp: detached_def)

lemma detached_parent_stays:
  assumes "arena_wf a" "detached a a' R" "live a j" "j \<notin> set R" "par a j = Some p"
  shows "live a p" "p \<notin> set R"
proof -
  show lp: "live a p" by (rule par_live [OF assms(1,3,5)])
  have "j \<in> set (kds a p)" using placement.down_up [OF assms(1), of p j] lp assms(3,5) by simp
  with detachedD(2) [OF assms(2), of p j] assms(4) show "p \<notin> set R" by blast
qed

lemma detached_links:
  assumes wf: "arena_wf a" and de: "detached a a' R"
  shows "links_wf parent children a'"
  unfolding links_wf_def
proof (intro allI impI)
  fix j assume "live a' j"
  note D = detachedD [OF de] and L = unsponsored_live [OF detachedD(1) [OF de]]
  from \<open>live a' j\<close> have j: "live a j" "j \<notin> set R" by (simp_all add: L)
  have up: "k \<in> set (kds a j) \<longleftrightarrow> live a k \<and> par a k = Some j" for k
    using arena_wfD(2) [OF wf] j(1) by (auto simp: links_wf_def)
  have "distinct (kds a j)" using arena_wfD(2) [OF wf] j(1) by (simp add: links_wf_def)
  moreover have "k \<in> set (kds a' j) \<longleftrightarrow> live a' k \<and> par a' k = Some j" for k
    using up [of k] D(3) [of k] D(5) [OF j(2)] by (auto simp: L)
  moreover have "live a' k" if "par a' j = Some k" for k
    using that D(3) [OF j(2)] detached_parent_stays [OF wf de j] by (simp add: L)
  ultimately show "distinct (kds a' j) \<and>
      (\<forall>k. k \<in> set (kds a' j) \<longleftrightarrow> live a' k \<and> par a' k = Some j) \<and>
      (\<forall>k. par a' j = Some k \<longrightarrow> live a' k)" using D(5) [OF j(2)] by simp
qed

lemma detached_depth:
  assumes wf: "arena_wf a" and de: "detached a a' R"
  shows "depth_wf a'"
  unfolding depth_wf_def
proof (intro allI impI)
  fix j assume "live a' j"
  then have j: "live a j" "j \<notin> set R" by (simp_all add: unsponsored_live [OF detachedD(1) [OF de]])
  with arena_wfD(4) [OF wf] detachedD(3,4) [OF de] detached_parent_stays [OF wf de j]
  show "dep a' j = (case par a' j of None \<Rightarrow> 0 | Some p \<Rightarrow> Suc (dep a' p))"
    by (auto simp: depth_wf_def split: option.splits)
qed

text \<open>Whoever is below a removed node is removed, so removing the root empties the tree.\<close>

lemma detached_root_all:
  assumes wf: "arena_wf a" and de: "detached a a' R" and r: "root a = Some r" "r \<in> set R"
    and j: "live a j"
  shows "j \<in> set R"
proof -
  have "upn (par a) k j = Some i \<Longrightarrow> i \<in> set R \<Longrightarrow> live a j \<Longrightarrow> j \<in> set R" for k i
  proof (induction k arbitrary: j)
    case (Suc k)
    then obtain p where p: "par a j = Some p" "upn (par a) k p = Some i" by (auto split: option.splits)
    have lp: "live a p" by (rule par_live [OF wf Suc.prems(3) p(1)])
    have "p \<in> set R" by (rule Suc.IH [OF p(2) Suc.prems(2) lp])
    with detached_parent_stays [OF wf de Suc.prems(3) _ p(1)] show ?case by blast
  qed simp
  from this [OF upn_dep_root [OF wf j r(1)] r(2) j] show ?thesis .
qed

lemma detached_root:
  assumes wf: "arena_wf a" and de: "detached a a' R"
  shows "root_wf a'"
proof (cases "root a")
  case None
  with detachedD(6) [OF de] arena_wfD(7) [OF wf] show ?thesis
    by (simp add: root_wf_def unsponsored_live [OF detachedD(1) [OF de]])
next
  case (Some r)
  note L = unsponsored_live [OF detachedD(1) [OF de]] and D = detachedD [OF de]
  show ?thesis
  proof (cases "r \<in> set R")
    case True
    with Some D(6) detached_root_all [OF wf de Some True] show ?thesis by (auto simp: root_wf_def L)
  next
    case False
    have r: "live a r" "par a r = None" "spn a r = None"
      and only: "\<forall>i. live a i \<longrightarrow> par a i = None \<longrightarrow> i = r"
      using arena_wfD(7) [OF wf] Some by (auto simp: root_wf_def)
    have "spn a' r = None"
      using unsponsoredD(8) [OF D(1) False r(1)] heir_unfold [OF wf r(1)] r(3) by simp
    moreover have "\<forall>j. live a' j \<longrightarrow> par a' j = None \<longrightarrow> j = r" using only D(3) L by metis
    moreover have "live a' r" "par a' r = None" using r(1,2) False D(3) by (simp_all add: L)
    moreover have root': "root a' = Some r" using False Some D(6) by simp
    ultimately show ?thesis unfolding root_wf_def root' option.case by blast
  qed
qed

lemma detached_wf:
  assumes "arena_wf a" "detached a a' R"
  shows "arena_wf a'"
proof -
  note un = detachedD(1) [OF assms(2)]
  show ?thesis
    unfolding arena_wf_def
    using unsponsored_index [OF assms(1) un] unsponsored_links [OF assms(1) un]
      unsponsored_tombs [OF assms(1) un] unsponsored_free [OF assms(1) un]
      unsponsored_chains [OF assms(1) un] detached_links [OF assms] detached_depth [OF assms]
      detached_root [OF assms] by simp
qed

subsection \<open>Detaching one node\<close>

text \<open>Leaving the parent's children and the sponsor's recruits touches no other list.\<close>

lemma leave_parent:
  assumes wf: "arena_wf a" and i: "live a i"
  shows "(case par a i of None \<Rightarrow> a
     | Some p \<Rightarrow> upd_node p (\<lambda>m. m\<lparr>children := filter (\<lambda>c. c \<noteq> i) (children m)\<rparr>) a) = b \<Longrightarrow>
     nd b j = (nd a j)\<lparr>children := filter (\<lambda>c. c \<noteq> i) (kds a j)\<rparr>"
proof -
  have "filter (\<lambda>c. c \<noteq> i) (kds a j) = kds a j" if "par a i \<noteq> Some j"
    using that placement.down_up [OF wf, of j i] i arena_wfD(5) [OF wf]
    by (intro filter_True) (cases "live a j"; auto simp: tombs_wf_def)
  then show "(case par a i of None \<Rightarrow> a
     | Some p \<Rightarrow> upd_node p (\<lambda>m. m\<lparr>children := filter (\<lambda>c. c \<noteq> i) (children m)\<rparr>) a) = b \<Longrightarrow>
     nd b j = (nd a j)\<lparr>children := filter (\<lambda>c. c \<noteq> i) (kds a j)\<rparr>"
    using par_live [OF wf i] live_bound [of a] by (auto split: option.splits)
qed

lemma leave_sponsor:
  assumes wf: "arena_wf a" and i: "live a i" and b: "length (nodes b) = length (nodes a)"
    "\<And>j. spd b j = spd a j"
  shows "(case spn a i of None \<Rightarrow> b
     | Some s \<Rightarrow> upd_node s (\<lambda>m. m\<lparr>sponsored := filter (\<lambda>c. c \<noteq> i) (sponsored m)\<rparr>) b) = b' \<Longrightarrow>
     nd b' j = (nd b j)\<lparr>sponsored := filter (\<lambda>c. c \<noteq> i) (spd a j)\<rparr>"
proof -
  have "filter (\<lambda>c. c \<noteq> i) (spd a j) = spd a j" if "spn a i \<noteq> Some j"
    using that sponsorship.down_up [OF wf, of j i] i arena_wfD(5) [OF wf]
    by (intro filter_True) (cases "live a j"; auto simp: tombs_wf_def)
  then show "(case spn a i of None \<Rightarrow> b
     | Some s \<Rightarrow> upd_node s (\<lambda>m. m\<lparr>sponsored := filter (\<lambda>c. c \<noteq> i) (sponsored m)\<rparr>) b) = b' \<Longrightarrow>
     nd b' j = (nd b j)\<lparr>sponsored := filter (\<lambda>c. c \<noteq> i) (spd a j)\<rparr>"
    using spn_live [OF wf i] live_bound [of a] b by (auto split: option.splits)
qed

lemma unsponsor_one:
  assumes wf: "arena_wf a" and i: "live a i" "removable a {i}"
    and b: "length (nodes b) = length (nodes a)" "index b = index a" "free_list b = free_list a"
      "\<And>j. spn b j = spn a j" "\<And>j. user_id (nd b j) = user_id (nd a j)"
      "\<And>j. spd b j = filter (\<lambda>s. s \<noteq> i) (spd a j)" "\<forall>j. \<not> live a j \<longrightarrow> nd b j = nd a j"
  obtains b' a' where "reparent_sponsored [i] b = (Ok (handovers a [i]), b')"
    "tombstone i (b'\<lparr>index := hm_remove (user_id (nd a i)) (index b')\<rparr>) = (Ok () :: (tree_error, unit) result, a')"
    "unsponsored a a' [i]" "root a' = root b"
    "\<And>j. j \<noteq> i \<Longrightarrow> par a' j = par b j \<and> kds a' j = kds b j \<and>
       depth (nd a' j) = depth (nd b j) \<and> enrolled_at (nd a' j) = enrolled_at (nd b j)"
proof -
  have "i \<notin> set (spd a i)"
    using set_spd_iff [OF wf i(1), of i] sponsorship.up_rank [OF wf, of i i] i(1) by auto
  then have "spd b i = spd a i" unfolding b(6) by (intro filter_True) auto
  with wf i obtain b' where b': "reparent_sponsored [i] b = (Ok (handovers a [i]), b')"
    "length (nodes b') = length (nodes b)" "index b' = index b" "free_list b' = free_list b"
    "root b' = root b"
    "\<And>j. nd b' j = (nd b j)
       \<lparr>sponsor := if j \<in> set [i] \<or> \<not> live a j then spn a j else heir a (set [i]) j,
        sponsored := if j \<in> set [i] then [] else spd b j @ bequests a [i] j\<rparr>"
    by (rule_tac reparent_sponsored_wf [of a "[i]" b]) (auto simp: b)
  let ?a' = "b'\<lparr>index := hm_remove (user_id (nd a i)) (index b'), nodes := (nodes b')[i := cleared_node],
     free_list := free_list b' @ [i]\<rparr>"
  have fr: "i \<notin> set (free_list a)" using arena_wfD(6) [OF wf] i(1) by (auto simp: free_wf_def)
  have ib: "i < length (nodes a)" by (rule live_bound [OF i(1)])
  have nd': "nd ?a' j = (if j = i then cleared_node else nd b' j)" for j
    using ib b'(2) b(1) by (simp add: nd_def)
  show ?thesis
  proof (rule that [OF b'(1)])
    show "tombstone i (b'\<lparr>index := hm_remove (user_id (nd a i)) (index b')\<rparr>) = (Ok () :: (tree_error, unit) result, ?a')"
      using fr ib b' b by (simp add: tombstone_def)
    have "hm_ok (index a)" using arena_wfD(1) [OF wf] by (simp add: index_wf_def)
    moreover have "nd ?a' j = nd a j" if "j \<noteq> i" "\<not> live a j" for j
    proof -
      have "bequests a [i] j = []"
        using that(2) heir_Some(1) [OF wf i(1), of "{i}" j] by (auto simp: bequests_def)
      with that nd' b(7) arena_wfD(5) [OF wf] show ?thesis
        by (simp add: b'(6) tombs_wf_def)
    qed
    moreover have "distinct (free_list a)" using arena_wfD(6) [OF wf] by (simp add: free_wf_def)
    ultimately show "unsponsored a ?a' [i]"
      using i fr nd' b b' by (simp add: unsponsored_def inherited_def)
    show "par ?a' j = par b j \<and> kds ?a' j = kds b j \<and> depth (nd ?a' j) = depth (nd b j) \<and>
        enrolled_at (nd ?a' j) = enrolled_at (nd b j)" if "j \<noteq> i" for j
      unfolding nd' using that by (simp add: b'(6))
  qed (simp add: b'(5))
qed

lemma detach_one:
  assumes wf: "arena_wf a" and i: "live a i" "kds a i = []" and un: "unsponsored a a' [i]"
    and pl: "\<And>j. j \<noteq> i \<Longrightarrow> par a' j = par a j \<and> depth (nd a' j) = depth (nd a j) \<and>
       enrolled_at (nd a' j) = enrolled_at (nd a j) \<and> kds a' j = filter (\<lambda>k. k \<noteq> i) (kds a j)"
    and r: "root a' = (if root a = Some i then None else root a)"
  shows "detached a a' [i]"
  using un i(2) pl r by (auto simp: detached_def split: option.split)

text \<open>
  The steps the trees share once a leaf has left its parent: it leaves its sponsor, the root is
  reset if it was the leaf, its recruits are handed over and its slot is freed.
\<close>

abbreviation retain_sponsored :: "node_index option \<Rightarrow> node_index \<Rightarrow> (arena, 'e, unit) sm" where
  "retain_sponsored so i \<equiv> (case so of None \<Rightarrow> sret ()
     | Some s \<Rightarrow> arena_node_mut s (\<lambda>m. m\<lparr>sponsored := filter (\<lambda>c. c \<noteq> i) (sponsored m)\<rparr>))"

lemma retain_sponsored_steps:
  assumes wf: "arena_wf a" and i: "live a i"
    and b: "length (nodes b) = length (nodes a)" "\<And>j. spd b j = spd a j"
      "\<And>j. user_id (nd b j) = user_id (nd a j)"
  obtains b' where "retain_sponsored (spn a i) i b = (Ok (), b')"
    "length (nodes b') = length (nodes b)" "index b' = index b" "free_list b' = free_list b" "root b' = root b"
    "\<And>j. nd b' j = (nd b j)\<lparr>sponsored := filter (\<lambda>c. c \<noteq> i) (spd a j)\<rparr>"
proof -
  define b' where "b' = (case spn a i of None \<Rightarrow> b
    | Some s \<Rightarrow> upd_node s (\<lambda>m. m\<lparr>sponsored := filter (\<lambda>c. c \<noteq> i) (sponsored m)\<rparr>) b)"
  show ?thesis
  proof (rule that)
    show "retain_sponsored (spn a i) i b = (Ok (), b')"
      using spn_live [OF wf i] b(3)
      by (auto simp: b'_def outcome_simps arena_node_mut_upd live_def split: option.split)
    show "nd b' j = (nd b j)\<lparr>sponsored := filter (\<lambda>c. c \<noteq> i) (spd a j)\<rparr>" for j
      by (rule leave_sponsor [OF wf i b(1,2) b'_def [symmetric]])
  qed (simp_all add: b'_def split: option.split)
qed

lemma detach_steps:
  assumes wf: "arena_wf a" and i: "live a i" "kds a i = []" "removable a {i}"
    and b1: "\<And>j. nd b1 j = (nd a j)\<lparr>children := filter (\<lambda>c. c \<noteq> i) (kds a j)\<rparr>"
    and f1: "length (nodes b1) = length (nodes a)" "index b1 = index a" "free_list b1 = free_list a"
      "root b1 = root a"
  obtains b2 b3 a' where "live b1 i" "spn b1 i = spn a i"
    "retain_sponsored (spn a i) i b1 = (Ok () :: (tree_error, unit) result, b2)" "root b2 = root a"
    "reparent_sponsored [i] (if root a = Some i then b2\<lparr>root := None\<rparr> else b2) = (Ok (handovers a [i]), b3)"
    "tombstone i (b3\<lparr>index := hm_remove (user_id (nd a i)) (index b3)\<rparr>) = (Ok () :: (tree_error, unit) result, a')"
    "detached a a' [i]"
proof -
  obtain b2 where b2: "retain_sponsored (spn a i) i b1 = (Ok () :: (tree_error, unit) result, b2)"
    "length (nodes b2) = length (nodes b1)" "index b2 = index b1" "free_list b2 = free_list b1" "root b2 = root b1"
    "\<And>j. nd b2 j = (nd b1 j)\<lparr>sponsored := filter (\<lambda>c. c \<noteq> i) (spd a j)\<rparr>"
    by (rule retain_sponsored_steps [OF wf i(1) f1(1)]) (auto simp: b1)
  define b where "b = (if root a = Some i then b2\<lparr>root := None\<rparr> else b2)"
  have b: "nd b j = (nd a j)\<lparr>children := filter (\<lambda>c. c \<noteq> i) (kds a j),
      sponsored := filter (\<lambda>c. c \<noteq> i) (spd a j)\<rparr>" for j
    by (simp add: b_def b1 b2(6))
  have f: "length (nodes b) = length (nodes a)" "index b = index a" "free_list b = free_list a"
    "root b = (if root a = Some i then None else root a)" using b2 f1 by (simp_all add: b_def)
  have v: "\<And>j. spn b j = spn a j" "\<And>j. user_id (nd b j) = user_id (nd a j)"
    "\<And>j. spd b j = filter (\<lambda>s. s \<noteq> i) (spd a j)" "\<forall>j. \<not> live a j \<longrightarrow> nd b j = nd a j"
    using arena_wfD(5) [OF wf] by (simp_all add: b tombs_wf_def)
  obtain b3 a' where b3: "reparent_sponsored [i] b = (Ok (handovers a [i]), b3)"
    "tombstone i (b3\<lparr>index := hm_remove (user_id (nd a i)) (index b3)\<rparr>) = (Ok () :: (tree_error, unit) result, a')"
    "unsponsored a a' [i]" "root a' = root b"
    "\<And>j. j \<noteq> i \<Longrightarrow> par a' j = par b j \<and> kds a' j = kds b j \<and>
       depth (nd a' j) = depth (nd b j) \<and> enrolled_at (nd a' j) = enrolled_at (nd b j)"
    by (rule unsponsor_one [OF wf i(1,3) f(1,2,3) v]) blast
  show ?thesis
  proof (rule that [OF _ _ b2(1) _ b3(1,2) [unfolded b_def]])
    show "detached a a' [i]" using detach_one [OF wf i(1,2) b3(3)] b3(4,5) f(4) b by simp
  qed (use i(1) f1 b2 in \<open>simp_all add: b1 live_def\<close>)
qed

end
