(* ===== verification/Genealogy.thy ===== *)
theory Genealogy
  imports Arena_Ops
begin

text \<open>
  The abstract state the trees promise to their users: who is a member, who is placed under whom
  and in which order, who recruited whom. Slots, the free list and the index do not appear.
  \<open>genealogy_of\<close> abstracts an arena; attaching and detaching refine \<open>g_join\<close> and \<open>g_leave\<close>, and
  the queries refine walks over the abstract maps.
\<close>

record genealogy =
  g_members :: "uuid set"
  g_parent :: "uuid \<Rightarrow> uuid option"
  g_children :: "uuid \<Rightarrow> uuid list"
  g_sponsor :: "uuid \<Rightarrow> uuid option"
  g_recruits :: "uuid \<Rightarrow> uuid list"
  g_depth :: "uuid \<Rightarrow> nat"
  g_enrolled :: "uuid \<Rightarrow> i64"

definition g_empty :: genealogy where
  "g_empty = \<lparr>g_members = {}, g_parent = \<lambda>_. None, g_children = \<lambda>_. [], g_sponsor = \<lambda>_. None,
     g_recruits = \<lambda>_. [], g_depth = \<lambda>_. 0, g_enrolled = \<lambda>_. 0\<rparr>"

text \<open>A new member without children or recruits; \<open>cs\<close> are the children its parent then has.\<close>

definition g_join :: "uuid \<Rightarrow> uuid option \<Rightarrow> uuid list \<Rightarrow> uuid option \<Rightarrow> i64 \<Rightarrow> genealogy \<Rightarrow> genealogy" where
  "g_join u po cs so at g = \<lparr>g_members = insert u (g_members g),
     g_parent = (g_parent g)(u := po),
     g_children = (\<lambda>v. if v = u then [] else if po = Some v then cs else g_children g v),
     g_sponsor = (g_sponsor g)(u := so),
     g_recruits = (\<lambda>v. if v = u then [] else if so = Some v then g_recruits g v @ [u] else g_recruits g v),
     g_depth = (g_depth g)(u := case po of None \<Rightarrow> 0 | Some p \<Rightarrow> Suc (g_depth g p)),
     g_enrolled = (g_enrolled g)(u := at)\<rparr>"

text \<open>A member without children leaves; its recruits go to its sponsor, behind the recruits there.\<close>

definition g_leave :: "uuid \<Rightarrow> genealogy \<Rightarrow> genealogy" where
  "g_leave u g = \<lparr>g_members = g_members g - {u},
     g_parent = (g_parent g)(u := None),
     g_children = (\<lambda>v. if v = u then [] else filter (\<lambda>w. w \<noteq> u) (g_children g v)),
     g_sponsor = (\<lambda>v. if v = u then None else if g_sponsor g v = Some u then g_sponsor g u else g_sponsor g v),
     g_recruits = (\<lambda>v. if v = u then [] else filter (\<lambda>w. w \<noteq> u) (g_recruits g v) @
        (if g_sponsor g u = Some v then g_recruits g u else [])),
     g_depth = (g_depth g)(u := 0), g_enrolled = (g_enrolled g)(u := 0)\<rparr>"

section \<open>Abstraction\<close>

definition node_at :: "arena \<Rightarrow> uuid \<Rightarrow> node" where
  "node_at a u = (case hm_get (index a) u of None \<Rightarrow> cleared_node | Some i \<Rightarrow> nd a i)"

abbreviation uid :: "arena \<Rightarrow> node_index \<Rightarrow> uuid" where
  "uid a i \<equiv> user_id (nd a i)"

definition genealogy_of :: "arena \<Rightarrow> genealogy" where
  "genealogy_of a = \<lparr>g_members = {u. hm_get (index a) u \<noteq> None},
     g_parent = (\<lambda>u. map_option (uid a) (parent (node_at a u))),
     g_children = (\<lambda>u. map (uid a) (children (node_at a u))),
     g_sponsor = (\<lambda>u. map_option (uid a) (sponsor (node_at a u))),
     g_recruits = (\<lambda>u. map (uid a) (sponsored (node_at a u))),
     g_depth = (\<lambda>u. unat (depth (node_at a u))),
     g_enrolled = (\<lambda>u. enrolled_at (node_at a u))\<rparr>"

lemma genealogy_of_new: "genealogy_of arena_new = g_empty"
  by (simp add: genealogy_of_def g_empty_def arena_new_def node_at_def cleared_node_def)

text \<open>Agreement on one identifier.\<close>

definition g_agree :: "genealogy \<Rightarrow> genealogy \<Rightarrow> uuid \<Rightarrow> bool" where
  "g_agree g h u \<longleftrightarrow> g_parent g u = g_parent h u \<and> g_children g u = g_children h u \<and>
     g_sponsor g u = g_sponsor h u \<and> g_recruits g u = g_recruits h u \<and>
     g_depth g u = g_depth h u \<and> g_enrolled g u = g_enrolled h u"

lemma genealogy_eqI:
  assumes "\<And>u. g_agree g h u" "g_members g = g_members h"
  shows "g = (h :: genealogy)"
  using assms by (intro genealogy.equality) (auto simp: g_agree_def fun_eq_iff)

lemma node_at_uid: "arena_wf a \<Longrightarrow> live a i \<Longrightarrow> node_at a (uid a i) = nd a i"
  by (simp add: node_at_def live_indexed)

lemma node_at_index: "hm_get (index a) u = Some i \<Longrightarrow> node_at a u = nd a i"
  by (simp add: node_at_def)

lemma node_at_None: "hm_get (index a) u = None \<Longrightarrow> node_at a u = cleared_node"
  by (simp add: node_at_def)

text \<open>Identifiers name slots one to one.\<close>

lemma uid_eq_iff: "arena_wf a \<Longrightarrow> live a i \<Longrightarrow> uid a i = uid a j \<longleftrightarrow> i = j"
  using user_id_inj by blast

lemma uid_listed: "arena_wf a \<Longrightarrow> live a i \<Longrightarrow> uid a i \<in> uid a ` set xs \<longleftrightarrow> i \<in> set xs"
  by (induction xs) (simp_all add: uid_eq_iff)

lemma named_iff:
  assumes wf: "arena_wf a" and v: "hm_get (index a) v = Some k" and x: "\<And>j. x = Some j \<Longrightarrow> live a j"
  shows "map_option (uid a) x = Some v \<longleftrightarrow> x = Some k"
proof (cases x)
  case (Some j)
  then have "uid a j = v \<longleftrightarrow> j = k"
    using uid_eq_iff [OF wf x [OF Some], of k] index_live(2) [OF wf v] by simp
  with Some show ?thesis by simp
qed simp

section \<open>Joining\<close>

lemma attached_genealogy:
  assumes wf: "arena_wf a" and att: "attached a a' i n cs"
  shows "genealogy_of a' = g_join (user_id n) (map_option (uid a) (parent n))
     (map (\<lambda>j. if j = i then user_id n else uid a j) cs)
     (map_option (uid a) (sponsor n)) (enrolled_at n) (genealogy_of a)"
    (is "_ = g_join ?u _ ?cs _ _ _")
proof -
  note D = attachedD [OF att]
  have uid': "uid a' j = (if j = i then ?u else uid a j)" for j
    using D(7) D(8) [of j] by simp
  have same: "map (uid a') (kds a k) = map (uid a) (kds a k)"
    "map (uid a') (spd a k) = map (uid a) (spd a k)"
    "map_option (uid a') (par a k) = map_option (uid a) (par a k)"
    "map_option (uid a') (spn a k) = map_option (uid a) (spn a k)" if "live a k" for k
    using that D(1) kds_live [OF wf that] spd_live [OF wf that] par_live [OF wf that] spn_live [OF wf that]
    by (auto simp: uid' intro!: map_option_cong)
  have at_u: "node_at a' ?u = n" using D(6,7) by (simp add: node_at_def)
  have at_k: "node_at a' v = (nd a k)
      \<lparr>children := if parent n = Some k then cs else kds a k,
       sponsored := if sponsor n = Some k then spd a k @ [i] else spd a k\<rparr> \<and> node_at a v = nd a k \<and> live a k"
    if "v \<noteq> ?u" "hm_get (index a) v = Some k" for v k
  proof -
    have k: "live a k" by (rule index_live(1) [OF wf that(2)])
    with D(1) have "k \<noteq> i" by auto
    with D(8) [OF this] that D(6) k show ?thesis by (simp add: node_at_def)
  qed
  have at_no: "node_at a' v = cleared_node \<and> node_at a v = cleared_node"
    if "v \<noteq> ?u" "hm_get (index a) v = None" for v
    using that D(6) by (simp add: node_at_def)
  have links: "live a k" if "parent n = Some k \<or> sponsor n = Some k" for k
    using that D(12) [of k] D(14) [of k] by auto
  have new_links: "map_option (uid a') (parent n) = map_option (uid a) (parent n)"
    "map_option (uid a') (sponsor n) = map_option (uid a) (sponsor n)"
    using links [of i] D(1) by (auto simp: uid' intro!: map_option_cong)
  let ?J = "g_join ?u (map_option (uid a) (parent n)) ?cs (map_option (uid a) (sponsor n))
     (enrolled_at n) (genealogy_of a)"
  have "g_agree (genealogy_of a') ?J v" for v
  proof (cases "v = ?u")
    case True
    show ?thesis
    proof (cases "parent n")
      case None
      with True at_u D(4,5,13) new_links show ?thesis by (simp add: g_agree_def genealogy_of_def g_join_def)
    next
      case (Some p)
      with True at_u D(4,5) D(12) [OF Some] new_links show ?thesis
        by (simp add: g_agree_def genealogy_of_def g_join_def node_at_uid [OF wf])
    qed
  next
    case False
    show ?thesis
    proof (cases "hm_get (index a) v")
      case None
      have "map_option (uid a) x \<noteq> Some v" if "\<And>j. x = Some j \<Longrightarrow> live a j" for x
        using None that live_indexed [OF wf] by (cases x) auto
      with at_no [OF False None] False links show ?thesis
        by (auto simp: g_agree_def genealogy_of_def g_join_def)
    next
      case (Some k)
      with at_k [OF False Some] False same [of k] named_iff [OF wf Some] links uid' show ?thesis
        by (auto simp: g_agree_def genealogy_of_def g_join_def)
    qed
  qed
  moreover have "g_members (genealogy_of a') = g_members ?J"
    using D(6) by (auto simp: genealogy_of_def g_join_def)
  ultimately show ?thesis by (intro genealogy_eqI)
qed

lemma child_genealogy:
  assumes "arena_wf a" "attached a a' i (child_node user p so d at) cs"
  shows "genealogy_of a' = g_join user (Some (uid a p)) (map (\<lambda>j. if j = i then user else uid a j) cs)
     (map_option (uid a) so) at (genealogy_of a)"
  using attached_genealogy [OF assms, unfolded node.select_convs] by simp

lemma root_genealogy:
  assumes "arena_wf a" "attached a a' i (root_node user at) []"
  shows "genealogy_of a' = g_join user None [] None at (genealogy_of a)"
  using attached_genealogy [OF assms] by simp

section \<open>Leaving\<close>

lemma heir_single:
  assumes wf: "arena_wf a" and i: "live a i" and k: "live a k"
  shows "heir a {i} k = (if spn a k = Some i then spn a i else spn a k)"
proof -
  have "spn a i \<noteq> Some i" using sponsorship.up_rank [OF wf, of i i] i by auto
  then have "heir a {i} i = spn a i" by (auto simp: heir_unfold [OF wf i] split: option.splits)
  then show ?thesis by (auto simp: heir_unfold [OF wf k] split: option.splits)
qed

lemma survivors_single:
  assumes wf: "arena_wf a" and i: "live a i"
  shows "survivors a {i} i = spd a i"
proof -
  have "spn a i \<noteq> Some i" using sponsorship.up_rank [OF wf, of i i] i by auto
  then have "i \<notin> set (spd a i)" using set_spd_iff [OF wf i] by blast
  then show ?thesis unfolding survivors_def by (intro filter_True) auto
qed

lemma inherited_single:
  assumes wf: "arena_wf a" and i: "live a i"
  shows "inherited a [i] k = filter (\<lambda>s. s \<noteq> i) (spd a k) @ (if spn a i = Some k then spd a i else [])"
proof -
  have "spn a i \<noteq> Some i" using sponsorship.up_rank [OF wf, of i i] i by auto
  then show ?thesis
    by (simp add: inherited_def bequests_def heir_single [OF wf i i] survivors_single [OF wf i])
qed

text \<open>The report of a single removal: every recruit, with the sponsor it goes to.\<close>

lemma handovers_single:
  assumes wf: "arena_wf a" and i: "live a i" and rem: "removable a {i}"
  shows "map rs_user_id (handovers a [i]) = g_recruits (genealogy_of a) (uid a i)"
    "\<forall>m \<in> set (handovers a [i]). g_sponsor (genealogy_of a) (uid a i) = Some (rs_new_sponsor_id m)"
proof -
  have h: "handovers a [i] = map (handover a (the (spn a i))) (spd a i)"
    using survivors_single [OF wf i] by (auto simp: handovers_def heir_single [OF wf i i])
  then show "map rs_user_id (handovers a [i]) = g_recruits (genealogy_of a) (uid a i)"
    by (simp add: genealogy_of_def node_at_uid [OF wf i])
  have "spd a i \<noteq> [] \<Longrightarrow> spn a i \<noteq> None"
    using rem survivors_single [OF wf i] by (auto simp: removable_def heir_single [OF wf i i] split: if_splits)
  then show "\<forall>m \<in> set (handovers a [i]). g_sponsor (genealogy_of a) (uid a i) = Some (rs_new_sponsor_id m)"
    by (cases "spn a i") (auto simp: h genealogy_of_def node_at_uid [OF wf i])
qed

lemma map_uid_filter:
  assumes "arena_wf a" "live a i" "\<forall>j \<in> set xs. live a j"
  shows "map (uid a) (filter (\<lambda>j. j \<noteq> i) xs) = filter (\<lambda>w. w \<noteq> uid a i) (map (uid a) xs)"
  using assms(3) uid_eq_iff [OF assms(1)] by (induction xs) (auto simp: uid_eq_iff [OF assms(1)])

lemma detached_agree:
  assumes wf: "arena_wf a" and de: "detached a a' [i]" and v: "hm_get (index a) v = Some k" and ki: "k \<noteq> i"
  shows "g_agree (genealogy_of a') (g_leave (uid a i) (genealogy_of a)) v"
proof -
  note D = detachedD [OF de] and U = unsponsoredD [OF detachedD(1) [OF de]]
  have i: "live a i" using U(2) by simp
  note k = index_live(1,2) [OF wf v] and u = live_indexed [OF wf i]
  have kR: "k \<notin> set [i]" using ki by simp
  have uid': "uid a' j = uid a j" if "j \<noteq> i" for j using U(7) [of j] that by simp
  have map': "map (uid a') xs = map (uid a) xs" if "i \<notin> set xs" for xs
    using that by (intro map_cong [OF refl] uid') auto
  have vu: "v \<noteq> uid a i" using uid_eq_iff [OF wf i, of k] k(2) ki by auto
  have "hm_get (index a') v = Some k" using U(5) v vu by simp
  note at = node_at_index [OF this] node_at_index [OF v] node_at_uid [OF wf i]
  have "map_option (uid a') (par a' k) = map_option (uid a) (par a k)"
    using D(3) [OF kR] detached_parent_stays [OF wf de k(1) kR] uid' by (auto intro!: map_option_cong)
  moreover have "map (uid a') (kds a' k) = filter (\<lambda>w. w \<noteq> uid a i) (map (uid a) (kds a k))"
    using D(5) [OF kR] map' [of "filter (\<lambda>j. j \<noteq> i) (kds a k)"] map_uid_filter [OF wf i, of "kds a k"]
      kds_live [OF wf k(1)] by simp
  moreover have "map_option (uid a') (spn a' k) = map_option (uid a) (if spn a k = Some i then spn a i else spn a k)"
  proof -
    have "map_option (uid a') (heir a {i} k) = map_option (uid a) (heir a {i} k)"
    proof (cases "heir a {i} k")
      case (Some t)
      with heir_Some(2) [OF wf k(1) Some] uid' show ?thesis by simp
    qed simp
    then show ?thesis using U(8) [OF kR k(1)] by (simp add: heir_single [OF wf i k(1)])
  qed
  moreover have "map (uid a') (spd a' k) = filter (\<lambda>w. w \<noteq> uid a i) (map (uid a) (spd a k)) @
      (if spn a i = Some k then map (uid a) (spd a i) else [])"
  proof -
    have "i \<notin> set (inherited a [i] k)"
      using set_inherited [OF wf U(2) k(1) kR] by simp
    from map' [OF this] show ?thesis
      using U(9) [OF kR k(1)] map_uid_filter [OF wf i, of "spd a k"] spd_live [OF wf k(1)]
      by (simp add: inherited_single [OF wf i])
  qed
  moreover have "map_option (uid a) (spn a k) = Some (uid a i) \<longleftrightarrow> spn a k = Some i"
    by (rule named_iff [OF wf u spn_live [OF wf k(1)]])
  moreover have "map_option (uid a) (spn a i) = Some v \<longleftrightarrow> spn a i = Some k"
    by (rule named_iff [OF wf v spn_live [OF wf i]])
  ultimately show ?thesis
    using at vu D(4) [OF kR] D(7) [OF kR] by (simp add: g_agree_def genealogy_of_def g_leave_def)
qed

lemma detached_genealogy:
  assumes wf: "arena_wf a" and de: "detached a a' [i]"
  shows "genealogy_of a' = g_leave (uid a i) (genealogy_of a)"
proof -
  note D = detachedD [OF de] and U = unsponsoredD [OF detachedD(1) [OF de]]
  have i: "live a i" using U(2) by simp
  have uid': "uid a' j = uid a j" if "j \<noteq> i" for j using U(7) [of j] that by simp
  let ?u = "uid a i" and ?G = "genealogy_of a"
  have "g_agree (genealogy_of a') (g_leave ?u ?G) v" for v
  proof (cases "hm_get (index a) v")
    case None
    have "v \<noteq> ?u" using None live_indexed [OF wf i] by auto
    moreover have "map_option (uid a) (spn a i) \<noteq> Some v"
      using None live_indexed [OF wf] spn_live [OF wf i] by auto
    ultimately show ?thesis using None U(5)
      by (auto simp: g_agree_def genealogy_of_def g_leave_def node_at_None node_at_uid [OF wf i])
  next
    case (Some k)
    note k = index_live(1,2) [OF wf Some]
    show ?thesis
    proof (cases "k = i")
      case True
      then show ?thesis using U(5) Some k(2)
        by (auto simp: g_agree_def genealogy_of_def g_leave_def node_at_None cleared_node_def)
    next
      case False
      then show ?thesis by (rule detached_agree [OF wf de Some])
    qed
  qed
  moreover have "g_members (genealogy_of a') = g_members (g_leave ?u ?G)"
    using U(5) by (auto simp: genealogy_of_def g_leave_def)
  ultimately show ?thesis by (intro genealogy_eqI)
qed

section \<open>Queries\<close>

text \<open>\<open>answers r us\<close>: the query returns nodes, and they are the members \<open>us\<close> in this order.\<close>

definition answers :: "(tree_error, node list) result \<Rightarrow> uuid list \<Rightarrow> bool" where
  "answers r us \<longleftrightarrow> (\<exists>ns. r = Ok ns \<and> map user_id ns = us)"

lemma answers_Ok [simp]: "answers (Ok ns) us \<longleftrightarrow> map user_id ns = us"
  by (auto simp: answers_def)

lemma g_parent_uid: "arena_wf a \<Longrightarrow> live a i \<Longrightarrow> g_parent (genealogy_of a) (uid a i) = map_option (uid a) (par a i)"
  by (simp add: genealogy_of_def node_at_uid)

lemma g_sponsor_uid: "arena_wf a \<Longrightarrow> live a i \<Longrightarrow> g_sponsor (genealogy_of a) (uid a i) = map_option (uid a) (spn a i)"
  by (simp add: genealogy_of_def node_at_uid)

lemma g_children_uid: "arena_wf a \<Longrightarrow> live a i \<Longrightarrow> g_children (genealogy_of a) (uid a i) = map (uid a) (kds a i)"
  by (simp add: genealogy_of_def node_at_uid)

lemma g_recruits_uid: "arena_wf a \<Longrightarrow> live a i \<Longrightarrow> g_recruits (genealogy_of a) (uid a i) = map (uid a) (spd a i)"
  by (simp add: genealogy_of_def node_at_uid)

lemma g_depth_uid: "arena_wf a \<Longrightarrow> live a i \<Longrightarrow> g_depth (genealogy_of a) (uid a i) = dep a i"
  by (simp add: genealogy_of_def node_at_uid)

lemma parent_chain_uid:
  assumes "arena_wf a" "live a i"
  shows "chain (g_parent (genealogy_of a)) n (uid a i) = map (uid a) (chain (par a) n i)"
  by (rule chain_rename [where P = "live a"])
     (use assms par_live g_parent_uid in auto)

lemma sponsor_chain_uid:
  assumes "arena_wf a" "live a i"
  shows "chain (g_sponsor (genealogy_of a)) n (uid a i) = map (uid a) (chain (spn a) n i)"
  by (rule chain_rename [where P = "live a"])
     (use assms spn_live g_sponsor_uid in auto)

lemma level_order_uid:
  assumes "arena_wf a" "live a i"
  shows "level_order (g_children (genealogy_of a)) n (uid a i) = map (uid a) (level_order (kds a) n i)"
  by (rule level_order_rename [where P = "live a"])
     (use assms kds_live g_children_uid in auto)

lemma member_slot:
  assumes "arena_wf a" "u \<in> g_members (genealogy_of a)"
  obtains i where "resolve a u = Ok i" "live a i" "uid a i = u"
  using assms index_live [OF assms(1), of u] by (auto simp: genealogy_of_def resolve_def)

lemma stranger: "u \<notin> g_members (genealogy_of a) \<longleftrightarrow> resolve a u = Err (UserNotFound u)"
  by (auto simp: genealogy_of_def resolve_def)

lemma card_members: "arena_wf a \<Longrightarrow> card (g_members (genealogy_of a)) = card (live_set a)"
proof (rule bij_betw_same_card [of "\<lambda>u. the (hm_get (index a) u)"], rule bij_betw_byWitness [where f' = "uid a"])
  assume wf: "arena_wf a"
  show "\<forall>u \<in> g_members (genealogy_of a). uid a (the (hm_get (index a) u)) = u"
    "(\<lambda>u. the (hm_get (index a) u)) ` g_members (genealogy_of a) \<subseteq> live_set a"
    using index_live [OF wf] by (auto simp: genealogy_of_def)
  show "\<forall>i \<in> live_set a. the (hm_get (index a) (uid a i)) = i" "uid a ` live_set a \<subseteq> g_members (genealogy_of a)"
    using live_indexed [OF wf] by (auto simp: genealogy_of_def)
qed

lemma upline_answers:
  assumes wf: "arena_wf a" and u: "u \<in> g_members (genealogy_of a)"
  shows "answers (nav_get_upline a u d) (chain (g_parent (genealogy_of a))
     (if d = 0 then g_depth (genealogy_of a) u else unat d) u)"
proof -
  obtain i where i: "resolve a u = Ok i" "live a i" "uid a i = u" by (rule member_slot [OF assms])
  then show ?thesis
    using parent_chain_uid [OF wf i(2)] g_depth_uid [OF wf i(2)]
    by (simp add: nav_get_upline_def walk_upline_eq [OF wf])
qed

lemma sponsor_upline_answers:
  assumes wf: "arena_wf a" and u: "u \<in> g_members (genealogy_of a)" and "length (nodes a) \<le> 2 ^ 32"
  shows "answers (nav_get_sponsor_upline a u d) (chain (g_sponsor (genealogy_of a))
     (if d = 0 then card (g_members (genealogy_of a)) else unat d) u)"
proof -
  obtain i where i: "resolve a u = Ok i" "live a i" "uid a i = u" by (rule member_slot [OF assms(1,2)])
  then show ?thesis
    using sponsor_chain_uid [OF wf i(2)] card_members [OF wf]
    by (simp add: nav_get_sponsor_upline_def walk_sponsor_upline_eq [OF wf _ assms(3)])
qed

text \<open>The members below \<open>u\<close>, breadth first, \<open>d\<close> levels deep or all of them for \<open>d = 0\<close>.\<close>

definition g_downline :: "genealogy \<Rightarrow> uuid \<Rightarrow> u32 \<Rightarrow> uuid list" where
  "g_downline g u d = level_order (g_children g) (if d = 0 then card (g_members g) else unat d) u"

lemma downline_uid:
  assumes "arena_wf a" "live a i"
  shows "g_downline (genealogy_of a) (uid a i) d = map (uid a) (downline a i d)"
proof -
  have "level (kds a) (Suc (card (live_set a))) i = []"
    using placement.level_vanishes [OF assms(1), of i] assms(2) by simp
  then have "level_order (kds a) (length (nodes a)) i = level_order (kds a) (card (live_set a)) i"
    by (rule level_order_stop [OF _ card_live])
  then show ?thesis
    using level_order_uid [OF assms] card_members [OF assms(1)] by (simp add: g_downline_def downline_def)
qed

lemma downline_answers:
  assumes wf: "arena_wf a" and u: "u \<in> g_members (genealogy_of a)"
  shows "answers (nav_get_downline a u d) (g_downline (genealogy_of a) u d)"
    "nav_count_downline a u d = Ok (length (g_downline (genealogy_of a) u d))"
proof -
  obtain i where i: "resolve a u = Ok i" "live a i" "uid a i = u" by (rule member_slot [OF assms])
  then show "answers (nav_get_downline a u d) (g_downline (genealogy_of a) u d)"
    "nav_count_downline a u d = Ok (length (g_downline (genealogy_of a) u d))"
    using downline_uid [OF wf i(2), of d]
    by (simp_all add: nav_get_downline_def nav_count_downline_def bfs_downline_eq [OF wf] count_downline_eq [OF wf])
qed

lemma children_answers:
  assumes wf: "arena_wf a" and u: "u \<in> g_members (genealogy_of a)"
  shows "answers (nav_get_children a u) (g_children (genealogy_of a) u)"
    "answers (nav_get_sponsored a u) (g_recruits (genealogy_of a) u)"
proof -
  obtain i where i: "resolve a u = Ok i" "live a i" "uid a i = u" by (rule member_slot [OF assms])
  have "map_res (arena_node a) (kds a i) = (Ok (map (nd a) (kds a i)) :: (tree_error, node list) result)"
    by (rule map_res_Ok) (use kds_live [OF wf i(2)] in simp)
  with i g_children_uid [OF wf i(2)] show "answers (nav_get_children a u) (g_children (genealogy_of a) u)"
    by (simp add: nav_get_children_def)
  have "map_res (index_at (nodes a)) (spd a i) = (Ok (map (nd a) (spd a i)) :: (tree_error, node list) result)"
    by (rule map_res_Ok) (use spd_live [OF wf i(2)] in simp)
  with i g_recruits_uid [OF wf i(2)] show "answers (nav_get_sponsored a u) (g_recruits (genealogy_of a) u)"
    by (simp add: nav_get_sponsored_def get_sponsored_def)
qed

lemma parent_answers:
  assumes wf: "arena_wf a" and u: "u \<in> g_members (genealogy_of a)"
  shows "\<exists>x. nav_get_parent a u = Ok x \<and> map_option user_id x = g_parent (genealogy_of a) u"
    "\<exists>x. nav_get_sponsor a u = Ok x \<and> map_option user_id x = g_sponsor (genealogy_of a) u"
proof -
  obtain i where i: "resolve a u = Ok i" "live a i" "uid a i = u" by (rule member_slot [OF assms])
  show "\<exists>x. nav_get_parent a u = Ok x \<and> map_option user_id x = g_parent (genealogy_of a) u"
    using i g_parent_uid [OF wf i(2)] par_live [OF wf i(2)]
    by (cases "par a i") (auto simp: nav_get_parent_def)
  show "\<exists>x. nav_get_sponsor a u = Ok x \<and> map_option user_id x = g_sponsor (genealogy_of a) u"
    using i g_sponsor_uid [OF wf i(2)] spn_live [OF wf i(2)]
    by (cases "spn a i") (auto simp: nav_get_sponsor_def get_sponsor_def)
qed

lemma descendant_answers:
  assumes wf: "arena_wf a" and u: "u \<in> g_members (genealogy_of a)" and v: "v \<in> g_members (genealogy_of a)"
  shows "nav_is_descendant_of a u v = Ok (u \<in> set (g_downline (genealogy_of a) v 0))"
proof -
  obtain i where i: "resolve a u = Ok i" "live a i" "uid a i = u" by (rule member_slot [OF wf u])
  obtain j where j: "resolve a v = Ok j" "live a j" "uid a j = v" by (rule member_slot [OF wf v])
  have "u \<in> set (g_downline (genealogy_of a) v 0) \<longleftrightarrow> i \<in> set (downline a j 0)"
    using downline_uid [OF wf j(2), of 0] uid_listed [OF wf i(2)] i(3) j(3) by simp
  also have "\<dots> \<longleftrightarrow> j \<in> set (chain (par a) (length (nodes a)) i)"
    using placement.level_order_chain [OF wf, of j i "length (nodes a)"] i(2) j(2) card_live [of a]
    by (simp add: downline_def)
  also have "chain (par a) (length (nodes a)) i = chain (par a) (dep a i) i"
    using dep_bound [OF wf i(2)] card_live [of a] by (intro full_upline [OF wf i(2)]) simp
  finally have eq: "u \<in> set (g_downline (genealogy_of a) v 0) \<longleftrightarrow> j \<in> set (chain (par a) (dep a i) i)" .
  show ?thesis
  proof (cases "u = v")
    case True
    then have "i = j" using i j uid_eq_iff [OF wf i(2), of j] by simp
    with eq True j placement.chain_distinct [OF wf, of i] i(2) show ?thesis
      by (simp add: nav_is_descendant_of_def)
  next
    case False
    with eq i j show ?thesis by (simp add: nav_is_descendant_of_def is_descendant_of_eq [OF wf i(2)])
  qed
qed

end
