(* ===== verification/Positions.thy ===== *)
theory Positions
  imports Genealogy
begin

text \<open>
  What \<open>get_position\<close> promises of a member, stated on the abstract genealogy, so that one
  description serves the three trees: \<open>rows v\<close> lists the positions below \<open>v\<close>, \<open>None\<close> for an open
  one. The unilevel tree has a position per child, the other two have a fixed number.
\<close>

definition describes :: "genealogy \<Rightarrow> (uuid \<Rightarrow> uuid option list) \<Rightarrow> uuid \<Rightarrow> tree_position \<Rightarrow> bool" where
  "describes g rows u tp \<longleftrightarrow> tp_user_id tp = u \<and> tp_parent_user_id tp = g_parent g u \<and>
     tp_sponsor_user_id tp = g_sponsor g u \<and> unat (tp_depth tp) = g_depth g u \<and>
     tp_child_count tp = length (g_children g u) \<and> tp_enrolled_at tp = g_enrolled g u \<and>
     (case g_parent g u of None \<Rightarrow> tp_position tp = 0 | Some p \<Rightarrow> get_at (rows p) (tp_position tp) = Some (Some u)) \<and>
     (\<forall>k. hm_get (tp_downline_counts tp) k = map_option (\<lambda>s. case s of None \<Rightarrow> 0
        | Some c \<Rightarrow> length (g_downline g c 0)) (get_at (rows u) k))"

text \<open>Filling a map position by position.\<close>

lemma fold_positions:
  assumes "\<forall>x \<in> set xs. f x = Ok (g x)"
  shows "\<exists>m'. fold_res (\<lambda>(pos, x) m. bnd (f x) (\<lambda>k. Ok (hm_insert pos k m))) (enumerate n xs) m = Ok m' \<and>
     (\<forall>k. hm_get m' k = (if k < n then hm_get m k
        else case get_at xs (k - n) of Some x \<Rightarrow> Some (g x) | None \<Rightarrow> hm_get m k))"
  using assms
proof (induction xs arbitrary: n m)
  case (Cons x xs)
  from Cons.prems obtain m' where m': "fold_res (\<lambda>(pos, x) m. bnd (f x) (\<lambda>k. Ok (hm_insert pos k m)))
      (enumerate (Suc n) xs) (hm_insert n (g x) m) = Ok m'"
    "\<And>k. hm_get m' k = (if k < Suc n then hm_get (hm_insert n (g x) m) k
       else case get_at xs (k - Suc n) of Some x \<Rightarrow> Some (g x) | None \<Rightarrow> hm_get (hm_insert n (g x) m) k)"
    using Cons.IH [of "Suc n" "hm_insert n (g x) m"] by auto
  have "hm_get m' k = (if k < n then hm_get m k
      else case get_at (x # xs) (k - n) of Some x \<Rightarrow> Some (g x) | None \<Rightarrow> hm_get m k)" for k
    unfolding m'(2) by (auto simp: get_at_def nth_Cons' split: option.splits)
  with m'(1) Cons.prems show ?case by simp
qed (simp add: get_at_def)

lemma child_counts_eq:
  assumes "arena_wf a" "\<forall>c \<in> set cs. live a c"
  shows "\<exists>m. child_counts a cs = (Ok m :: ('e, (nat, nat) hmap) result) \<and>
     (\<forall>k. hm_get m k = map_option (\<lambda>c. length (downline a c 0)) (get_at cs k))"
proof -
  have "\<forall>c \<in> set cs. count_subtree a c = (Ok (length (downline a c 0)) :: ('e, nat) result)"
    using assms(2) by (simp add: count_subtree_eq [OF assms(1)])
  from fold_positions [OF this, where n = 0 and m = "[]"] show ?thesis
    by (simp add: child_counts_def map_option_case cong: option.case_cong)
qed

text \<open>The arena's own report: positions are indices into the children.\<close>

lemma get_position_arena:
  assumes wf: "arena_wf a" and i: "live a i"
  shows "\<exists>pos m. (get_position a i :: ('e, tree_position) result) = Ok \<lparr>tp_user_id = uid a i, tp_parent_user_id = map_option (uid a) (par a i),
       tp_sponsor_user_id = map_option (uid a) (spn a i), tp_position = pos, tp_depth = depth (nd a i),
       tp_child_count = length (kds a i), tp_downline_counts = m, tp_enrolled_at = enrolled_at (nd a i)\<rparr> \<and>
     (case par a i of None \<Rightarrow> pos = 0 | Some p \<Rightarrow> get_at (kds a p) pos = Some i) \<and>
     (\<forall>k. hm_get m k = map_option (\<lambda>c. length (downline a c 0)) (get_at (kds a i) k))"
proof -
  obtain m where m: "child_counts a (kds a i) = (Ok m :: ('e, (nat, nat) hmap) result)"
    "\<forall>k. hm_get m k = map_option (\<lambda>c. length (downline a c 0)) (get_at (kds a i) k)"
    using child_counts_eq [OF wf, of "kds a i"] kds_live [OF wf i] by blast
  have sp: "(case spn a i of None \<Rightarrow> Ok None | Some s \<Rightarrow> bnd (index_at (nodes a) s) (\<lambda>m. Ok (Some (user_id m)))) =
      (Ok (map_option (uid a) (spn a i)) :: ('e, uuid option) result)"
    using spn_live [OF wf i] by (auto split: option.split)
  show ?thesis
  proof (cases "par a i")
    case None
    with i m sp show ?thesis by (auto simp: get_position_def)
  next
    case (Some p)
    then have p: "live a p" by (rule par_live [OF wf i])
    have "i \<in> set (kds a p)" using Some arena_wfD(2) [OF wf] p i by (auto simp: links_wf_def)
    then obtain pos where "position (\<lambda>c. c = i) (kds a p) = Some pos"
      by (metis (mono_tags, lifting) not_None_eq position_None_iff)
    moreover from this have "get_at (kds a p) pos = Some i" by (auto simp: position_Some_iff get_at_def)
    ultimately show ?thesis using i p m sp Some by (auto simp: get_position_def)
  qed
qed

lemma get_at_map: "get_at (map f xs) k = map_option f (get_at xs k)"
  by (simp add: get_at_def)

text \<open>From slots to members: rows of slots that agree with the rows of members.\<close>

lemma describesI:
  assumes wf: "arena_wf a" and i: "live a i"
    and rows: "\<And>j. live a j \<Longrightarrow> rows (uid a j) = map (map_option (uid a)) (srows j)"
    and live: "\<And>c. Some c \<in> set (srows i) \<Longrightarrow> live a c"
    and pos: "case par a i of None \<Rightarrow> pos = 0 | Some p \<Rightarrow> get_at (srows p) pos = Some (Some i)"
    and counts: "\<And>k. hm_get m k = map_option (\<lambda>s. case s of None \<Rightarrow> 0 | Some c \<Rightarrow> length (downline a c 0)) (get_at (srows i) k)"
  shows "describes (genealogy_of a) rows (uid a i) \<lparr>tp_user_id = uid a i, tp_parent_user_id = map_option (uid a) (par a i),
       tp_sponsor_user_id = map_option (uid a) (spn a i), tp_position = pos, tp_depth = depth (nd a i),
       tp_child_count = length (kds a i), tp_downline_counts = m, tp_enrolled_at = enrolled_at (nd a i)\<rparr>"
proof -
  have "g_enrolled (genealogy_of a) (uid a i) = enrolled_at (nd a i)"
    by (simp add: genealogy_of_def node_at_uid [OF wf i])
  moreover have "map_option (\<lambda>s. case s of None \<Rightarrow> 0 | Some c \<Rightarrow> length (g_downline (genealogy_of a) c 0))
      (get_at (rows (uid a i)) k) = hm_get m k" for k
    using live downline_uid [OF wf, of _ 0] unfolding rows [OF i] counts
    by (auto simp: get_at_def split: option.split dest: nth_mem)
  moreover have "get_at (rows (uid a p)) pos = Some (Some (uid a i))" if "par a i = Some p" for p
    using that pos rows [OF par_live [OF wf i that]] by (simp add: get_at_map)
  ultimately show ?thesis
    using g_parent_uid [OF wf i] g_sponsor_uid [OF wf i] g_depth_uid [OF wf i] g_children_uid [OF wf i] pos
    unfolding describes_def by (auto split: option.splits)
qed

end
