(* ===== verification/Unilevel.thy ===== *)
theory Unilevel
  imports Positions
begin

text \<open>
  The unilevel tree of \<open>src/tree/unilevel.rs\<close>: an arena with unbounded width, in which a new
  child goes to the end of its parent's children. Every operation is total on well-formed trees:
  it either returns an error of its check and changes nothing, or succeeds and keeps the
  invariant.
\<close>

record unilevel_tree =
  ut_arena :: arena

definition unilevel_new :: unilevel_tree where
  "unilevel_new = \<lparr>ut_arena = arena_new\<rparr>"

abbreviation on_ut_arena :: "(arena, 'e, 'a) sm \<Rightarrow> (unilevel_tree, 'e, 'a) sm" where
  "on_ut_arena \<equiv> szoom ut_arena (\<lambda>a t. t\<lparr>ut_arena := a\<rparr>)"

section \<open>Operations\<close>

definition unilevel_check_add_root :: "unilevel_tree \<Rightarrow> uuid \<Rightarrow> (tree_error, unit) result" where
  "unilevel_check_add_root t user = bnd (check_user_id user) (\<lambda>_.
     if root (ut_arena t) \<noteq> None then Err RootAlreadyExists
     else if hm_contains (index (ut_arena t)) user then Err (UserAlreadyExists user)
     else Ok ())"

definition unilevel_add_root :: "uuid \<Rightarrow> i64 \<Rightarrow> (unilevel_tree, tree_error, node_index) sm" where
  "unilevel_add_root user at = sbind (sgets (\<lambda>t. unilevel_check_add_root t user)) (\<lambda>_.
     on_ut_arena (
       sbind (alloc_slot \<lparr>user_id = user, parent = None, children = [], sponsor = None,
         sponsored = [], depth = 0, enrolled_at = at\<rparr>) (\<lambda>idx.
       sbind (smodify (\<lambda>a. a\<lparr>index := hm_insert user idx (index a)\<rparr>)) (\<lambda>_.
       sbind (smodify (\<lambda>a. a\<lparr>root := Some idx\<rparr>)) (\<lambda>_.
       sret idx)))))"

definition unilevel_check_add_node ::
  "unilevel_tree \<Rightarrow> uuid \<Rightarrow> uuid \<Rightarrow> uuid \<Rightarrow> (tree_error, unit) result" where
  "unilevel_check_add_node t user parent_id sponsor_id = bnd (check_user_id user) (\<lambda>_.
     if hm_contains (index (ut_arena t)) user then Err (UserAlreadyExists user)
     else bnd (resolve (ut_arena t) parent_id) (\<lambda>_.
       bnd (resolve_sponsor (ut_arena t) sponsor_id) (\<lambda>_. Ok ())))"

definition unilevel_add_node ::
  "uuid \<Rightarrow> uuid \<Rightarrow> uuid \<Rightarrow> i64 \<Rightarrow> (unilevel_tree, tree_error, node_index) sm" where
  "unilevel_add_node user parent_id sponsor_id at =
     sbind (sgets (\<lambda>t. unilevel_check_add_node t user parent_id sponsor_id)) (\<lambda>_.
     on_ut_arena (
       sbind (sgets (\<lambda>a. resolve a parent_id)) (\<lambda>parent_idx.
       sbind (sgets (\<lambda>a. resolve a sponsor_id)) (\<lambda>sponsor_idx.
       sbind (sgets (\<lambda>a. arena_node a parent_idx)) (\<lambda>p.
       sbind (sgets (\<lambda>_. u32_add (depth p) 1)) (\<lambda>d.
       sbind (alloc_slot \<lparr>user_id = user, parent = Some parent_idx, children = [],
         sponsor = Some sponsor_idx, sponsored = [], depth = d, enrolled_at = at\<rparr>) (\<lambda>idx.
       sbind (smodify (\<lambda>a. a\<lparr>index := hm_insert user idx (index a)\<rparr>)) (\<lambda>_.
       sbind (arena_node_mut parent_idx (\<lambda>n. n\<lparr>children := children n @ [idx]\<rparr>)) (\<lambda>_.
       sbind (arena_node_mut sponsor_idx (\<lambda>n. n\<lparr>sponsored := sponsored n @ [idx]\<rparr>)) (\<lambda>_.
       sret idx))))))))))"

definition unilevel_check_remove_node :: "unilevel_tree \<Rightarrow> uuid \<Rightarrow> (tree_error, unit) result" where
  "unilevel_check_remove_node t user = bnd (resolve (ut_arena t) user) (\<lambda>idx.
     bnd (arena_node (ut_arena t) idx) (\<lambda>n.
     if 0 < length (children n) then Err (HasChildren user (length (children n)))
     else check_sponsored_removable (ut_arena t) [idx]))"

definition unilevel_remove_node :: "uuid \<Rightarrow> (unilevel_tree, tree_error, responsored list) sm" where
  "unilevel_remove_node user =
     sbind (sgets (\<lambda>t. unilevel_check_remove_node t user)) (\<lambda>_.
     on_ut_arena (
       sbind (sgets (\<lambda>a. resolve a user)) (\<lambda>idx.
       sbind (sgets (\<lambda>a. arena_node a idx)) (\<lambda>n.
       sbind (case parent n of None \<Rightarrow> sret ()
         | Some p \<Rightarrow> arena_node_mut p (\<lambda>m. m\<lparr>children := filter (\<lambda>c. c \<noteq> idx) (children m)\<rparr>)) (\<lambda>_.
       sbind (sgets (\<lambda>a. arena_node a idx)) (\<lambda>n.
       sbind (case sponsor n of None \<Rightarrow> sret ()
         | Some s \<Rightarrow> arena_node_mut s (\<lambda>m. m\<lparr>sponsored := filter (\<lambda>c. c \<noteq> idx) (sponsored m)\<rparr>)) (\<lambda>_.
       sbind (smodify (\<lambda>a. if root a = Some idx then a\<lparr>root := None\<rparr> else a)) (\<lambda>_.
       sbind (reparent_sponsored [idx]) (\<lambda>moved.
       sbind (smodify (\<lambda>a. a\<lparr>index := hm_remove user (index a)\<rparr>)) (\<lambda>_.
       sbind (tombstone idx) (\<lambda>_.
       sret moved)))))))))))"

definition unilevel_get_position :: "unilevel_tree \<Rightarrow> uuid \<Rightarrow> (tree_error, tree_position) result" where
  "unilevel_get_position t user = bnd (resolve (ut_arena t) user) (get_position (ut_arena t))"

definition unilevel_get_branch :: "unilevel_tree \<Rightarrow> uuid \<Rightarrow> nat \<Rightarrow> (tree_error, node list) result" where
  "unilevel_get_branch t user pos = bnd (resolve (ut_arena t) user) (\<lambda>idx. get_branch (ut_arena t) idx pos)"

definition unilevel_count_branch :: "unilevel_tree \<Rightarrow> uuid \<Rightarrow> nat \<Rightarrow> (tree_error, nat) result" where
  "unilevel_count_branch t user pos = bnd (resolve (ut_arena t) user) (\<lambda>idx. count_branch (ut_arena t) idx pos)"

section \<open>The checks\<close>

abbreviation unilevel_wf :: "unilevel_tree \<Rightarrow> bool" where
  "unilevel_wf t \<equiv> arena_wf (ut_arena t)"

lemma check_add_root_ok:
  "unilevel_check_add_root t user = Ok () \<longleftrightarrow>
     user \<noteq> nil_uuid \<and> root (ut_arena t) = None \<and> hm_get (index (ut_arena t)) user = None"
  by (auto simp: unilevel_check_add_root_def check_user_id_def)

lemma check_add_root_cases:
  "(\<exists>e. unilevel_check_add_root t user = Err e) \<or> unilevel_check_add_root t user = Ok ()"
  by (auto simp: unilevel_check_add_root_def check_user_id_def)

lemma resolve_cases: "(\<exists>i. resolve a user = Ok i) \<or> resolve a user = Err (UserNotFound user)"
  by (cases "hm_get (index a) user") (auto simp: resolve_def)

lemma check_add_node_ok:
  "unilevel_check_add_node t user p s = Ok () \<longleftrightarrow>
     user \<noteq> nil_uuid \<and> hm_get (index (ut_arena t)) user = None \<and>
     hm_get (index (ut_arena t)) p \<noteq> None \<and> hm_get (index (ut_arena t)) s \<noteq> None"
  by (auto simp: unilevel_check_add_node_def check_user_id_def resolve_def resolve_sponsor_def)

lemma check_add_node_cases:
  "(\<exists>e. unilevel_check_add_node t user p s = Err e) \<or> unilevel_check_add_node t user p s = Ok ()"
  using resolve_cases [of "ut_arena t" p] resolve_cases [of "ut_arena t" s]
  by (auto simp: unilevel_check_add_node_def check_user_id_def resolve_sponsor_def)

lemma check_removable_cases:
  assumes "arena_wf a" "live a i"
  shows "(\<exists>e. check_sponsored_removable a [i] = Err e) \<or> check_sponsored_removable a [i] = Ok ()"
  using assms by (auto simp: check_sponsored_removable_def check_removable_one_eq)

section \<open>Insertions\<close>

lemma unilevel_add_root_ok:
  assumes "unilevel_wf t" "unilevel_check_add_root t user = Ok ()"
  obtains t' n where "unilevel_add_root user at t = (Ok (next_slot (ut_arena t)), t')"
    "attached (ut_arena t) (ut_arena t') (next_slot (ut_arena t)) (root_node user at) []"
proof -
  let ?a = "ut_arena t" and ?n = "root_node user at"
  let ?a' = "(placed ?n ?a)\<lparr>index := hm_insert user (next_slot ?a) (index ?a), root := Some (next_slot ?a)\<rparr>"
  show ?thesis
  proof (rule that)
    show "unilevel_add_root user at t = (Ok (next_slot ?a), t\<lparr>ut_arena := ?a'\<rparr>)"
      using assms(2) by (simp add: unilevel_add_root_def szoom_def outcome_simps
          alloc_slot_eq [OF arena_wfD(6) [OF assms(1)]])
    show "attached ?a (ut_arena (t\<lparr>ut_arena := ?a'\<rparr>)) (next_slot ?a) ?n []"
      using root_attached [OF assms(1)] assms(2) by (simp add: check_add_root_ok)
  qed
qed

lemma unilevel_add_node_ok:
  assumes wf: "unilevel_wf t" and ok: "unilevel_check_add_node t user p s = Ok ()"
    and room: "length (nodes (ut_arena t)) < 2 ^ 32"
  obtains t' pi si where "unilevel_add_node user p s at t = (Ok (next_slot (ut_arena t)), t')"
    "hm_get (index (ut_arena t)) p = Some pi" "hm_get (index (ut_arena t)) s = Some si"
    "attached (ut_arena t) (ut_arena t') (next_slot (ut_arena t))
       (child_node user pi (Some si) (depth (nd (ut_arena t) pi) + 1) at)
       (kds (ut_arena t) pi @ [next_slot (ut_arena t)])"
proof -
  let ?a = "ut_arena t" and ?i = "next_slot (ut_arena t)"
  obtain pi si where ix: "hm_get (index ?a) p = Some pi" "hm_get (index ?a) s = Some si"
    and new: "user \<noteq> nil_uuid" "hm_get (index ?a) user = None"
    using ok by (auto simp: check_add_node_ok)
  note live = index_live(1) [OF wf ix(1)] index_live(1) [OF wf ix(2)]
  note fr = arena_wfD(6) [OF wf]
  let ?n = "child_node user pi (Some si) (depth (nd ?a pi) + 1) at"
  let ?b = "(placed ?n ?a)\<lparr>index := hm_insert user ?i (index ?a)\<rparr>"
  let ?f = "\<lambda>n. n\<lparr>children := children n @ [?i]\<rparr>"
  have ne: "pi \<noteq> ?i" "si \<noteq> ?i" using next_slot_free [OF fr] live by auto
  have "pi < length (nodes ?b)"
    using less_le_trans [OF live_bound [OF live(1)] placed_fields(4) [of ?a ?n]] by simp
  with live ne have lb: "live ?b pi" "live (upd_node pi ?f ?b) si"
    by (simp_all add: live_def nd_placed [OF fr])
  show ?thesis
  proof (rule that [OF _ ix])
    show "unilevel_add_node user p s at t = (Ok ?i, t\<lparr>ut_arena := recruit (Some si) ?i (upd_node pi ?f ?b)\<rparr>)"
      using ok ix live lb
      by (simp add: unilevel_add_node_def szoom_def outcome_simps resolve_def arena_node_mut_upd
          recruit_def child_depth(1) [OF wf live(1) room] alloc_slot_eq [OF fr])
    show "attached ?a (ut_arena (t\<lparr>ut_arena := recruit (Some si) ?i (upd_node pi ?f ?b)\<rparr>)) ?i ?n
        (kds ?a pi @ [?i])"
      using live(2) kds_live [OF wf live(1)] next_slot_free [OF fr]
        placement.down_distinct [OF wf, of pi] live(1)
      by (simp, intro child_attached [OF wf new live(1) child_depth(2) [OF wf live(1) room]]) auto
  qed
qed

section \<open>Removal\<close>

lemma unilevel_check_remove_ok:
  assumes "unilevel_wf t"
  shows "unilevel_check_remove_node t user = Ok () \<longleftrightarrow> (\<exists>i. hm_get (index (ut_arena t)) user = Some i \<and>
     kds (ut_arena t) i = [] \<and> removable (ut_arena t) {i})"
  using index_live(1) [OF assms, of user]
  by (auto simp: unilevel_check_remove_node_def resolve_def
      check_sponsored_removable_ok [OF assms, of "[i]" for i, simplified])

lemma unilevel_remove_node_ok:
  assumes wf: "unilevel_wf t" and ok: "unilevel_check_remove_node t user = Ok ()"
  obtains t' i where "unilevel_remove_node user t = (Ok (handovers (ut_arena t) [i]), t')"
    "hm_get (index (ut_arena t)) user = Some i" "detached (ut_arena t) (ut_arena t') [i]"
proof -
  let ?a = "ut_arena t"
  obtain i where ix: "hm_get (index ?a) user = Some i" and leaf: "kds ?a i = []"
    and rem: "removable ?a {i}"
    using ok by (auto simp: unilevel_check_remove_ok [OF wf])
  note i = index_live(1,2) [OF wf ix]
  define b1 where "b1 = (case par ?a i of None \<Rightarrow> ?a
    | Some p \<Rightarrow> upd_node p (\<lambda>m. m\<lparr>children := filter (\<lambda>c. c \<noteq> i) (children m)\<rparr>) ?a)"
  have b1: "nd b1 j = (nd ?a j)\<lparr>children := filter (\<lambda>c. c \<noteq> i) (kds ?a j)\<rparr>" for j
    by (rule leave_parent [OF wf i(1) b1_def [symmetric]])
  have f1: "length (nodes b1) = length (nodes ?a)" "index b1 = index ?a" "free_list b1 = free_list ?a"
    "root b1 = root ?a" by (simp_all add: b1_def split: option.split)
  have 1: "(case par ?a i of None \<Rightarrow> sret () | Some p \<Rightarrow>
      arena_node_mut p (\<lambda>m. m\<lparr>children := filter (\<lambda>c. c \<noteq> i) (children m)\<rparr>)) ?a = (Ok (), b1)"
    using par_live [OF wf i(1)] by (auto simp: b1_def outcome_simps arena_node_mut_upd split: option.split)
  obtain b2 b3 a' where s: "live b1 i" "spn b1 i = spn ?a i"
    "retain_sponsored (spn ?a i) i b1 = (Ok () :: (tree_error, unit) result, b2)" "root b2 = root ?a"
    "reparent_sponsored [i] (if root ?a = Some i then b2\<lparr>root := None\<rparr> else b2) = (Ok (handovers ?a [i]), b3)"
    "tombstone i (b3\<lparr>index := hm_remove (user_id (nd ?a i)) (index b3)\<rparr>) = (Ok () :: (tree_error, unit) result, a')"
    "detached ?a a' [i]"
    by (rule detach_steps [OF wf i(1) leaf rem b1 f1])
  show ?thesis
  proof (rule that [OF _ ix])
    show "unilevel_remove_node user t = (Ok (handovers ?a [i]), t\<lparr>ut_arena := a'\<rparr>)"
      using ok ix i s by (simp add: unilevel_remove_node_def szoom_def outcome_simps resolve_def 1)
    show "detached ?a (ut_arena (t\<lparr>ut_arena := a'\<rparr>)) [i]" using s(7) by simp
  qed
qed

section \<open>The operations meet their contract\<close>

definition unilevel_fits :: "unilevel_tree \<Rightarrow> bool" where
  "unilevel_fits t \<longleftrightarrow> length (nodes (ut_arena t)) < 2 ^ 32"

interpretation unilevel_root_op: guarded unilevel_wf "\<lambda>_ _. True"
  "\<lambda>(user, at) t. unilevel_check_add_root t user" "\<lambda>(user, at). unilevel_add_root user at"
proof (unfold_locales, goal_cases)
  case (1 t i)
  then show ?case using check_add_root_cases by (cases i) auto
next
  case (2 t i e)
  then show ?case by (cases i) (simp add: unilevel_add_root_def outcome_simps)
next
  case (3 t i)
  obtain user at where i: "i = (user, at)" by (cases i)
  with 3 have "unilevel_check_add_root t user = Ok ()" by simp
  then obtain t' where "unilevel_add_root user at t = (Ok (next_slot (ut_arena t)), t')"
    "attached (ut_arena t) (ut_arena t') (next_slot (ut_arena t)) (root_node user at) []"
    by (rule unilevel_add_root_ok [OF 3(1)])
  with i attached_wf [OF 3(1)] show ?case by auto
qed

interpretation unilevel_node_op: guarded unilevel_wf "\<lambda>_. unilevel_fits"
  "\<lambda>(user, p, s, at) t. unilevel_check_add_node t user p s" "\<lambda>(user, p, s, at). unilevel_add_node user p s at"
proof (unfold_locales, goal_cases)
  case (1 t i)
  then show ?case using check_add_node_cases by (cases i) auto
next
  case (2 t i e)
  then show ?case by (cases i) (simp add: unilevel_add_node_def outcome_simps)
next
  case (3 t i)
  obtain user p s at where i: "i = (user, p, s, at)" by (cases i) auto
  with 3 have "unilevel_check_add_node t user p s = Ok ()" "length (nodes (ut_arena t)) < 2 ^ 32"
    by (simp_all add: unilevel_fits_def)
  then obtain t' n cs where "unilevel_add_node user p s at t = (Ok (next_slot (ut_arena t)), t')"
    "attached (ut_arena t) (ut_arena t') (next_slot (ut_arena t)) n cs"
    by (rule unilevel_add_node_ok [OF 3(1)])
  with i attached_wf [OF 3(1)] show ?case by auto
qed

interpretation unilevel_remove_op: guarded unilevel_wf "\<lambda>_ _. True"
  "\<lambda>user t. unilevel_check_remove_node t user" unilevel_remove_node
proof (unfold_locales, goal_cases)
  case (1 t user)
  show ?case
  proof (cases "\<exists>i. resolve (ut_arena t) user = Ok i")
    case True
    then obtain i where i: "resolve (ut_arena t) user = Ok i" "live (ut_arena t) i"
      using resolve_live [OF 1] by blast
    then show ?thesis
      using check_removable_cases [OF 1 i(2)] by (simp add: unilevel_check_remove_node_def)
  next
    case False
    then show ?thesis
      using resolve_cases [of "ut_arena t" user] by (auto simp: unilevel_check_remove_node_def)
  qed
next
  case (2 t user e)
  then show ?case by (simp add: unilevel_remove_node_def outcome_simps)
next
  case (3 t user)
  from unilevel_remove_node_ok [OF 3(1,3)] 3 show ?case by (metis detached_wf)
qed

section \<open>Properties\<close>

text \<open>
  C11. Adding a node to a well-formed unilevel tree of fewer than \<open>2 ^ 32\<close> slots never panics: a
  refused placement returns the error of \<open>check_add_node\<close> and leaves the tree as it was, an
  accepted one leaves a well-formed tree.
\<close>

theorem unilevel_add_node_total:
  assumes "unilevel_wf t" "unilevel_fits t"
  shows "(\<exists>e. unilevel_check_add_node t user p s = Err e \<and> unilevel_add_node user p s at t = (Err e, t)) \<or>
     (unilevel_check_add_node t user p s = Ok () \<and>
      (\<exists>i t'. unilevel_add_node user p s at t = (Ok i, t') \<and> unilevel_wf t'))"
  using unilevel_node_op.run_total [OF assms, of "(user, p, s, at)"] by simp

text \<open>
  C6. Adding a node refines the abstract join: the member is placed last among the children of
  the named parent and last among the recruits of the named sponsor, and nothing else changes.
\<close>

theorem unilevel_add_node_refines:
  assumes "unilevel_wf t" "unilevel_fits t" "unilevel_add_node user p s at t = (Ok i, t')"
  shows "genealogy_of (ut_arena t') = g_join user (Some p) (g_children (genealogy_of (ut_arena t)) p @ [user])
     (Some s) at (genealogy_of (ut_arena t))"
proof -
  let ?a = "ut_arena t"
  have ok: "unilevel_check_add_node t user p s = Ok ()"
    using unilevel_node_op.run_checked [OF assms(1), of "(user, p, s, at)"] assms(3) by simp
  show ?thesis
  proof (rule unilevel_add_node_ok [OF assms(1) ok, where at = at])
    show "length (nodes ?a) < 2 ^ 32" using assms(2) by (simp add: unilevel_fits_def)
    fix t'' pi si
    assume "unilevel_add_node user p s at t = (Ok (next_slot ?a), t'')"
      and ix: "hm_get (index ?a) p = Some pi" "hm_get (index ?a) s = Some si"
      and att: "attached ?a (ut_arena t'') (next_slot ?a)
        (child_node user pi (Some si) (depth (nd ?a pi) + 1) at) (kds ?a pi @ [next_slot ?a])"
    note pi = index_live [OF assms(1) ix(1)] and si = index_live [OF assms(1) ix(2)]
    have "map (\<lambda>j. if j = next_slot ?a then user else uid ?a j) (kds ?a pi @ [next_slot ?a]) =
        g_children (genealogy_of ?a) p @ [user]"
      using kds_live [OF assms(1) pi(1)] next_slot_free [OF arena_wfD(6) [OF assms(1)]]
        g_children_uid [OF assms(1) pi(1)] pi(2) by auto
    moreover have "t'' = t'"
      using assms(3) \<open>unilevel_add_node user p s at t = (Ok (next_slot ?a), t'')\<close> by simp
    ultimately show ?thesis
      using child_genealogy [OF assms(1) att] pi(2) si(2) by (simp del: map_append list.map)
  qed
qed

text \<open>
  C12. Removing a member from a well-formed unilevel tree never panics: a refused removal returns
  the error of \<open>check_remove_node\<close> and leaves the tree as it was, an accepted one leaves a
  well-formed tree.
\<close>

theorem unilevel_remove_node_total:
  assumes "unilevel_wf t"
  shows "(\<exists>e. unilevel_check_remove_node t user = Err e \<and> unilevel_remove_node user t = (Err e, t)) \<or>
     (unilevel_check_remove_node t user = Ok () \<and>
      (\<exists>moved t'. unilevel_remove_node user t = (Ok moved, t') \<and> unilevel_wf t'))"
  using unilevel_remove_op.run_total [OF assms] by simp

text \<open>
  C7. Removing a member refines the abstract leave: only a childless member leaves, its recruits
  go to its sponsor behind the recruits already there, nothing else changes; and the report names
  exactly the recruits, in order, with that sponsor.
\<close>

theorem unilevel_remove_node_refines:
  assumes "unilevel_wf t" "unilevel_remove_node user t = (Ok moved, t')"
  shows "let g = genealogy_of (ut_arena t) in
     user \<in> g_members g \<and> g_children g user = [] \<and>
     genealogy_of (ut_arena t') = g_leave user g \<and>
     map rs_user_id moved = g_recruits g user \<and>
     (\<forall>m \<in> set moved. g_sponsor g user = Some (rs_new_sponsor_id m))"
proof -
  let ?a = "ut_arena t"
  have ok: "unilevel_check_remove_node t user = Ok ()"
    using unilevel_remove_op.run_checked [OF assms] .
  obtain i where i: "unilevel_remove_node user t = (Ok (handovers ?a [i]), t')"
    "hm_get (index ?a) user = Some i" "detached ?a (ut_arena t') [i]"
    using unilevel_remove_node_ok [OF assms(1) ok] assms(2) by (metis prod.inject)
  note li = index_live [OF assms(1) i(2)]
  have moved: "moved = handovers ?a [i]" using i(1) assms(2) by simp
  have "kds ?a i = []" "removable ?a {i}" using ok i(2) by (auto simp: unilevel_check_remove_ok [OF assms(1)])
  then show ?thesis
    using moved i(2) li detached_genealogy [OF assms(1) i(3)] handovers_single [OF assms(1) li(1)]
    by (simp add: Let_def g_children_uid [OF assms(1) li(1), unfolded li(2)])
      (simp add: genealogy_of_def)
qed

section \<open>Sessions\<close>

datatype unilevel_call = UlAddRoot uuid i64 | UlAddNode uuid uuid uuid i64 | UlRemove uuid

fun unilevel_exec :: "unilevel_call \<Rightarrow> (unilevel_tree, tree_error, unit) sm" where
  "unilevel_exec (UlAddRoot user at) = sbind (unilevel_add_root user at) (\<lambda>_. sret ())"
| "unilevel_exec (UlAddNode user p s at) = sbind (unilevel_add_node user p s at) (\<lambda>_. sret ())"
| "unilevel_exec (UlRemove user) = sbind (unilevel_remove_node user) (\<lambda>_. sret ())"

lemma unilevel_exec_step:
  assumes wf: "unilevel_wf t" and room: "length (nodes (ut_arena t)) < 2 ^ 32"
  shows "\<exists>r t'. unilevel_exec c t = (r, t') \<and> ((\<exists>x. r = Ok x) \<or> (\<exists>e. r = Err e)) \<and>
     unilevel_wf t' \<and> length (nodes (ut_arena t')) \<le> Suc (length (nodes (ut_arena t)))"
proof (cases c)
  case (UlAddRoot user at)
  show ?thesis
  proof (cases "unilevel_check_add_root t user = Ok ()")
    case True
    then obtain t' where "unilevel_add_root user at t = (Ok (next_slot (ut_arena t)), t')"
      "attached (ut_arena t) (ut_arena t') (next_slot (ut_arena t)) (root_node user at) []"
      by (rule unilevel_add_root_ok [OF wf])
    with UlAddRoot attached_wf [OF wf] attachedD(15) show ?thesis by (auto simp: outcome_simps)
  next
    case False
    with check_add_root_cases [of t user] wf UlAddRoot
      unilevel_root_op.refuses [OF wf, of "(user, at)"] show ?thesis by (auto simp: outcome_simps)
  qed
next
  case (UlAddNode user p s at)
  show ?thesis
  proof (cases "unilevel_check_add_node t user p s = Ok ()")
    case True
    then obtain t' n cs where "unilevel_add_node user p s at t = (Ok (next_slot (ut_arena t)), t')"
      "attached (ut_arena t) (ut_arena t') (next_slot (ut_arena t)) n cs"
      by (rule unilevel_add_node_ok [OF wf _ room])
    with UlAddNode attached_wf [OF wf] attachedD(15) show ?thesis by (auto simp: outcome_simps)
  next
    case False
    with check_add_node_cases [of t user p s] wf UlAddNode
      unilevel_node_op.refuses [OF wf, of "(user, p, s, at)"] show ?thesis by (auto simp: outcome_simps)
  qed
next
  case (UlRemove user)
  show ?thesis
  proof (cases "unilevel_check_remove_node t user = Ok ()")
    case True
    then obtain t' i where "unilevel_remove_node user t = (Ok (handovers (ut_arena t) [i]), t')"
      "detached (ut_arena t) (ut_arena t') [i]" by (rule unilevel_remove_node_ok [OF wf])
    with UlRemove detached_wf [OF wf] unsponsoredD(13) [OF detachedD(1)] show ?thesis
      by (auto simp: outcome_simps)
  next
    case False
    with unilevel_remove_op.decides [OF wf, of user] wf UlRemove
      unilevel_remove_op.refuses [OF wf, of user] show ?thesis by (auto simp: outcome_simps)
  qed
qed

lemma unilevel_session_wf:
  assumes "length calls \<le> 2 ^ 32"
  shows "\<exists>t. sfor (\<lambda>c. settle (unilevel_exec c)) calls unilevel_new = (Ok (), t) \<and> unilevel_wf t"
proof (rule session_safe [where size_of = "\<lambda>t. length (nodes (ut_arena t))" and n = "2 ^ 32"])
  show "unilevel_wf unilevel_new" by (simp add: unilevel_new_def arena_new_wf)
qed (use assms unilevel_exec_step in \<open>auto simp: unilevel_new_def arena_new_def\<close>)

text \<open>
  C3. Sessions from an empty tree are safe: after any sequence of at most \<open>2 ^ 32\<close> calls, each of
  which may be refused, no call has panicked or looped and the tree is well formed.
\<close>

theorem unilevel_session_safe:
  assumes "length calls \<le> 2 ^ 32"
  shows "\<exists>t. sfor (\<lambda>c. settle (unilevel_exec c)) calls unilevel_new = (Ok (), t) \<and> unilevel_wf t"
  by (rule unilevel_session_wf [OF assms])

section \<open>Instances\<close>

text \<open>A tree of four members; member 3 was recruited by 2, member 4 by 2 but placed under 1.\<close>

definition unilevel_sample_calls :: "unilevel_call list" where
  "unilevel_sample_calls = [UlAddRoot 1 10, UlAddNode 2 1 1 20, UlAddNode 3 1 2 30, UlAddNode 4 3 2 40]"

definition unilevel_sample :: unilevel_tree where
  "unilevel_sample = snd (sfor (\<lambda>c. settle (unilevel_exec c) :: (unilevel_tree, tree_error, unit) sm)
     unilevel_sample_calls unilevel_new)"

lemma unilevel_sample_wf: "unilevel_wf unilevel_sample"
  using unilevel_session_wf [of unilevel_sample_calls]
  by (auto simp: unilevel_sample_def unilevel_sample_calls_def)

lemma unilevel_sample_eq: "unilevel_sample = \<lparr>ut_arena = \<lparr>
   nodes = [\<lparr>user_id = 1, parent = None, children = [1, 2], sponsor = None, sponsored = [1], depth = 0, enrolled_at = 10\<rparr>,
     \<lparr>user_id = 2, parent = Some 0, children = [], sponsor = Some 0, sponsored = [2, 3], depth = 1, enrolled_at = 20\<rparr>,
     \<lparr>user_id = 3, parent = Some 0, children = [3], sponsor = Some 1, sponsored = [], depth = 1, enrolled_at = 30\<rparr>,
     \<lparr>user_id = 4, parent = Some 2, children = [], sponsor = Some 1, sponsored = [], depth = 2, enrolled_at = 40\<rparr>],
   index = [(1, 0), (2, 1), (3, 2), (4, 3)], free_list = [], root = Some 0\<rparr>\<rparr>"
  by code_simp

lemma unilevel_sample_fits: "unilevel_fits unilevel_sample"
  by (simp add: unilevel_fits_def unilevel_sample_eq)

lemma unilevel_sample_runs:
  "unilevel_check_add_node unilevel_sample 5 3 1 = Ok ()"
  "unilevel_check_add_node unilevel_sample 5 3 9 = Err (SponsorNotFound 9)"
  "fst (unilevel_add_node 5 3 1 50 unilevel_sample) = Ok 4"
  "unilevel_check_remove_node unilevel_sample 2 = Ok ()"
  "fst (unilevel_remove_node 2 unilevel_sample) =
     Ok [\<lparr>rs_user_id = 3, rs_new_sponsor_id = 1\<rparr>, \<lparr>rs_user_id = 4, rs_new_sponsor_id = 1\<rparr>]"
  by code_simp+

theorem unilevel_add_node_total_witness:
  "unilevel_wf unilevel_sample \<and> unilevel_fits unilevel_sample \<and>
   (\<exists>i t'. unilevel_add_node 5 3 1 50 unilevel_sample = (Ok i, t') \<and> unilevel_wf t') \<and>
   unilevel_add_node 5 3 9 50 unilevel_sample = (Err (SponsorNotFound 9), unilevel_sample)"
  using unilevel_add_node_total [OF unilevel_sample_wf unilevel_sample_fits, of 5 3 1 50]
    unilevel_add_node_total [OF unilevel_sample_wf unilevel_sample_fits, of 5 3 9 50]
    unilevel_sample_wf unilevel_sample_fits by (simp add: unilevel_sample_runs)

theorem unilevel_add_node_refines_witness:
  "\<exists>t'. unilevel_add_node 5 3 1 50 unilevel_sample = (Ok 4, t') \<and>
     genealogy_of (ut_arena t') = g_join 5 (Some 3) (g_children (genealogy_of (ut_arena unilevel_sample)) 3 @ [5])
       (Some 1) 50 (genealogy_of (ut_arena unilevel_sample))"
proof (intro exI conjI)
  show run: "unilevel_add_node 5 3 1 50 unilevel_sample = (Ok 4, snd (unilevel_add_node 5 3 1 50 unilevel_sample))"
    by (rule prod_eqI) (simp_all add: unilevel_sample_runs)
  show "genealogy_of (ut_arena (snd (unilevel_add_node 5 3 1 50 unilevel_sample))) =
      g_join 5 (Some 3) (g_children (genealogy_of (ut_arena unilevel_sample)) 3 @ [5])
       (Some 1) 50 (genealogy_of (ut_arena unilevel_sample))"
    by (rule unilevel_add_node_refines [OF unilevel_sample_wf unilevel_sample_fits run])
qed

theorem unilevel_remove_node_total_witness:
  "unilevel_wf unilevel_sample \<and>
   (\<exists>moved t'. unilevel_remove_node 2 unilevel_sample = (Ok moved, t') \<and> unilevel_wf t')"
  using unilevel_remove_node_total [OF unilevel_sample_wf, of 2] unilevel_sample_wf
  by (simp add: unilevel_sample_runs)

theorem unilevel_remove_node_refines_witness:
  "\<exists>moved t'. unilevel_remove_node 2 unilevel_sample = (Ok moved, t') \<and> moved \<noteq> [] \<and>
     genealogy_of (ut_arena t') = g_leave 2 (genealogy_of (ut_arena unilevel_sample))"
proof (intro exI conjI)
  let ?m = "[\<lparr>rs_user_id = 3, rs_new_sponsor_id = 1\<rparr>, \<lparr>rs_user_id = 4, rs_new_sponsor_id = 1\<rparr>]"
  show run: "unilevel_remove_node 2 unilevel_sample = (Ok ?m, snd (unilevel_remove_node 2 unilevel_sample))"
    by (rule prod_eqI) (simp_all add: unilevel_sample_runs)
  show "genealogy_of (ut_arena (snd (unilevel_remove_node 2 unilevel_sample))) =
      g_leave 2 (genealogy_of (ut_arena unilevel_sample))"
    using unilevel_remove_node_refines [OF unilevel_sample_wf run] by (simp add: Let_def)
qed simp

theorem unilevel_session_safe_witness:
  "\<exists>t. sfor (\<lambda>c. settle (unilevel_exec c)) [UlAddRoot 1 0, UlAddRoot 2 0, UlAddNode 3 1 1 0, UlRemove 1]
     unilevel_new = (Ok (), t) \<and> unilevel_wf t"
  by (rule unilevel_session_safe) simp

end
