(* ===== verification/Snapshot.thy ===== *)
theory Snapshot
  imports Prelude "HOL-Library.Multiset"
begin

text \<open>
  The faults a restored structure can be refused for, from \<open>src/snapshot.rs\<close> of the engine
  crate, and the way a validator chooses among several: it keeps the fault with the lowest key,
  so that the unspecified iteration order of a hash map never shows in the error.
\<close>

section \<open>Errors of a restored snapshot\<close>

text \<open>
  The constructor arguments are the source's fields in their order. The variants of the board
  plan and the streamline engines are listed with those of the trees, as the source has them.
\<close>

type_synonym u64 = "64 word"

datatype (plugins only: code size) snapshot_error =
    IndexSlotOutOfRange uuid nat nat
  | IndexSlotMismatch uuid nat uuid
  | IndexSlotTombstoned uuid nat
  | NodeNotIndexed nat uuid
  | EdgeOutOfRange string nat nat nat
  | EdgeTombstoned string nat nat
  | FreeSlotOutOfRange nat nat
  | FreeSlotNotTombstoned nat uuid
  | FreeSlotRepeated nat
  | TombstoneNotCleared nat string
  | StreamIdCursorNotPastEnd u32 u32
  | StreamIdCursorExhausted u32
  | NodeDepthNotZero nat uuid u32
  | NodeDepthMismatch nat uuid u32 nat u32
  | RootOutOfRange nat nat
  | RootTombstoned nat
  | RootHasSponsor nat uuid nat
  | EdgeNotReciprocated string nat nat string
  | EdgeRepeated string nat nat
  | RootMissing nat
  | ParentlessNodeNotRoot nat uuid nat
  | SponsorChainRevisits nat nat
  | ChildSlotOutOfRange nat nat
  | ChildSlotTombstoned nat
  | LiveNodeNotSlotted nat uuid
  | ChildSlottedTwiceUnderOneParent nat nat
  | ChildSlotRepeated nat nat nat nat
  | RootSlottedAsChild nat
  | NodeSlottedUnderItself nat
  | SlotEntryMissing nat uuid
  | ChildSlotWidthMismatch nat nat u8
  | ChildrenDisagreeWithSlots nat "nat list" "nat list"
  | MatrixWidthTooSmall u8
  | MatrixSpilloverUnsupported
  | BoardDimensionsOutOfRange u8 u8
  | BoardTotalPositionsMismatch nat u8 u8 nat
  | HoldingTankUserRepeated uuid
  | HoldingTankUserPlaced uuid nat
  | HoldingTankUserNil nat
  | HoldingTankSponsorNil nat
  | HoldingTankSponsorChainRevisits uuid uuid
  | BoardPositionCountMismatch uuid nat nat
  | BoardOccupantAboveOpening uuid nat nat
  | BoardIdMismatch uuid uuid
  | OccupantNotIndexed uuid uuid
  | MemberSeatedTwiceOnBoard uuid uuid
  | MemberDisplacedAndSeated uuid uuid
  | MemberDisplacedTwice uuid
  | MemberOnTwoBoards uuid uuid uuid
  | BoardAbsent uuid uuid
  | MemberNotOnBoard uuid uuid
  | BoardSeqRepeated u64 uuid uuid
  | BoardSeqNotBelowCounter uuid u64 u64
  | BoardSeqCounterExhausted u64
  | UserStreamsEntryEmpty uuid
  | StreamAbsent uuid u32
  | UserNotInStreamTree uuid u32
  | OwnerStreamAbsent uuid u32
  | StreamOwnerMismatch uuid u32 uuid
  | StreamIdMismatch u32 u32
  | StreamBottomNotInTree u32 uuid
  | StreamBottomMissing u32 nat
  | TreeUserNotIndexed u32 uuid
  | StreamError u32 snapshot_error

section \<open>Keeping the lowest fault\<close>

text \<open>
  The loops over a hash map hold the fault with the lowest key seen so far:
  \<open>if held.is_none_or(|(k, _)| key < k) { held = Some((key, err)) }\<close>.
\<close>

definition keep_lowest :: "'k::linorder \<Rightarrow> 'e option \<Rightarrow> ('k \<times> 'e) option \<Rightarrow> ('k \<times> 'e) option" where
  "keep_lowest key found held = (case found of None \<Rightarrow> held
     | Some err \<Rightarrow> (case held of None \<Rightarrow> Some (key, err)
         | Some h \<Rightarrow> if key < fst h then Some (key, err) else held))"

definition lowest_fault :: "('a \<Rightarrow> 'k::linorder) \<Rightarrow> ('a \<Rightarrow> 'e option) \<Rightarrow> 'a list \<Rightarrow> ('k \<times> 'e) option" where
  "lowest_fault key check xs = fold (\<lambda>x. keep_lowest (key x) (check x)) xs None"

definition raise_fault :: "('k \<times> 'e) option \<Rightarrow> ('e, unit) result" where
  "raise_fault held = (case held of None \<Rightarrow> Ok () | Some h \<Rightarrow> Err (snd h))"

lemma keep_lowest_eq_None: "keep_lowest k f h = None \<longleftrightarrow> f = None \<and> h = None"
  by (auto simp: keep_lowest_def split: option.splits if_splits)

lemma fold_keep_lowest_None:
  "fold (\<lambda>x. keep_lowest (key x) (check x)) xs h = None \<longleftrightarrow> h = None \<and> (\<forall>x \<in> set xs. check x = None)"
  by (induction xs arbitrary: h) (auto simp: keep_lowest_eq_None)

lemma lowest_fault_None: "lowest_fault key check xs = None \<longleftrightarrow> (\<forall>x \<in> set xs. check x = None)"
  by (simp add: lowest_fault_def fold_keep_lowest_None)

lemma raise_fault_Ok [simp]: "raise_fault h = Ok () \<longleftrightarrow> h = None"
  by (simp add: raise_fault_def split: option.split)

lemma keep_lowest_commute:
  assumes "j \<noteq> k"
  shows "keep_lowest j f (keep_lowest k g h) = keep_lowest k g (keep_lowest j f h)"
  using assms by (auto simp: keep_lowest_def split: option.splits)

text \<open>
  When the keys are pairwise distinct, as the keys of a hash map are, the fault held at the end
  does not depend on the order in which the entries were visited.
\<close>

lemma lowest_fault_order:
  assumes "mset xs = mset ys" and "distinct (map key xs)"
  shows "lowest_fault key check xs = lowest_fault key check ys"
proof -
  have "fold (\<lambda>x. keep_lowest (key x) (check x)) xs = fold (\<lambda>x. keep_lowest (key x) (check x)) ys"
  proof (rule fold_multiset_equiv [OF _ assms(1)])
    fix x y assume "x \<in> set xs" "y \<in> set xs"
    show "keep_lowest (key x) (check x) \<circ> keep_lowest (key y) (check y) =
      keep_lowest (key y) (check y) \<circ> keep_lowest (key x) (check x)"
    proof (cases "x = y")
      case False
      with assms(2) \<open>x \<in> set xs\<close> \<open>y \<in> set xs\<close> have "key x \<noteq> key y"
        by (auto simp: distinct_map inj_on_def)
      then show ?thesis by (simp add: fun_eq_iff keep_lowest_commute)
    qed simp
  qed
  then show ?thesis by (simp add: lowest_fault_def)
qed

end
