(* ===== verification/Chain_Check.thy ===== *)
theory Chain_Check
  imports Forest
begin

text \<open>
  The three-colour walk by which the engine proves that chains of sponsors end:
  \<open>check_sponsor_chains_end\<close> of the arena and \<open>check_tank_sponsor_chains_end\<close> of the matrix tree.
  Both mark what they walk over, stop at what an earlier walk finished, and report a revisit. The
  two differ in the successor function and in the error, which are parameters here.
\<close>

datatype visit = Unseen | OnWalk | Done

definition chain_body ::
  "(nat \<Rightarrow> ('e, nat option) result) \<Rightarrow> (nat \<Rightarrow> 'e) \<Rightarrow> visit list \<times> nat list \<times> nat option \<Rightarrow>
     ('e, (visit list \<times> nat list \<times> nat option) + (visit list \<times> nat list)) result" where
  "chain_body nxt err st = (case st of (visits, walk, current) \<Rightarrow> (case current of
      None \<Rightarrow> Ok (Inr (visits, walk))
    | Some i \<Rightarrow> bnd (index_at visits i) (\<lambda>v. case v of
        Done \<Rightarrow> Ok (Inr (visits, walk))
      | OnWalk \<Rightarrow> Err (err i)
      | Unseen \<Rightarrow> bnd (nxt i) (\<lambda>c. Ok (Inl (visits[i := OnWalk], walk @ [i], c))))))"

definition chain_from ::
  "(nat \<Rightarrow> ('e, nat option) result) \<Rightarrow> (nat \<Rightarrow> nat \<Rightarrow> 'e) \<Rightarrow> nat \<Rightarrow> visit list \<Rightarrow> ('e, visit list) result" where
  "chain_from nxt err start visits = bnd (index_at visits start) (\<lambda>v.
     if v = Done then Ok visits
     else bnd (run_loop (chain_body nxt (err start)) (visits, [], Some start)) (\<lambda>(visits', walk).
       Ok (fold (\<lambda>i vs. vs[i := Done]) walk visits')))"

definition check_chains ::
  "(nat \<Rightarrow> ('e, nat option) result) \<Rightarrow> (nat \<Rightarrow> nat \<Rightarrow> 'e) \<Rightarrow> nat \<Rightarrow> nat list \<Rightarrow> ('e, unit) result" where
  "check_chains nxt err n starts =
     bnd (fold_res (chain_from nxt err) starts (replicate n Unseen)) (\<lambda>_. Ok ())"

section \<open>Chains that end\<close>

definition ends :: "(nat \<Rightarrow> nat option) \<Rightarrow> nat \<Rightarrow> bool" where
  "ends nx i \<longleftrightarrow> (\<exists>k. upn nx k i = None)"

lemma ends_link:
  assumes "upn nx k i = Some j"
  shows "ends nx i \<longleftrightarrow> ends nx j"
proof
  assume "ends nx j"
  then obtain m where "upn nx m j = None" by (auto simp: ends_def)
  with assms have "upn nx (k + m) i = None" by (simp add: upn_add)
  then show "ends nx i" by (auto simp: ends_def)
next
  assume "ends nx i"
  then obtain m where "upn nx m i = None" by (auto simp: ends_def)
  then have "upn nx (k + m) i = None" by (rule upn_None_mono) simp
  with assms have "upn nx m j = None" by (simp add: upn_add)
  then show "ends nx j" by (auto simp: ends_def)
qed

lemma cycle_never_ends:
  assumes "upn nx (Suc k) i = Some i"
  shows "\<not> ends nx i"
proof
  assume "ends nx i"
  then obtain m where m: "upn nx m i = None" by (auto simp: ends_def)
  have "upn nx (j * Suc k) i = Some i" for j
  proof (induction j)
    case (Suc j)
    have "upn nx (Suc k + j * Suc k) i = Some i"
      unfolding upn_add assms using Suc by simp
    then show ?case by (simp only: mult_Suc)
  qed simp
  from this [of m] upn_None_mono [OF m, of "m * Suc k"] show False by simp
qed

section \<open>The check is exact\<close>

text \<open>What holds between two walks, and while one walk from \<open>start\<close> is under way.\<close>

definition marks_ok :: "(nat \<Rightarrow> nat option) \<Rightarrow> nat \<Rightarrow> nat set \<Rightarrow> visit list \<Rightarrow> bool" where
  "marks_ok nx n on vs \<longleftrightarrow> length vs = n \<and>
     (\<forall>i < n. (vs ! i = OnWalk \<longleftrightarrow> i \<in> on) \<and> (vs ! i = Done \<longrightarrow> ends nx i))"

definition walk_ok :: "(nat \<Rightarrow> nat option) \<Rightarrow> nat \<Rightarrow> nat set \<Rightarrow> nat \<Rightarrow> visit list \<times> nat list \<times> nat option \<Rightarrow> bool" where
  "walk_ok nx n D start st \<longleftrightarrow> (case st of (vs, walk, current) \<Rightarrow>
     marks_ok nx n (set walk) vs \<and> set walk \<subseteq> D \<and> (\<forall>c. current = Some c \<longrightarrow> c \<in> D) \<and>
     (\<forall>x \<in> set walk. \<exists>k. upn nx (Suc k) x = current) \<and>
     (start \<in> set walk \<or> current = Some start))"

lemma walk_step:
  assumes ok: "walk_ok nx n D start (vs, walk, Some c)" and D: "D \<subseteq> {..<n}"
    and nx: "\<And>j. nx c = Some j \<Longrightarrow> j \<in> D" and unseen: "vs ! c = Unseen"
  shows "walk_ok nx n D start (vs[c := OnWalk], walk @ [c], nx c)"
proof -
  have c: "c \<in> D" "c < n" "length vs = n" using ok D by (auto simp: walk_ok_def marks_ok_def)
  have "\<exists>k. upn nx (Suc k) x = nx c" if "x \<in> set (walk @ [c])" for x
  proof (cases "x = c")
    case True
    then show ?thesis by (intro exI [of _ 0]) (simp split: option.split)
  next
    case False
    with that ok obtain k where "upn nx (Suc k) x = Some c" by (auto simp: walk_ok_def)
    then have "upn nx (Suc (Suc k)) x = nx c" by (simp only: upn_Suc_last option.case)
    then show ?thesis by blast
  qed
  with ok c nx unseen show ?thesis by (auto simp: walk_ok_def marks_ok_def nth_list_update)
qed

lemma unseen_falls:
  assumes "c < length vs" "vs ! c = Unseen"
  shows "count_list (vs[c := OnWalk]) Unseen < count_list vs Unseen"
proof -
  have vs: "vs = take c vs @ vs ! c # drop (Suc c) vs" using assms(1) by (rule id_take_nth_drop)
  have "vs[c := OnWalk] = take c vs @ OnWalk # drop (Suc c) vs" using assms(1) by (rule upd_conv_take_nth_drop)
  moreover have "count_list vs Unseen = count_list (take c vs @ vs ! c # drop (Suc c) vs) Unseen"
    using vs by simp
  ultimately show ?thesis using assms(2) by simp
qed

lemma chain_loop:
  assumes start: "start \<in> D" and D: "D \<subseteq> {..<n}" and marks: "marks_ok nx n {} vs"
    and nx: "\<And>i j. i \<in> D \<Longrightarrow> nx i = Some j \<Longrightarrow> j \<in> D"
    and nxt: "\<And>i. i \<in> D \<Longrightarrow> nxt i = Ok (nx i)"
  shows "(\<exists>r. run_loop (chain_body nxt err) (vs, [], Some start) = Ok r \<and>
      (case r of (vs', walk) \<Rightarrow> marks_ok nx n (set walk) vs' \<and> (\<forall>x \<in> set walk. ends nx x) \<and> ends nx start)) \<or>
    (\<exists>e. run_loop (chain_body nxt err) (vs, [], Some start) = Err e \<and> \<not> ends nx start)"
proof (rule run_loop_total_err [where I = "walk_ok nx n D start" and m = "\<lambda>(vs, walk, c). count_list vs Unseen"])
  show "walk_ok nx n D start (vs, [], Some start)" using start marks by (simp add: walk_ok_def)
  fix st assume ok: "walk_ok nx n D start st"
  obtain vs walk current where st: "st = (vs, walk, current)" by (cases st)
  have reach: "start \<in> set walk \<or> current = Some start"
    and on: "\<And>x. x \<in> set walk \<Longrightarrow> \<exists>k. upn nx (Suc k) x = current" and marks: "marks_ok nx n (set walk) vs"
    using ok st by (auto simp: walk_ok_def)
  show "(\<exists>s'. chain_body nxt err st = Ok (Inl s') \<and> walk_ok nx n D start s' \<and>
        (case s' of (vs, walk, c) \<Rightarrow> count_list vs Unseen) < (case st of (vs, walk, c) \<Rightarrow> count_list vs Unseen)) \<or>
      (\<exists>r. chain_body nxt err st = Ok (Inr r) \<and>
        (case r of (vs', walk) \<Rightarrow> marks_ok nx n (set walk) vs' \<and> (\<forall>x \<in> set walk. ends nx x) \<and> ends nx start)) \<or>
      (\<exists>e. chain_body nxt err st = Err e \<and> \<not> ends nx start)"
  proof (cases current)
    case None
    then have "ends nx x" if "x \<in> set walk" for x
      using on [OF that] unfolding ends_def by blast
    with reach None marks st show ?thesis by (auto simp: chain_body_def)
  next
    case (Some c)
    then have c: "c \<in> D" "c < n" using ok st D by (auto simp: walk_ok_def)
    have len: "length vs = n" using marks by (simp add: marks_ok_def)
    have same: "ends nx x \<longleftrightarrow> ends nx c" if "x \<in> set walk" for x
      using on [OF that] Some ends_link by blast
    have start_c: "ends nx start \<longleftrightarrow> ends nx c" using reach same Some by auto
    show ?thesis
    proof (cases "vs ! c")
      case Unseen
      have "walk_ok nx n D start (vs[c := OnWalk], walk @ [c], nx c)"
        by (rule walk_step [OF _ D nx [OF c(1)] Unseen]) (use ok st Some in auto)
      with Unseen c len st Some nxt [OF c(1)] unseen_falls [of c vs] show ?thesis
        by (auto simp: chain_body_def)
    next
      case OnWalk
      then have "c \<in> set walk" using marks c by (auto simp: marks_ok_def)
      with on Some obtain k where "upn nx (Suc k) c = Some c" by blast
      from cycle_never_ends [OF this] start_c OnWalk c len st Some show ?thesis
        by (simp add: chain_body_def)
    next
      case Done
      then have "ends nx c" using marks c by (auto simp: marks_ok_def)
      with Done same start_c marks c len st Some show ?thesis by (auto simp: chain_body_def)
    qed
  qed
qed

lemma marks_done:
  assumes "marks_ok nx n (set walk) vs" "\<forall>x \<in> set walk. ends nx x"
  shows "marks_ok nx n {} (fold (\<lambda>i vs. vs[i := Done]) walk vs)"
proof -
  have len: "length (fold (\<lambda>i vs. vs[i := Done]) walk vs) = length vs" for walk vs
    by (induction walk arbitrary: vs) auto
  have nth: "i < length vs \<Longrightarrow> fold (\<lambda>i vs. vs[i := Done]) walk vs ! i = (if i \<in> set walk then Done else vs ! i)"
    for i walk vs by (induction walk arbitrary: vs) (auto simp: nth_list_update)
  show ?thesis using assms by (auto simp: marks_ok_def len nth)
qed

lemma chain_from_exact:
  assumes start: "start \<in> D" and D: "D \<subseteq> {..<n}" and marks: "marks_ok nx n {} vs"
    and nx: "\<And>i j. i \<in> D \<Longrightarrow> nx i = Some j \<Longrightarrow> j \<in> D"
    and nxt: "\<And>i. i \<in> D \<Longrightarrow> nxt i = Ok (nx i)"
  shows "(\<exists>vs'. chain_from nxt err start vs = Ok vs' \<and> marks_ok nx n {} vs' \<and> ends nx start) \<or>
    (\<exists>e. chain_from nxt err start vs = Err e \<and> \<not> ends nx start)"
proof (cases "vs ! start = Done")
  case True
  then show ?thesis using start D marks by (auto simp: chain_from_def marks_ok_def)
next
  case False
  have "start < length vs" using start D marks by (auto simp: marks_ok_def)
  with False chain_loop [OF assms, where err = "err start"] marks_done show ?thesis
    by (fastforce simp: chain_from_def)
qed

theorem check_chains_exact:
  assumes starts: "set starts \<subseteq> D" and D: "D \<subseteq> {..<n}"
    and nx: "\<And>i j. i \<in> D \<Longrightarrow> nx i = Some j \<Longrightarrow> j \<in> D"
    and nxt: "\<And>i. i \<in> D \<Longrightarrow> nxt i = Ok (nx i)"
  shows "decided (check_chains nxt err n starts)"
    "check_chains nxt err n starts = Ok () \<longleftrightarrow> (\<forall>s \<in> set starts. ends nx s)"
proof -
  have "(\<exists>vs'. fold_res (chain_from nxt err) starts vs = Ok vs' \<and> (\<forall>s \<in> set starts. ends nx s)) \<or>
      (\<exists>e. fold_res (chain_from nxt err) starts vs = Err e \<and> \<not> (\<forall>s \<in> set starts. ends nx s))"
    if "marks_ok nx n {} vs" for vs
    using starts that
  proof (induction starts arbitrary: vs)
    case (Cons s starts)
    then have "s \<in> D" "set starts \<subseteq> D" by auto
    from chain_from_exact [OF this(1) D Cons.prems(2) nx nxt, where err = err] Cons.IH [OF this(2)]
    show ?case by fastforce
  qed simp
  from this [of "replicate n Unseen"]
  show "decided (check_chains nxt err n starts)"
    "check_chains nxt err n starts = Ok () \<longleftrightarrow> (\<forall>s \<in> set starts. ends nx s)"
    by (auto simp: marks_ok_def check_chains_def)
qed

end
