(* ===== verification/Arena_Validate.thy ===== *)
theory Arena_Validate
  imports Arena_Ops Snapshot Chain_Check
begin

text \<open>
  \<open>Arena::validate_restored\<close>, which a restored arena must pass before anything queries it. A
  snapshot is data from outside, so nothing is assumed of the arena here but that its index is a
  map. The validator is shown to come to a verdict on every arena, and to accept exactly the
  well-formed ones. The checks on child-slot maps that the binary and the matrix tree share follow
  at the end.
\<close>

section \<open>The passes\<close>

text \<open>index \<open>\<rightarrow>\<close> nodes\<close>

definition index_fault :: "arena \<Rightarrow> uuid \<times> node_index \<Rightarrow> snapshot_error option" where
  "index_fault a entry = (case entry of (user, idx) \<Rightarrow> (case get_at (nodes a) idx of
      None \<Rightarrow> Some (IndexSlotOutOfRange user idx (length (nodes a)))
    | Some slot \<Rightarrow> if user_id slot = nil_uuid then Some (IndexSlotTombstoned user idx)
        else if user_id slot \<noteq> user then Some (IndexSlotMismatch user idx (user_id slot))
        else None))"

definition check_index :: "arena \<Rightarrow> (snapshot_error, unit) result" where
  "check_index a = raise_fault (lowest_fault fst (index_fault a) (index a))"

text \<open>nodes \<open>\<rightarrow>\<close> index, and every edge of every live node\<close>

definition check_edge :: "arena \<Rightarrow> string \<Rightarrow> nat \<Rightarrow> node_index option \<Rightarrow> (snapshot_error, unit) result" where
  "check_edge a field slot target = (case target of None \<Rightarrow> Ok ()
     | Some t \<Rightarrow> bnd (ok_or (get_at (nodes a) t) (EdgeOutOfRange field slot t (length (nodes a)))) (\<lambda>found.
         if user_id found = nil_uuid then Err (EdgeTombstoned field slot t) else Ok ()))"

definition stale_field :: "node \<Rightarrow> string option" where
  "stale_field n = (if parent n \<noteq> None then Some ''parent''
     else if sponsor n \<noteq> None then Some ''sponsor''
     else if children n \<noteq> [] then Some ''child''
     else if sponsored n \<noteq> [] then Some ''sponsored node''
     else None)"

definition check_node :: "arena \<Rightarrow> nat \<times> node \<Rightarrow> (snapshot_error, unit) result" where
  "check_node a sn = (case sn of (slot, n) \<Rightarrow>
     if user_id n = nil_uuid
     then (case stale_field n of Some field \<Rightarrow> Err (TombstoneNotCleared slot field) | None \<Rightarrow> Ok ())
     else if hm_get (index a) (user_id n) \<noteq> Some slot then Err (NodeNotIndexed slot (user_id n))
     else bnd (check_edge a ''parent'' slot (parent n)) (\<lambda>_.
       bnd (check_edge a ''sponsor'' slot (sponsor n)) (\<lambda>_.
       bnd (for_each (\<lambda>child. check_edge a ''children'' slot (Some child)) (children n)) (\<lambda>_.
       for_each (\<lambda>s. check_edge a ''sponsored'' slot (Some s)) (sponsored n)))))"

definition check_depth :: "arena \<Rightarrow> nat \<times> node \<Rightarrow> (snapshot_error, unit) result" where
  "check_depth a sn = (case sn of (slot, n) \<Rightarrow>
     if user_id n = nil_uuid then Ok ()
     else (case parent n of
         None \<Rightarrow> if depth n \<noteq> 0 then Err (NodeDepthNotZero slot (user_id n) (depth n)) else Ok ()
       | Some p \<Rightarrow> bnd (index_at (nodes a) p) (\<lambda>m.
           if Some (depth n) \<noteq> u32_checked_add (depth m) 1
           then Err (NodeDepthMismatch slot (user_id n) (depth n) p (depth m)) else Ok ())))"

fun check_free :: "arena \<Rightarrow> nat set \<Rightarrow> node_index list \<Rightarrow> (snapshot_error, unit) result" where
  "check_free a seen [] = Ok ()"
| "check_free a seen (i # rest) =
     bnd (ok_or (get_at (nodes a) i) (FreeSlotOutOfRange i (length (nodes a)))) (\<lambda>slot.
       if user_id slot \<noteq> nil_uuid then Err (FreeSlotNotTombstoned i (user_id slot))
       else if i \<in> seen then Err (FreeSlotRepeated i)
       else check_free a (insert i seen) rest)"

definition check_root :: "arena \<Rightarrow> (snapshot_error, unit) result" where
  "check_root a = (case root a of None \<Rightarrow> Ok ()
     | Some r \<Rightarrow> bnd (ok_or (get_at (nodes a) r) (RootOutOfRange r (length (nodes a)))) (\<lambda>slot.
         if user_id slot = nil_uuid then Err (RootTombstoned r)
         else (case sponsor slot of Some s \<Rightarrow> Err (RootHasSponsor r (user_id slot) s) | None \<Rightarrow> Ok ())))"

definition list_edge ::
  "arena \<Rightarrow> string \<Rightarrow> string \<Rightarrow> (node \<Rightarrow> node_index option) \<Rightarrow> nat \<Rightarrow> node_index \<Rightarrow> (nat \<times> nat) set \<Rightarrow>
     (snapshot_error, (nat \<times> nat) set) result" where
  "list_edge a down_field up_field up slot target listed =
     (if (slot, target) \<in> listed then Err (EdgeRepeated down_field slot target)
      else bnd (index_at (nodes a) target) (\<lambda>m.
        if up m \<noteq> Some slot then Err (EdgeNotReciprocated down_field slot target up_field)
        else Ok (insert (slot, target) listed)))"

definition list_node ::
  "arena \<Rightarrow> string \<Rightarrow> string \<Rightarrow> (node \<Rightarrow> node_index list) \<Rightarrow> (node \<Rightarrow> node_index option) \<Rightarrow> nat \<times> node \<Rightarrow>
     (nat \<times> nat) set \<Rightarrow> (snapshot_error, (nat \<times> nat) set) result" where
  "list_node a down_field up_field down up sn listed = (case sn of (slot, n) \<Rightarrow>
     if user_id n = nil_uuid then Ok listed
     else fold_res (list_edge a down_field up_field up slot) (down n) listed)"

definition list_edges ::
  "arena \<Rightarrow> string \<Rightarrow> string \<Rightarrow> (node \<Rightarrow> node_index list) \<Rightarrow> (node \<Rightarrow> node_index option) \<Rightarrow>
     (snapshot_error, (nat \<times> nat) set) result" where
  "list_edges a down_field up_field down up =
     fold_res (list_node a down_field up_field down up) (enumerate 0 (nodes a)) {}"

definition check_back_edge ::
  "string \<Rightarrow> string \<Rightarrow> (node \<Rightarrow> node_index option) \<Rightarrow> (nat \<times> nat) set \<Rightarrow> nat \<times> node \<Rightarrow> (snapshot_error, unit) result" where
  "check_back_edge down_field up_field up listed sn = (case sn of (slot, n) \<Rightarrow>
     if user_id n = nil_uuid then Ok ()
     else (case up n of None \<Rightarrow> Ok ()
       | Some target \<Rightarrow> if (target, slot) \<notin> listed
           then Err (EdgeNotReciprocated up_field slot target down_field) else Ok ()))"

definition check_reciprocal ::
  "arena \<Rightarrow> string \<Rightarrow> string \<Rightarrow> (node \<Rightarrow> node_index list) \<Rightarrow> (node \<Rightarrow> node_index option) \<Rightarrow>
     (snapshot_error, unit) result" where
  "check_reciprocal a down_field up_field down up = bnd (list_edges a down_field up_field down up) (\<lambda>listed.
     for_each (check_back_edge down_field up_field up listed) (enumerate 0 (nodes a)))"

definition check_single_root :: "arena \<Rightarrow> (snapshot_error, unit) result" where
  "check_single_root a = (let live_count = length (filter (\<lambda>n. user_id n \<noteq> nil_uuid) (nodes a)) in
     case root a of
       None \<Rightarrow> if 0 < live_count then Err (RootMissing live_count) else Ok ()
     | Some r \<Rightarrow> for_each (\<lambda>(slot, n).
         if user_id n = nil_uuid \<or> parent n \<noteq> None \<or> slot = r then Ok ()
         else Err (ParentlessNodeNotRoot slot (user_id n) r)) (enumerate 0 (nodes a)))"

definition check_sponsor_chains_end :: "arena \<Rightarrow> (snapshot_error, unit) result" where
  "check_sponsor_chains_end a = check_chains (\<lambda>i. bnd (index_at (nodes a) i) (\<lambda>n. Ok (sponsor n)))
     SponsorChainRevisits (length (nodes a))
     (map fst (filter (\<lambda>(slot, n). user_id n \<noteq> nil_uuid) (enumerate 0 (nodes a))))"

definition validate_restored :: "arena \<Rightarrow> (snapshot_error, unit) result" where
  "validate_restored a = bnd (check_index a) (\<lambda>_.
     bnd (for_each (check_node a) (enumerate 0 (nodes a))) (\<lambda>_.
     bnd (for_each (check_depth a) (enumerate 0 (nodes a))) (\<lambda>_.
     bnd (check_free a {} (free_list a)) (\<lambda>_.
     bnd (check_root a) (\<lambda>_.
     bnd (check_reciprocal a ''children'' ''parent'' children parent) (\<lambda>_.
     bnd (check_single_root a) (\<lambda>_.
     bnd (check_reciprocal a ''sponsored'' ''sponsor'' sponsored sponsor) (\<lambda>_.
     check_sponsor_chains_end a))))))))"

section \<open>What each pass decides\<close>

lemma get_at_live: "get_at (nodes a) i = Some n \<and> user_id n \<noteq> nil_uuid \<longleftrightarrow> live a i \<and> n = nd a i"
  by (auto simp: get_at_def live_def nd_def)

lemma for_each_nodes:
  "for_each f (enumerate 0 (nodes a)) = Ok () \<longleftrightarrow> (\<forall>i < length (nodes a). f (i, nd a i) = Ok ())"
  by (auto simp: in_set_enumerate_eq nd_def)

lemma all_live: "(\<forall>i < length (nodes a). live a i \<longrightarrow> P i) \<longleftrightarrow> (\<forall>i. live a i \<longrightarrow> P i)"
  using live_bound by blast

lemma decided_nodes:
  "(\<And>i. i < length (nodes a) \<Longrightarrow> decided (f (i, nd a i))) \<Longrightarrow> decided (for_each f (enumerate 0 (nodes a)))"
  by (rule decided_for_each) (auto simp: in_set_enumerate_eq nd_def)

lemma index_fault_None: "index_fault a (u, i) = None \<longleftrightarrow> live a i \<and> user_id (nd a i) = u"
  by (auto simp: index_fault_def get_at_def live_def nd_def)

lemma check_index_ok:
  "check_index a = Ok () \<longleftrightarrow> (\<forall>(u, i) \<in> set (index a). live a i \<and> user_id (nd a i) = u)"
  by (auto simp: check_index_def lowest_fault_None index_fault_None)

lemma decided_raise_fault [simp]: "decided (raise_fault h)"
  by (cases h) (simp_all add: raise_fault_def)

lemma check_edge_ok: "check_edge a field slot target = Ok () \<longleftrightarrow> (\<forall>t. target = Some t \<longrightarrow> live a t)"
  by (cases target) (auto simp: check_edge_def get_at_def live_def nd_def)

lemma decided_check_edge [simp]: "decided (check_edge a field slot target)"
  by (cases target) (auto simp: check_edge_def get_at_def)

definition cleared :: "arena \<Rightarrow> node_index \<Rightarrow> bool" where
  "cleared a i \<longleftrightarrow> par a i = None \<and> spn a i = None \<and> kds a i = [] \<and> spd a i = []"

definition edges_live :: "arena \<Rightarrow> node_index \<Rightarrow> bool" where
  "edges_live a i \<longleftrightarrow> (\<forall>t. par a i = Some t \<longrightarrow> live a t) \<and> (\<forall>t. spn a i = Some t \<longrightarrow> live a t) \<and>
     (\<forall>t \<in> set (kds a i). live a t) \<and> (\<forall>t \<in> set (spd a i). live a t)"

lemma stale_field_None: "stale_field (nd a i) = None \<longleftrightarrow> cleared a i"
  by (auto simp: stale_field_def cleared_def)

lemma check_node_ok:
  "check_node a (i, nd a i) = Ok () \<longleftrightarrow>
     (if live a i then hm_get (index a) (user_id (nd a i)) = Some i \<and> edges_live a i else cleared a i)"
  using stale_field_None [of a i]
  by (auto simp: check_node_def live_def [of a i] check_edge_ok edges_live_def split: option.splits)

lemma decided_check_node: "decided (check_node a sn)"
  by (cases sn) (auto simp: check_node_def intro!: decided_bnd decided_for_each split: option.split)

lemma check_depth_ok:
  assumes "live a i \<Longrightarrow> edges_live a i"
  shows "decided (check_depth a (i, nd a i))"
    "check_depth a (i, nd a i) = Ok () \<longleftrightarrow>
      (live a i \<longrightarrow> dep a i = (case par a i of None \<Rightarrow> 0 | Some p \<Rightarrow> Suc (dep a p)))"
proof -
  have add: "Some c = u32_checked_add d 1 \<longleftrightarrow> unat c = Suc (unat d)" for c d
    using u32_checked_add_Some [of d 1 c] by auto
  have "decided (check_depth a (i, nd a i)) \<and> (check_depth a (i, nd a i) = Ok () \<longleftrightarrow>
      (live a i \<longrightarrow> dep a i = (case par a i of None \<Rightarrow> 0 | Some p \<Rightarrow> Suc (dep a p))))"
  proof (cases "live a i")
    case False
    then show ?thesis by (simp add: check_depth_def live_def)
  next
    case True
    then have ne: "user_id (nd a i) \<noteq> nil_uuid" by (simp add: live_def)
    show ?thesis
    proof (cases "par a i")
      case None
      with True ne show ?thesis by (simp add: check_depth_def unat_eq_0)
    next
      case (Some p)
      then have "live a p" using assms [OF True] by (simp add: edges_live_def)
      with True ne Some add [of "depth (nd a i)" "depth (nd a p)"] show ?thesis
        by (simp add: check_depth_def)
    qed
  qed
  then show "decided (check_depth a (i, nd a i))" "check_depth a (i, nd a i) = Ok () \<longleftrightarrow>
      (live a i \<longrightarrow> dep a i = (case par a i of None \<Rightarrow> 0 | Some p \<Rightarrow> Suc (dep a p)))" by simp_all
qed

lemma check_depths_ok:
  assumes "\<forall>i. live a i \<longrightarrow> edges_live a i"
  shows "decided (for_each (check_depth a) (enumerate 0 (nodes a)))"
    "for_each (check_depth a) (enumerate 0 (nodes a)) = Ok () \<longleftrightarrow> depth_wf a"
proof -
  note each = check_depth_ok [OF assms [rule_format]]
  show "decided (for_each (check_depth a) (enumerate 0 (nodes a)))"
    by (intro decided_nodes each(1))
  show "for_each (check_depth a) (enumerate 0 (nodes a)) = Ok () \<longleftrightarrow> depth_wf a"
    unfolding for_each_nodes depth_wf_def by (simp only: each(2) all_live)
qed

lemma check_free_ok:
  "decided (check_free a seen fl)"
  "check_free a seen fl = Ok () \<longleftrightarrow>
     distinct fl \<and> set fl \<inter> seen = {} \<and> (\<forall>i \<in> set fl. i < length (nodes a) \<and> \<not> live a i)"
  by (induction fl arbitrary: seen) (auto simp: get_at_def live_def nd_def)

lemma check_root_ok:
  "decided (check_root a)"
  "check_root a = Ok () \<longleftrightarrow> (\<forall>r. root a = Some r \<longrightarrow> live a r \<and> spn a r = None)"
  by (auto simp: check_root_def get_at_def live_def nd_def split: option.splits)

text \<open>The two directions of an edge agree exactly when the lists invert the links.\<close>

lemma list_edge_fold:
  assumes "\<forall>t \<in> set ts. t < length (nodes a)"
  shows "decided (fold_res (list_edge a df uf up i) ts listed) \<and>
    (\<forall>l. fold_res (list_edge a df uf up i) ts listed = Ok l \<longleftrightarrow>
       distinct ts \<and> (\<forall>t \<in> set ts. (i, t) \<notin> listed \<and> up (nd a t) = Some i) \<and> l = listed \<union> {i} \<times> set ts)"
  using assms
proof (induction ts arbitrary: listed)
  case (Cons t ts)
  have eq: "list_edge a df uf up i t listed = (if (i, t) \<in> listed then Err (EdgeRepeated df i t)
      else if up (nd a t) \<noteq> Some i then Err (EdgeNotReciprocated df i t uf) else Ok (insert (i, t) listed))"
    using Cons.prems by (simp add: list_edge_def nd_def)
  show ?case
  proof (cases "(i, t) \<in> listed \<or> up (nd a t) \<noteq> Some i")
    case False
    with Cons.IH [of "insert (i, t) listed"] Cons.prems show ?thesis by (auto simp: eq)
  qed (auto simp: eq)
qed auto

definition listing :: "arena \<Rightarrow> (node \<Rightarrow> node_index list) \<Rightarrow> nat set \<Rightarrow> (nat \<times> nat) set" where
  "listing a down js = {(j, t). j \<in> js \<and> live a j \<and> t \<in> set (down (nd a j))}"

definition inverts :: "arena \<Rightarrow> (node \<Rightarrow> node_index list) \<Rightarrow> (node \<Rightarrow> node_index option) \<Rightarrow> nat \<Rightarrow> bool" where
  "inverts a down up j \<longleftrightarrow> (live a j \<longrightarrow>
     distinct (down (nd a j)) \<and> (\<forall>t \<in> set (down (nd a j)). up (nd a t) = Some j))"

lemma list_node_ok:
  assumes "live a j \<Longrightarrow> \<forall>t \<in> set (down (nd a j)). t < length (nodes a)" "\<forall>t. (j, t) \<notin> listed"
  shows "decided (list_node a df uf down up (j, nd a j) listed) \<and>
    (\<forall>l. list_node a df uf down up (j, nd a j) listed = Ok l \<longleftrightarrow>
      inverts a down up j \<and> l = listed \<union> listing a down {j})"
proof (cases "live a j")
  case False
  then show ?thesis by (auto simp: list_node_def live_def inverts_def listing_def)
next
  case True
  then have "listing a down {j} = {j} \<times> set (down (nd a j))" by (auto simp: listing_def)
  moreover have "list_node a df uf down up (j, nd a j) listed =
      fold_res (list_edge a df uf up j) (down (nd a j)) listed"
    using True by (simp add: list_node_def live_def)
  ultimately show ?thesis
    using list_edge_fold [of "down (nd a j)" a df uf up j listed] assms True by (simp add: inverts_def)
qed

lemma list_edges_fold:
  assumes "\<And>j. live a j \<Longrightarrow> \<forall>t \<in> set (down (nd a j)). t < length (nodes a)"
    and "distinct js" "\<forall>j \<in> set js. \<forall>t. (j, t) \<notin> listed"
  shows "decided (fold_res (list_node a df uf down up) (map (\<lambda>j. (j, nd a j)) js) listed) \<and>
    (\<forall>l. fold_res (list_node a df uf down up) (map (\<lambda>j. (j, nd a j)) js) listed = Ok l \<longleftrightarrow>
      (\<forall>j \<in> set js. inverts a down up j) \<and> l = listed \<union> listing a down (set js))"
  using assms(2,3)
proof (induction js arbitrary: listed)
  case (Cons j js)
  have un: "listed \<union> listing a down {j} \<union> listing a down (set js) = listed \<union> listing a down (set (j # js))"
    by (auto simp: listing_def)
  note step = list_node_ok [of a j down listed df uf up, OF assms(1)]
  show ?case
  proof (cases "inverts a down up j")
    case True
    with step Cons.prems have "list_node a df uf down up (j, nd a j) listed = Ok (listed \<union> listing a down {j})"
      by simp
    moreover have "\<forall>k \<in> set js. \<forall>t. (k, t) \<notin> listed \<union> listing a down {j}"
      using Cons.prems by (auto simp: listing_def)
    ultimately show ?thesis
      using Cons.IH [of "listed \<union> listing a down {j}"] Cons.prems True un by simp
  next
    case False
    with step Cons.prems obtain e where "list_node a df uf down up (j, nd a j) listed = Err e"
      by (auto simp: decided_def)
    with False show ?thesis by auto
  qed
qed (auto simp: listing_def)

lemma enumerate_nodes: "enumerate 0 (nodes a) = map (\<lambda>j. (j, nd a j)) [0..<length (nodes a)]"
  by (rule nth_equalityI) (auto simp: nth_enumerate_eq nd_def)

lemma list_edges_ok:
  assumes "\<forall>j. live a j \<longrightarrow> (\<forall>t \<in> set (down (nd a j)). live a t)"
  shows "decided (list_edges a df uf down up)"
    "list_edges a df uf down up = Ok l \<longleftrightarrow> (\<forall>j. inverts a down up j) \<and> l = listing a down UNIV"
proof -
  have "listing a down {0..<length (nodes a)} = listing a down UNIV"
    using live_bound by (auto simp: listing_def)
  moreover have "(\<forall>j \<in> {0..<length (nodes a)}. inverts a down up j) \<longleftrightarrow> (\<forall>j. inverts a down up j)"
    using live_bound by (auto simp: inverts_def)
  ultimately show "decided (list_edges a df uf down up)"
    "list_edges a df uf down up = Ok l \<longleftrightarrow> (\<forall>j. inverts a down up j) \<and> l = listing a down UNIV"
    using list_edges_fold [of a down "[0..<length (nodes a)]" "{}" df uf up] assms live_bound
    unfolding list_edges_def enumerate_nodes by simp_all
qed

lemma check_reciprocal_ok:
  assumes "\<forall>j. live a j \<longrightarrow> (\<forall>t \<in> set (down (nd a j)). live a t)"
    and "\<forall>j t. live a j \<longrightarrow> up (nd a j) = Some t \<longrightarrow> live a t"
  shows "decided (check_reciprocal a df uf down up)"
    "check_reciprocal a df uf down up = Ok () \<longleftrightarrow> links_wf up down a"
proof -
  have rev_edge: "check_back_edge df uf up l (j, nd a j) = Ok () \<longleftrightarrow>
      (live a j \<longrightarrow> (\<forall>t. up (nd a j) = Some t \<longrightarrow> (t, j) \<in> l))" for l j
    by (auto simp: check_back_edge_def live_def split: option.split)
  show "decided (check_reciprocal a df uf down up)"
    unfolding check_reciprocal_def
    by (intro decided_bnd list_edges_ok(1) [OF assms(1)] decided_for_each)
       (auto simp: check_back_edge_def split: option.split)
  have "check_reciprocal a df uf down up = Ok () \<longleftrightarrow> (\<forall>j. inverts a down up j) \<and>
      (\<forall>j. live a j \<longrightarrow> (\<forall>t. up (nd a j) = Some t \<longrightarrow> (t, j) \<in> listing a down UNIV))"
    unfolding check_reciprocal_def bnd_eq_Ok list_edges_ok(2) [OF assms(1)] for_each_nodes rev_edge all_live
    by simp
  also have "\<dots> \<longleftrightarrow> links_wf up down a"
    unfolding links_wf_def inverts_def listing_def using assms by blast
  finally show "check_reciprocal a df uf down up = Ok () \<longleftrightarrow> links_wf up down a" .
qed

lemma check_single_root_ok:
  "decided (check_single_root a)"
  "check_single_root a = Ok () \<longleftrightarrow> (case root a of None \<Rightarrow> \<forall>i. \<not> live a i
     | Some r \<Rightarrow> \<forall>i. live a i \<longrightarrow> par a i = None \<longrightarrow> i = r)"
proof -
  show "decided (check_single_root a)"
    by (auto simp: check_single_root_def Let_def intro!: decided_for_each split: option.split)
  have "(\<exists>n \<in> set (nodes a). user_id n \<noteq> nil_uuid) \<longleftrightarrow> (\<exists>i. live a i)"
    unfolding live_def nd_def set_conv_nth by (auto split: if_splits)
  then have "0 < length (filter (\<lambda>n. user_id n \<noteq> nil_uuid) (nodes a)) \<longleftrightarrow> (\<exists>i. live a i)"
    by (simp add: filter_empty_conv)
  moreover have "for_each (\<lambda>(slot, n). if user_id n = nil_uuid \<or> parent n \<noteq> None \<or> slot = r then Ok ()
      else Err (ParentlessNodeNotRoot slot (user_id n) r)) (enumerate 0 (nodes a)) = Ok () \<longleftrightarrow>
      (\<forall>i. live a i \<longrightarrow> par a i = None \<longrightarrow> i = r)" for r
  proof -
    have "(\<lambda>(slot, n). if user_id n = nil_uuid \<or> parent n \<noteq> None \<or> slot = r then Ok ()
      else Err (ParentlessNodeNotRoot slot (user_id n) r)) (i, nd a i) = Ok () \<longleftrightarrow>
      (live a i \<longrightarrow> par a i = None \<longrightarrow> i = r)" for i by (auto simp: live_def)
    then show ?thesis unfolding for_each_nodes by (simp only: all_live)
  qed
  ultimately show "check_single_root a = Ok () \<longleftrightarrow> (case root a of None \<Rightarrow> \<forall>i. \<not> live a i
     | Some r \<Rightarrow> \<forall>i. live a i \<longrightarrow> par a i = None \<longrightarrow> i = r)"
    by (simp only: check_single_root_def Let_def) (auto split: option.split)
qed

lemma check_sponsor_chains_end_ok:
  assumes "\<forall>i t. live a i \<longrightarrow> spn a i = Some t \<longrightarrow> live a t"
  shows "decided (check_sponsor_chains_end a)" "check_sponsor_chains_end a = Ok () \<longleftrightarrow> chains_wf a"
proof -
  have starts: "set (map fst (filter (\<lambda>(slot, n). user_id n \<noteq> nil_uuid) (enumerate 0 (nodes a)))) = live_set a"
    unfolding enumerate_nodes using live_bound by (force simp: live_def)
  note exact = check_chains_exact [where D = "live_set a" and n = "length (nodes a)" and nx = "spn a",
      OF equalityD1 [OF starts] live_set_bound]
  show "decided (check_sponsor_chains_end a)"
    unfolding check_sponsor_chains_end_def by (rule exact(1)) (use assms in auto)
  show "check_sponsor_chains_end a = Ok () \<longleftrightarrow> chains_wf a"
    unfolding check_sponsor_chains_end_def
    by (subst exact(2)) (use assms starts in \<open>auto simp: chains_wf_def ends_def simp del: set_map\<close>)
qed

section \<open>The validator accepts exactly the well-formed arenas\<close>

text \<open>The conditions the passes establish, in their order.\<close>

definition nodes_ok :: "arena \<Rightarrow> bool" where
  "nodes_ok a \<longleftrightarrow> (\<forall>i < length (nodes a). if live a i
     then hm_get (index a) (user_id (nd a i)) = Some i \<and> edges_live a i else cleared a i)"

definition sole_root :: "arena \<Rightarrow> bool" where
  "sole_root a \<longleftrightarrow> (case root a of None \<Rightarrow> \<forall>i. \<not> live a i
     | Some r \<Rightarrow> \<forall>i. live a i \<longrightarrow> par a i = None \<longrightarrow> i = r)"

definition restored_ok :: "arena \<Rightarrow> bool" where
  "restored_ok a \<longleftrightarrow> (\<forall>(u, i) \<in> set (index a). live a i \<and> user_id (nd a i) = u) \<and> nodes_ok a \<and>
     depth_wf a \<and> free_wf a \<and> (\<forall>r. root a = Some r \<longrightarrow> live a r \<and> spn a r = None) \<and>
     links_wf parent children a \<and> sole_root a \<and> links_wf sponsor sponsored a \<and> chains_wf a"

lemma nodes_ok_edges: "nodes_ok a \<Longrightarrow> \<forall>i. live a i \<longrightarrow> edges_live a i"
  using live_bound [of a] by (auto simp: nodes_ok_def)

lemma nodes_ok_links:
  assumes "nodes_ok a"
  shows "\<forall>j. live a j \<longrightarrow> (\<forall>t \<in> set (kds a j). live a t)" "\<forall>j t. live a j \<longrightarrow> par a j = Some t \<longrightarrow> live a t"
    "\<forall>j. live a j \<longrightarrow> (\<forall>t \<in> set (spd a j). live a t)" "\<forall>j t. live a j \<longrightarrow> spn a j = Some t \<longrightarrow> live a t"
  using nodes_ok_edges [OF assms] unfolding edges_live_def by blast+

lemma check_nodes_ok: "for_each (check_node a) (enumerate 0 (nodes a)) = Ok () \<longleftrightarrow> nodes_ok a"
  unfolding for_each_nodes check_node_ok nodes_ok_def ..

lemmas validate_passes = check_index_ok check_nodes_ok check_free_ok(2) check_root_ok(2)
  check_single_root_ok(2) [folded sole_root_def]

lemma validate_restored_decided: "decided (validate_restored a)"
proof -
  have index: "decided (check_index a)" by (simp add: check_index_def)
  have nodes: "decided (for_each (check_node a) (enumerate 0 (nodes a)))"
    by (intro decided_for_each decided_check_node)
  show ?thesis
  proof (cases "nodes_ok a")
    case True
    show ?thesis unfolding validate_restored_def
      by (intro decided_bnd index nodes check_free_ok(1) check_root_ok(1) check_single_root_ok(1)
          check_depths_ok(1) nodes_ok_edges check_reciprocal_ok(1) check_sponsor_chains_end_ok(1)
          nodes_ok_links True)
  next
    case False
    then obtain e where "for_each (check_node a) (enumerate 0 (nodes a)) = Err e"
      using decided_unit [OF nodes] unfolding check_nodes_ok by blast
    with index show ?thesis unfolding validate_restored_def by (intro decided_bnd) simp_all
  qed
qed

lemma validate_restored_passes: "validate_restored a = Ok () \<longleftrightarrow> restored_ok a"
proof (cases "nodes_ok a")
  case True
  note later = check_depths_ok(2) [OF nodes_ok_edges [OF True]]
    check_reciprocal_ok(2) [OF nodes_ok_links(1,2) [OF True]]
    check_reciprocal_ok(2) [OF nodes_ok_links(3,4) [OF True]]
    check_sponsor_chains_end_ok(2) [OF nodes_ok_links(4) [OF True]]
  show ?thesis
    unfolding validate_restored_def bnd_eq_Ok restored_ok_def by (simp add: validate_passes later free_wf_def case_prod_unfold del: for_each_Ok)
qed (simp add: validate_restored_def restored_ok_def check_nodes_ok del: for_each_Ok)

text \<open>
  The stored root needs no check of its own that it is parentless: were it below another node,
  the chain of parents would climb to a parentless node of smaller depth, and that would have to
  be the root again.
\<close>

lemma sole_root_parentless:
  assumes depth: "depth_wf a" and links: "\<forall>j t. live a j \<longrightarrow> par a j = Some t \<longrightarrow> live a t"
    and root: "root a = Some r" "live a r" and sole: "sole_root a"
  shows "par a r = None"
proof (rule ccontr)
  assume "par a r \<noteq> None"
  then obtain p where p: "par a r = Some p" by auto
  have top: "\<exists>x. live a x \<and> par a x = None \<and> dep a x \<le> dep a j" if "live a j" for j
    using that
  proof (induction "dep a j" arbitrary: j rule: less_induct)
    case less
    show ?case
    proof (cases "par a j")
      case None
      with less.prems show ?thesis by blast
    next
      case (Some q)
      then have "live a q" "dep a q < dep a j" using links less.prems depth by (auto simp: depth_wf_def)
      from less.hyps [OF this(2,1)] this(2) show ?thesis by (meson le_trans less_imp_le)
    qed
  qed
  have "live a p" "dep a p < dep a r" using p links root depth by (auto simp: depth_wf_def)
  moreover obtain x where "live a x" "par a x = None" "dep a x \<le> dep a p" using top [OF calculation(1)] by blast
  moreover have "x = r" using calculation sole root by (auto simp: sole_root_def)
  ultimately show False by simp
qed

lemma restored_ok_wf:
  assumes "hm_ok (index a)"
  shows "restored_ok a \<longleftrightarrow> arena_wf a"
proof
  assume ok: "restored_ok a"
  then have nodes: "nodes_ok a" by (simp add: restored_ok_def)
  have "hm_get (index a) u = Some i \<longleftrightarrow> u \<noteq> nil_uuid \<and> user_id (nd a i) = u" for u i
  proof
    assume "hm_get (index a) u = Some i"
    with ok show "u \<noteq> nil_uuid \<and> user_id (nd a i) = u"
      by (auto simp: restored_ok_def live_def dest: hm_get_in)
  next
    assume u: "u \<noteq> nil_uuid \<and> user_id (nd a i) = u"
    then have "live a i" by (auto simp: live_def)
    with u nodes live_bound [OF this] show "hm_get (index a) u = Some i" unfolding nodes_ok_def by metis
  qed
  then have "index_wf a" using assms by (simp add: index_wf_def)
  moreover have "tombs_wf a"
    unfolding tombs_wf_def
  proof (intro allI impI)
    fix i assume "\<not> live a i"
    with nodes show "par a i = None \<and> spn a i = None \<and> kds a i = [] \<and> spd a i = []"
      by (cases "i < length (nodes a)") (auto simp: nodes_ok_def cleared_def)
  qed
  moreover have "root_wf a"
  proof (cases "root a")
    case None
    with ok show ?thesis unfolding restored_ok_def sole_root_def root_wf_def by simp
  next
    case (Some r)
    with ok have "live a r" "spn a r = None" "depth_wf a" "sole_root a" unfolding restored_ok_def by blast+
    with sole_root_parentless [OF _ nodes_ok_links(2) [OF nodes] Some] show ?thesis
      unfolding root_wf_def sole_root_def Some option.case by blast
  qed
  ultimately show "arena_wf a" using ok by (simp add: arena_wf_def restored_ok_def)
next
  assume wf: "arena_wf a"
  note D = arena_wfD [OF wf]
  have "live a i \<and> user_id (nd a i) = u" if "(u, i) \<in> set (index a)" for u i
    using index_live [OF wf] hm_in_get [OF assms] that by blast
  then have "\<forall>(u, i) \<in> set (index a). live a i \<and> user_id (nd a i) = u" by blast
  moreover have edges: "edges_live a i" if "live a i" for i
    unfolding edges_live_def
    using that par_live [OF wf] spn_live [OF wf] kds_live [OF wf] spd_live [OF wf] by blast
  have "cleared a i" if "\<not> live a i" for i
    using D(5) that unfolding cleared_def tombs_wf_def by blast
  then have "nodes_ok a" using edges live_indexed [OF wf] unfolding nodes_ok_def by presburger
  moreover have "sole_root a \<and> (\<forall>r. root a = Some r \<longrightarrow> live a r \<and> spn a r = None)"
    using D(7) unfolding sole_root_def root_wf_def by (cases "root a") (simp_all only: option.case, blast+)
  ultimately show "restored_ok a" using D unfolding restored_ok_def by blast
qed

lemma validate_restored_wf: "hm_ok (index a) \<Longrightarrow> validate_restored a = Ok () \<longleftrightarrow> arena_wf a"
  by (simp add: validate_restored_passes restored_ok_wf)

end
