(* ===== verification/Rows.thy ===== *)
theory Rows
  imports Prelude
begin

text \<open>
  Rows of places that hold something or nothing: the child slots of a tree node and the positions
  of a board.
\<close>

text \<open>\<open>row.iter().flatten()\<close>: the occupied positions in slot order.\<close>

fun occupied :: "'a option list \<Rightarrow> 'a list" where
  "occupied [] = []"
| "occupied (None # row) = occupied row"
| "occupied (Some i # row) = i # occupied row"

lemma occupied_append [simp]: "occupied (xs @ ys) = occupied xs @ occupied ys"
  by (induction xs rule: occupied.induct) simp_all

lemma occupied_replicate [simp]: "occupied (replicate n None) = []"
  by (induction n) simp_all

lemma occupied_set: "i \<in> set (occupied row) \<longleftrightarrow> Some i \<in> set row"
  by (induction row rule: occupied.induct) auto

lemma occupied_map: "occupied (map (map_option f) row) = map f (occupied row)"
  by (induction row rule: occupied.induct) simp_all

lemma occupied_clear:
  "occupied (map (\<lambda>s. if s = Some i then None else s) row) = filter (\<lambda>c. c \<noteq> i) (occupied row)"
  by (induction row rule: occupied.induct) auto

lemma row_split:
  assumes "pos < length row"
  shows "row = take pos row @ row ! pos # drop (Suc pos) row"
  by (rule id_take_nth_drop [OF assms])

lemma occupied_fill:
  assumes "pos < length row" "row ! pos = None" "distinct (occupied row)" "i \<notin> set (occupied row)"
  shows "distinct (occupied (row[pos := Some i]))" "set (occupied (row[pos := Some i])) = insert i (set (occupied row))"
proof -
  let ?l = "occupied (take pos row)" and ?r = "occupied (drop (Suc pos) row)"
  have "occupied row = ?l @ ?r"
    by (subst row_split [OF assms(1)], simp only: occupied_append assms(2) occupied.simps)
  moreover have "occupied (row[pos := Some i]) = ?l @ i # ?r"
    by (simp add: upd_conv_take_nth_drop [OF assms(1)])
  ultimately show "distinct (occupied (row[pos := Some i]))"
    "set (occupied (row[pos := Some i])) = insert i (set (occupied row))"
    using assms(3,4) by auto
qed

lemma occupied_erase:
  assumes "pos < length row" "row ! pos = Some i" "distinct (occupied row)"
  shows "occupied (row[pos := None]) = filter (\<lambda>c. c \<noteq> i) (occupied row)"
proof -
  let ?l = "occupied (take pos row)" and ?r = "occupied (drop (Suc pos) row)"
  have "occupied row = ?l @ i # ?r"
    by (subst row_split [OF assms(1)], simp only: occupied_append assms(2) occupied.simps)
  moreover have "occupied (row[pos := None]) = ?l @ ?r"
    by (simp add: upd_conv_take_nth_drop [OF assms(1)])
  moreover have "filter (\<lambda>c. c \<noteq> i) ?l = ?l" "filter (\<lambda>c. c \<noteq> i) ?r = ?r"
    using assms(3) calculation(1) by (auto intro: filter_True)
  ultimately show ?thesis by simp
qed

end
