(* ===== verification/Slots.thy ===== *)
theory Slots
  imports Positions Arena_Validate Rows
begin

text \<open>
  The child-slot maps of the binary and the matrix tree. A row holds one entry per position,
  \<open>None\<close> for an open one; \<open>[Option<NodeIndex>; 2]\<close> of the binary tree is a row of length 2. The
  first part gives the checks of \<open>src/tree/arena.rs\<close> that a restored slot map must pass and shows
  what they accept, the second what a placement or a removal does to a slot map in agreement with
  its arena.
\<close>

type_synonym slot_row = "node_index option list"
type_synonym slot_map = "(node_index, slot_row) hmap"

section \<open>The checks on a restored slot map\<close>

definition check_slot_index :: "arena \<Rightarrow> nat \<Rightarrow> (snapshot_error, unit) result" where
  "check_slot_index a slot =
     bnd (ok_or (get_at (nodes a) slot) (ChildSlotOutOfRange slot (length (nodes a)))) (\<lambda>n.
       if user_id n = nil_uuid then Err (ChildSlotTombstoned slot) else Ok ())"

definition check_every_live_node_has_a_slot :: "arena \<Rightarrow> slot_map \<Rightarrow> (snapshot_error, unit) result" where
  "check_every_live_node_has_a_slot a slots = for_each (\<lambda>(slot, n).
     if user_id n = nil_uuid then Ok ()
     else if \<not> hm_contains slots slot then Err (SlotEntryMissing slot (user_id n))
     else Ok ()) (enumerate 0 (nodes a))"

text \<open>
  What the walk over the slot map records: the lowest parent holding the root, the lowest node
  holding itself, and for every child the parents that name it.
\<close>

type_synonym census = "nat option \<times> nat option \<times> (node_index, nat \<times> nat list) hmap"

definition lower :: "nat \<Rightarrow> nat option \<Rightarrow> bool" where
  "lower p held \<longleftrightarrow> (case held of None \<Rightarrow> True | Some h \<Rightarrow> p < h)"

definition note_child :: "arena \<Rightarrow> node_index \<Rightarrow> node_index \<Rightarrow> census \<Rightarrow> census" where
  "note_child a p child c = (case c of (root_as_child, self_as_child, parents_of) \<Rightarrow>
     (if root a = Some child \<and> lower p root_as_child then Some p else root_as_child,
      if child = p \<and> lower p self_as_child then Some p else self_as_child,
      case hm_get parents_of child of
        Some (first, rest) \<Rightarrow> hm_insert child (first, rest @ [p]) parents_of
      | None \<Rightarrow> hm_insert child (p, []) parents_of))"

definition slot_census :: "arena \<Rightarrow> slot_map \<Rightarrow> census" where
  "slot_census a slots = fold (\<lambda>(p, row). fold (note_child a p) (occupied row)) slots (None, None, [])"

definition repeat_fault :: "(node_index, nat \<times> nat list) hmap \<Rightarrow> node_index \<Rightarrow> (snapshot_error, unit) result" where
  "repeat_fault parents_of child = bnd (expect (hm_get parents_of child)) (\<lambda>(first, rest).
     let distinct_parents = remdups_adj (sort (first # rest)) in
     bnd (index_at distinct_parents 0) (\<lambda>first_parent.
       case get_at distinct_parents 1 of
         Some second_parent \<Rightarrow>
           Err (ChildSlotRepeated child first_parent second_parent (length distinct_parents))
       | None \<Rightarrow> Err (ChildSlottedTwiceUnderOneParent child first_parent)))"

definition check_every_live_node_is_slotted_once :: "arena \<Rightarrow> slot_map \<Rightarrow> (snapshot_error, unit) result" where
  "check_every_live_node_is_slotted_once a slots =
     (case slot_census a slots of (root_as_child, self_as_child, parents_of) \<Rightarrow>
       (case root_as_child of Some p \<Rightarrow> Err (RootSlottedAsChild p)
        | None \<Rightarrow>
       (case self_as_child of Some slot \<Rightarrow> Err (NodeSlottedUnderItself slot)
        | None \<Rightarrow>
       (case min_by_key id (map fst (filter (\<lambda>(_, _, rest). rest \<noteq> []) parents_of)) of
          Some child \<Rightarrow> repeat_fault parents_of child
        | None \<Rightarrow> for_each (\<lambda>(slot, n).
            if user_id n = nil_uuid \<or> root a = Some slot then Ok ()
            else if \<not> hm_contains parents_of slot then Err (LiveNodeNotSlotted slot (user_id n))
            else Ok ()) (enumerate 0 (nodes a))))))"

definition check_children_match_slots :: "arena \<Rightarrow> slot_map \<Rightarrow> (snapshot_error, unit) result" where
  "check_children_match_slots a slots = bnd (fold_res (\<lambda>(p, entry) fault.
     bnd (index_at (nodes a) p) (\<lambda>n.
       let slotted = occupied entry in
       Ok (keep_lowest p (if slotted \<noteq> children n
         then Some (ChildrenDisagreeWithSlots p (children n) slotted) else None) fault))) slots None)
     raise_fault"

section \<open>What the checks accept\<close>

text \<open>
  A slot map agrees with its arena: its keys are the live nodes, every row has the width of the
  tree, and the occupied positions of a row, in order, are the children of its node.
\<close>

definition slots_wf :: "nat \<Rightarrow> arena \<Rightarrow> slot_map \<Rightarrow> bool" where
  "slots_wf w a sl \<longleftrightarrow> hm_ok sl \<and> (\<forall>i. hm_get sl i \<noteq> None \<longleftrightarrow> live a i) \<and>
     (\<forall>i row. hm_get sl i = Some row \<longrightarrow> length row = w \<and> occupied row = kds a i)"

lemma check_slot_index_ok: "check_slot_index a i = Ok () \<longleftrightarrow> live a i"
  by (auto simp: check_slot_index_def get_at_def live_def nd_def)

lemma decided_check_slot_index [simp]: "decided (check_slot_index a i)"
  by (auto simp: check_slot_index_def get_at_def)

lemma err_of_None: "decided r \<Longrightarrow> err_of r = None \<longleftrightarrow> r = Ok ()"
  by (auto simp: err_of_def decided_def)

lemma err_check_slot_index: "err_of (check_slot_index a i) = None \<longleftrightarrow> live a i"
  by (simp add: err_of_None check_slot_index_ok)

lemma has_a_slot_ok:
  "check_every_live_node_has_a_slot a sl = Ok () \<longleftrightarrow> (\<forall>i. live a i \<longrightarrow> hm_get sl i \<noteq> None)"
proof -
  have "check_every_live_node_has_a_slot a sl = Ok () \<longleftrightarrow>
      (\<forall>i < length (nodes a). live a i \<longrightarrow> hm_get sl i \<noteq> None)"
    unfolding check_every_live_node_has_a_slot_def for_each_nodes by (auto simp: live_def)
  then show ?thesis by (simp only: all_live)
qed

lemma decided_has_a_slot: "decided (check_every_live_node_has_a_slot a sl)"
  unfolding check_every_live_node_has_a_slot_def by (rule decided_nodes) simp

lemma children_match:
  assumes "\<forall>(p, row) \<in> set sl. live a p"
  shows "check_children_match_slots a sl = raise_fault (lowest_fault fst (\<lambda>(p, row).
     if occupied row \<noteq> kds a p then Some (ChildrenDisagreeWithSlots p (kds a p) (occupied row)) else None) sl)"
proof -
  have "fold_res (\<lambda>(p, entry) fault. bnd (index_at (nodes a) p) (\<lambda>n. let slotted = occupied entry in
      Ok (keep_lowest p (if slotted \<noteq> children n
        then Some (ChildrenDisagreeWithSlots p (children n) slotted) else None) fault))) sl h =
    (Ok (fold (\<lambda>x. keep_lowest (fst x) (case x of (p, row) \<Rightarrow> if occupied row \<noteq> kds a p
        then Some (ChildrenDisagreeWithSlots p (kds a p) (occupied row)) else None)) sl h)
      :: (snapshot_error, (nat \<times> snapshot_error) option) result)" for h
    using assms by (induction sl arbitrary: h) (auto simp: Let_def)
  then show ?thesis unfolding check_children_match_slots_def lowest_fault_def by (simp only: bnd.simps)
qed

lemma children_match_ok:
  assumes "\<forall>(p, row) \<in> set sl. live a p"
  shows "check_children_match_slots a sl = Ok () \<longleftrightarrow> (\<forall>(p, row) \<in> set sl. occupied row = kds a p)"
    "decided (check_children_match_slots a sl)"
  by (auto simp: children_match [OF assms] lowest_fault_None split: if_splits)

subsection \<open>The census\<close>

text \<open>
  The walk sees a list of \<open>(parent, child)\<close> edges, in the map's order. The census is a function
  of how often each edge occurs.
\<close>

definition slot_edges :: "slot_map \<Rightarrow> (nat \<times> node_index) list" where
  "slot_edges sl = concat (map (\<lambda>(p, row). map (Pair p) (occupied row)) sl)"

definition lowest :: "nat set \<Rightarrow> nat option" where
  "lowest P = (if P = {} then None else Some (Min P))"

definition namers :: "(nat \<times> node_index) list \<Rightarrow> node_index \<Rightarrow> nat list" where
  "namers es c = map fst (filter (\<lambda>e. snd e = c) es)"

definition root_holders :: "arena \<Rightarrow> (nat \<times> node_index) list \<Rightarrow> nat set" where
  "root_holders a es = {p. \<exists>c. (p, c) \<in> set es \<and> root a = Some c}"

definition self_holders :: "(nat \<times> node_index) list \<Rightarrow> nat set" where
  "self_holders es = {p. (p, p) \<in> set es}"

lemma slot_edges_iff: "(p, c) \<in> set (slot_edges sl) \<longleftrightarrow> (\<exists>row. (p, row) \<in> set sl \<and> c \<in> set (occupied row))"
  by (auto simp: slot_edges_def)

lemma lowest_None [simp]: "lowest P = None \<longleftrightarrow> P = {}" "lowest {} = None"
  by (simp_all add: lowest_def)

lemma lower_lowest:
  assumes "finite P"
  shows "(if lower p (lowest P) then Some p else lowest P) = lowest (insert p P)"
  using assms by (cases "P = {}") (simp_all add: lower_def lowest_def min_def del: Min_gr_iff Min_ge_iff)

lemma slot_census_edges:
  "slot_census a sl = fold (\<lambda>(p, c). note_child a p c) (slot_edges sl) (None, None, [])"
proof -
  have "fold (\<lambda>(p, c). note_child a p c) (map (Pair p) cs) = fold (note_child a p) cs" for p cs
    by (induction cs) simp_all
  then have "fold (\<lambda>(p, row). fold (note_child a p) (occupied row)) sl =
      fold (\<lambda>(p, c). note_child a p c) (slot_edges sl)"
    by (induction sl) (auto simp: slot_edges_def)
  then show ?thesis by (simp add: slot_census_def)
qed

lemma census_spec:
  obtains m where "fold (\<lambda>(p, c). note_child a p c) es (None, None, []) =
      (lowest (root_holders a es), lowest (self_holders es), m)"
    "hm_ok m" "\<And>c. hm_get m c = (case namers es c of [] \<Rightarrow> None | f # rest \<Rightarrow> Some (f, rest))"
proof (induction es arbitrary: thesis rule: rev_induct)
  case Nil
  show ?case by (rule Nil.prems [of "[]"]) (simp_all add: namers_def root_holders_def self_holders_def)
next
  case (snoc e es)
  obtain p c where e: "e = (p, c)" by (cases e)
  obtain m where m: "fold (\<lambda>(p, c). note_child a p c) es (None, None, []) =
      (lowest (root_holders a es), lowest (self_holders es), m)"
    "hm_ok m" "\<And>c. hm_get m c = (case namers es c of [] \<Rightarrow> None | f # rest \<Rightarrow> Some (f, rest))"
    using snoc.IH by blast
  let ?R = "root_holders a es" and ?S = "self_holders es"
  let ?m = "case hm_get m c of Some (first, rest) \<Rightarrow> hm_insert c (first, rest @ [p]) m
     | None \<Rightarrow> hm_insert c (p, []) m"
  have fin: "finite ?R" "finite ?S"
    by (rule finite_subset [of _ "fst ` set es"]; force simp: root_holders_def self_holders_def)+
  have R: "root_holders a (es @ [e]) = (if root a = Some c then insert p ?R else ?R)"
    and S: "self_holders (es @ [e]) = (if c = p then insert p ?S else ?S)"
    using e by (auto simp: root_holders_def self_holders_def)
  show ?case
  proof (rule snoc.prems [of ?m])
    show "fold (\<lambda>(p, c). note_child a p c) (es @ [e]) (None, None, []) =
      (lowest (root_holders a (es @ [e])), lowest (self_holders (es @ [e])), ?m)"
      unfolding R S by (simp add: m(1) e note_child_def lower_lowest [OF fin(1), symmetric]
          lower_lowest [OF fin(2), symmetric])
    show "hm_ok ?m" using m(2) by (simp split: option.split)
    show "hm_get ?m x = (case namers (es @ [e]) x of [] \<Rightarrow> None | f # rest \<Rightarrow> Some (f, rest))" for x
      using m(3) [of c] m(3) [of x] by (auto simp: namers_def e split: list.splits option.splits)
  qed
qed

text \<open>The check, by the number of times each node is named.\<close>

definition twice_fault :: "(nat \<times> node_index) list \<Rightarrow> node_index \<Rightarrow> snapshot_error" where
  "twice_fault es c = (case sorted_list_of_set {p. (p, c) \<in> set es} of
      p # q # rest \<Rightarrow> ChildSlotRepeated c p q (Suc (Suc (length rest)))
    | p # [] \<Rightarrow> ChildSlottedTwiceUnderOneParent c p
    | [] \<Rightarrow> LiveNodeNotSlotted c nil_uuid)"

definition slotted_once_verdict :: "arena \<Rightarrow> (nat \<times> node_index) list \<Rightarrow> (snapshot_error, unit) result" where
  "slotted_once_verdict a es = (case lowest (root_holders a es) of
      Some p \<Rightarrow> Err (RootSlottedAsChild p)
    | None \<Rightarrow> (case lowest (self_holders es) of
        Some p \<Rightarrow> Err (NodeSlottedUnderItself p)
      | None \<Rightarrow> (case lowest {c. 1 < count_list (map snd es) c} of
          Some c \<Rightarrow> Err (twice_fault es c)
        | None \<Rightarrow> for_each (\<lambda>(slot, n).
            if user_id n = nil_uuid \<or> root a = Some slot then Ok ()
            else if slot \<notin> snd ` set es then Err (LiveNodeNotSlotted slot (user_id n))
            else Ok ()) (enumerate 0 (nodes a)))))"

lemma remdups_adj_sort: "remdups_adj (sort xs) = sorted_list_of_set (set xs)"
proof (rule sorted_distinct_set_unique)
  have "sorted ys \<Longrightarrow> distinct (remdups_adj ys)" for ys :: "'a list"
    by (induction ys rule: remdups_adj.induct) auto
  then show "distinct (remdups_adj (sort xs))" by simp
qed simp_all

lemma namers_length: "length (namers es c) = count_list (map snd es) c"
  by (induction es) (auto simp: namers_def)

lemma namers_set: "set (namers es c) = {p. (p, c) \<in> set es}"
  by (force simp: namers_def)

lemma repeat_fault_verdict:
  assumes "hm_get m c = (case namers es c of [] \<Rightarrow> None | f # rest \<Rightarrow> Some (f, rest))"
    and "1 < count_list (map snd es) c"
  shows "repeat_fault m c = Err (twice_fault es c)"
proof -
  obtain f rest where n: "namers es c = f # rest"
    using assms(2) namers_length [of es c] by (cases "namers es c") auto
  define ds where "ds = sorted_list_of_set {p. (p, c) \<in> set es}"
  have s: "remdups_adj (sort (f # rest)) = ds"
    unfolding remdups_adj_sort n [symmetric] namers_set ds_def ..
  then have "ds \<noteq> []" by (metis list.distinct(1) remdups_adj_Nil_iff set_empty set_sort)
  moreover have "repeat_fault m c = (let distinct_parents = ds in
     bnd (index_at distinct_parents 0) (\<lambda>first_parent. case get_at distinct_parents 1 of
         Some second_parent \<Rightarrow>
           Err (ChildSlotRepeated c first_parent second_parent (length distinct_parents))
       | None \<Rightarrow> Err (ChildSlottedTwiceUnderOneParent c first_parent)))"
    unfolding repeat_fault_def assms(1) n list.case expect_simps bnd.simps prod.case s ..
  ultimately show ?thesis unfolding twice_fault_def ds_def [symmetric]
    by (auto simp: Let_def index_at_def get_at_def split: list.split)
qed

lemma lowest_min_by_key: "min_by_key id xs = lowest (set xs)"
proof (cases "min_by_key id xs")
  case (Some b)
  with min_by_key_Some [of id xs b] show ?thesis
    by (auto simp: lowest_def intro!: Min_eqI [symmetric])
qed (use min_by_key_None [of id xs] in \<open>auto simp: lowest_def\<close>)

lemma split_list_longer:
  "(\<exists>f rest. (case xs of [] \<Rightarrow> None | f # rest \<Rightarrow> Some (f, rest)) = Some (f, rest) \<and> rest \<noteq> []) \<longleftrightarrow> 1 < length xs"
  by (cases xs) (auto simp: Suc_le_eq)

lemma slotted_once_eq: "check_every_live_node_is_slotted_once a sl = slotted_once_verdict a (slot_edges sl)"
proof -
  let ?es = "slot_edges sl"
  obtain m where m: "slot_census a sl =
      (lowest (root_holders a ?es), lowest (self_holders ?es), m)"
    "hm_ok m" "\<And>c. hm_get m c = (case namers ?es c of [] \<Rightarrow> None | f # rest \<Rightarrow> Some (f, rest))"
    unfolding slot_census_edges by (rule census_spec) blast
  have "set (map fst (filter (\<lambda>(_, _, rest). rest \<noteq> []) m)) = {c. \<exists>f rest. hm_get m c = Some (f, rest) \<and> rest \<noteq> []}"
    by (force simp: hm_in_get [OF m(2), symmetric])
  also have "\<dots> = {c. 1 < count_list (map snd ?es) c}"
    unfolding m(3) namers_length [symmetric] split_list_longer ..
  finally have rep: "min_by_key id (map fst (filter (\<lambda>(_, _, rest). rest \<noteq> []) m)) =
      lowest {c. 1 < count_list (map snd ?es) c}" by (simp only: lowest_min_by_key)
  have named: "hm_contains m c \<longleftrightarrow> c \<in> snd ` set ?es" for c
    using namers_set [of ?es c] by (force simp: m(3) split: list.splits)
  have twice: "repeat_fault m c = Err (twice_fault ?es c)"
    if "lowest {c. 1 < count_list (map snd ?es) c} = Some c" for c
  proof (rule repeat_fault_verdict [OF m(3)])
    have "{c. 1 < count_list (map snd ?es) c} \<subseteq> set (map snd ?es)"
      by (auto simp del: set_map) (metis count_notin less_nat_zero_code)
    then have "finite {c. 1 < count_list (map snd ?es) c}" by (rule finite_subset) simp
    with that show "1 < count_list (map snd ?es) c"
      by (auto simp: lowest_def split: if_splits dest: Min_in)
  qed
  show ?thesis
    unfolding check_every_live_node_is_slotted_once_def slotted_once_verdict_def m(1) prod.case rep named
    by (auto simp: twice split: option.split)
qed

lemma decided_slotted_once: "decided (check_every_live_node_is_slotted_once a sl)"
  unfolding slotted_once_eq slotted_once_verdict_def by (auto split: option.split intro!: decided_nodes)

text \<open>In a slot map that agrees with its arena the edges are the placement links.\<close>

lemma slots_wf_row: "slots_wf w a sl \<Longrightarrow> live a i \<Longrightarrow> \<exists>row. hm_get sl i = Some row \<and> length row = w \<and> occupied row = kds a i"
  unfolding slots_wf_def by blast

lemma slots_wf_edge:
  assumes "arena_wf a" "slots_wf w a sl"
  shows "(p, c) \<in> set (slot_edges sl) \<longleftrightarrow> live a c \<and> par a c = Some p"
proof -
  have "(p, c) \<in> set (slot_edges sl) \<longleftrightarrow> live a p \<and> c \<in> set (kds a p)"
    unfolding slot_edges_iff using assms(2) hm_in_get [of sl p] slots_wf_row [OF assms(2), of p]
    unfolding slots_wf_def by (metis option.distinct(1))
  then show ?thesis
    using assms(1) arena_wfD(2) [OF assms(1)] par_live [OF assms(1), of c p] unfolding links_wf_def by blast
qed

lemma slots_wf_edges_distinct:
  assumes wf: "arena_wf a" and sl: "slots_wf w a sl"
  shows "distinct (map snd (slot_edges sl))"
proof -
  have "map snd (slot_edges sl) = concat (map (kds a \<circ> fst) sl)"
    unfolding slot_edges_def map_concat map_map
    using sl hm_in_get [of sl] by (intro arg_cong [of _ _ concat] map_cong) (auto simp: slots_wf_def o_def)
  moreover have "distinct (concat (map (kds a) ks))" if "distinct ks" "\<forall>k \<in> set ks. live a k" for ks
    using that
  proof (induction ks)
    case (Cons k ks)
    have "c \<notin> set (kds a j)" if "c \<in> set (kds a k)" "j \<in> set ks" for c j
      using that Cons.prems arena_wfD(2) [OF wf] unfolding links_wf_def
      by (metis distinct.simps(2) list.set_intros option.inject)
    then have "set (kds a k) \<inter> \<Union> (set ` set (map (kds a) ks)) = {}" by auto
    with Cons placement.down_distinct [OF wf, of k] show ?case by simp
  qed simp
  moreover have "distinct (map fst sl)" "\<forall>k \<in> set (map fst sl). live a k"
    using sl hm_keys_iff [of _ sl] by (auto simp: slots_wf_def hm_ok_def hm_keys_def)
  ultimately show ?thesis by (simp add: map_map [symmetric] del: map_map)
qed

lemma distinct_count_le: "distinct xs \<Longrightarrow> \<not> Suc 0 < count_list xs x"
  by (induction xs) (auto simp: count_list_0_iff)

lemma slotted_once_ok:
  assumes wf: "arena_wf a" and sl: "slots_wf w a sl"
  shows "check_every_live_node_is_slotted_once a sl = Ok ()"
proof -
  note edge = slots_wf_edge [OF wf sl]
  have "root_holders a (slot_edges sl) = {}"
    using arena_wfD(7) [OF wf] by (auto simp: root_holders_def edge root_wf_def)
  moreover have "self_holders (slot_edges sl) = {}"
    using arena_wfD(4) [OF wf] by (auto simp: self_holders_def edge depth_wf_def)
  moreover have "{c. 1 < count_list (map snd (slot_edges sl)) c} = {}"
    using slots_wf_edges_distinct [OF wf sl] by (simp add: distinct_count_le)
  moreover have "c \<in> snd ` set (slot_edges sl)" if c: "live a c" "root a \<noteq> Some c" for c
  proof -
    obtain p where "par a c = Some p"
      using c arena_wfD(7) [OF wf] unfolding root_wf_def by (cases "root a") (auto simp: not_None_eq [symmetric] simp del: not_None_eq)
    with c(1) edge have "(p, c) \<in> set (slot_edges sl)" by simp
    then show ?thesis by force
  qed
  ultimately show ?thesis
    unfolding slotted_once_eq slotted_once_verdict_def by (simp add: for_each_nodes del: for_each_Ok) (auto simp: live_def)
qed

lemma slot_checks_ok:
  assumes wf: "arena_wf a" and ok: "hm_ok sl" and rows: "\<forall>(p, row) \<in> set sl. live a p \<and> length row = w"
  shows "bnd (check_every_live_node_has_a_slot a sl) (\<lambda>_.
      bnd (check_every_live_node_is_slotted_once a sl) (\<lambda>_. check_children_match_slots a sl)) = Ok () \<longleftrightarrow>
     slots_wf w a sl"
proof -
  have live: "\<forall>(p, row) \<in> set sl. live a p" using rows by auto
  have entry: "(p, row) \<in> set sl \<longleftrightarrow> hm_get sl p = Some row" for p row by (rule hm_in_get [OF ok])
  have "\<forall>p row. hm_get sl p = Some row \<longrightarrow> live a p \<and> length row = w" using rows by (auto simp: entry)
  then have "slots_wf w a sl \<longleftrightarrow>
      (\<forall>i. live a i \<longrightarrow> hm_get sl i \<noteq> None) \<and> (\<forall>p row. hm_get sl p = Some row \<longrightarrow> occupied row = kds a p)"
    using ok unfolding slots_wf_def by blast
  also have "\<dots> \<longleftrightarrow> check_every_live_node_has_a_slot a sl = Ok () \<and> check_children_match_slots a sl = Ok ()"
    unfolding has_a_slot_ok children_match_ok(1) [OF live] by (auto simp: entry)
  finally show ?thesis using slotted_once_ok [OF wf, of w sl] unfolding bnd_eq_Ok by auto
qed

lemma slot_checks_decided:
  assumes "\<forall>(p, row) \<in> set sl. live a p"
  shows "decided (bnd (check_every_live_node_has_a_slot a sl) (\<lambda>_.
      bnd (check_every_live_node_is_slotted_once a sl) (\<lambda>_. check_children_match_slots a sl)))"
  by (intro decided_bnd decided_has_a_slot decided_slotted_once children_match_ok(2) [OF assms])

section \<open>Trees with a slot map\<close>

text \<open>
  The two fields \<open>BinaryTree\<close> and \<open>MatrixTree\<close> share; the matrix tree extends the record.
\<close>

record slotted =
  tr_arena :: arena
  tr_slots :: slot_map

abbreviation on_arena :: "(arena, 'e, 'a) sm \<Rightarrow> ('z slotted_scheme, 'e, 'a) sm" where
  "on_arena \<equiv> szoom tr_arena (\<lambda>a t. t\<lparr>tr_arena := a\<rparr>)"

abbreviation on_slots :: "(slot_map, 'e, 'a) sm \<Rightarrow> ('z slotted_scheme, 'e, 'a) sm" where
  "on_slots \<equiv> szoom tr_slots (\<lambda>sl t. t\<lparr>tr_slots := sl\<rparr>)"

text \<open>Writing one position through \<open>slots.get_mut(&p).expect(..)\<close>.\<close>

definition slots_mut :: "node_index \<Rightarrow> (slot_row \<Rightarrow> ('e, slot_row) result) \<Rightarrow> (slot_map, 'e, unit) sm" where
  "slots_mut p f = sbind (sgets (\<lambda>sl. bnd (expect (hm_get sl p)) f)) (\<lambda>row.
     smodify (hm_insert p row))"

definition set_slot :: "nat \<Rightarrow> node_index option \<Rightarrow> slot_row \<Rightarrow> ('e, slot_row) result" where
  "set_slot pos x row = bnd (index_at row pos) (\<lambda>_. Ok (row[pos := x]))"

definition rebuild_children :: "node_index \<Rightarrow> ('z slotted_scheme, 'e, unit) sm" where
  "rebuild_children p = sbind (sgets (\<lambda>t. expect (hm_get (tr_slots t) p))) (\<lambda>row.
     on_arena (arena_node_mut p (\<lambda>n. n\<lparr>children := occupied row\<rparr>)))"

text \<open>
  The tail every placement shares: allocate the node below its parent, index it, give it an empty
  row, put it into the open position of its parent's row and enter it among the recruits of its
  sponsor, if it has one.
\<close>

definition place_child ::
  "nat \<Rightarrow> uuid \<Rightarrow> node_index \<Rightarrow> nat \<Rightarrow> node_index option \<Rightarrow> i64 \<Rightarrow> ('z slotted_scheme, tree_error, node_index) sm" where
  "place_child w user parent_idx pos sponsor_idx at =
     sbind (sgets (\<lambda>t. arena_node (tr_arena t) parent_idx)) (\<lambda>p.
     sbind (sgets (\<lambda>_. u32_add (depth p) 1)) (\<lambda>d.
     sbind (on_arena (alloc_slot \<lparr>user_id = user, parent = Some parent_idx, children = [],
       sponsor = sponsor_idx, sponsored = [], depth = d, enrolled_at = at\<rparr>)) (\<lambda>idx.
     sbind (on_arena (smodify (\<lambda>a. a\<lparr>index := hm_insert user idx (index a)\<rparr>))) (\<lambda>_.
     sbind (on_slots (smodify (hm_insert idx (replicate w None)))) (\<lambda>_.
     sbind (on_slots (slots_mut parent_idx (set_slot pos (Some idx)))) (\<lambda>_.
     sbind (rebuild_children parent_idx) (\<lambda>_.
     sbind (case sponsor_idx of None \<Rightarrow> sret ()
       | Some s \<Rightarrow> on_arena (arena_node_mut s (\<lambda>n. n\<lparr>sponsored := sponsored n @ [idx]\<rparr>))) (\<lambda>_.
     sret idx))))))))"

abbreviation slotted_wf :: "nat \<Rightarrow> 'z slotted_scheme \<Rightarrow> bool" where
  "slotted_wf w t \<equiv> arena_wf (tr_arena t) \<and> slots_wf w (tr_arena t) (tr_slots t)"

lemma slots_placed:
  assumes sl: "slots_wf w a sl" and att: "attached a a' i n cs" and p: "parent n = Some p" "live a p"
    and row: "hm_get sl p = Some row" "cs = occupied (row[pos := Some i])"
  shows "slots_wf w a' (hm_insert p (row[pos := Some i]) (hm_insert i (replicate w None) sl))"
proof -
  note A = attachedD [OF att]
  have "p \<noteq> i" using A(1) p(2) by auto
  moreover have "length row = w" "hm_ok sl" using sl row(1) by (simp_all add: slots_wf_def)
  moreover have "kds a' j = kds a j" if "j \<noteq> i" "j \<noteq> p" for j using A(8) [OF that(1)] that(2) p(1) by simp
  moreover have "kds a' p = cs" "kds a' i = []" using A(4,7) A(8) [OF \<open>p \<noteq> i\<close>] p(1) by simp_all
  ultimately show ?thesis
    using sl row attached_live [OF att] p(2) unfolding slots_wf_def by auto
qed

lemma slots_rooted:
  assumes sl: "slots_wf w a sl" and att: "attached a a' i n cs" and p: "parent n = None"
  shows "slots_wf w a' (hm_insert i (replicate w None) sl)"
  using sl attached_live [OF att] attachedD(4,7) [OF att] attachedD(8) [OF att] p
  unfolding slots_wf_def by auto

lemma slots_detached:
  assumes sl: "slots_wf w a sl" and de: "detached a a' R" and ok: "hm_ok sl'"
    and get: "\<And>j. hm_get sl' j = (if j \<in> set R then None
       else map_option (map (\<lambda>s. if \<exists>i \<in> set R. s = Some i then None else s)) (hm_get sl j))"
  shows "slots_wf w a' sl'"
proof -
  have "occupied (map (\<lambda>s. if \<exists>i \<in> set R. s = Some i then None else s) row) = filter (\<lambda>c. c \<notin> set R) (occupied row)" for row
    by (induction row rule: occupied.induct) auto
  then show ?thesis
    using sl ok unsponsored_live [OF detachedD(1) [OF de]] detachedD(5) [OF de]
    unfolding slots_wf_def by (auto simp: get)
qed

lemma szoom_apply [outcome_simps]: "m (get s) = (r, x) \<Longrightarrow> szoom get put m s = (r, put x s)"
  by (simp add: szoom_def)

text \<open>The arena and the slot map a placement leaves.\<close>

definition arena_placed :: "uuid \<Rightarrow> node_index \<Rightarrow> slot_row \<Rightarrow> node_index option \<Rightarrow> i64 \<Rightarrow> arena \<Rightarrow> arena" where
  "arena_placed user p row so at a = recruit so (next_slot a) (upd_node p (\<lambda>n. n\<lparr>children := occupied row\<rparr>)
     ((placed (child_node user p so (depth (nd a p) + 1) at) a)\<lparr>index := hm_insert user (next_slot a) (index a)\<rparr>))"

definition row_placed :: "nat \<Rightarrow> node_index \<Rightarrow> slot_row \<Rightarrow> nat \<Rightarrow> node_index \<Rightarrow> slot_map \<Rightarrow> slot_map" where
  "row_placed w p row pos i sl = hm_insert p (row[pos := Some i]) (hm_insert i (replicate w None) sl)"

lemma arena_placed_live:
  assumes wf: "arena_wf a" and p: "live a p" and s: "\<forall>s. so = Some s \<longrightarrow> live a s"
  shows "p \<noteq> next_slot a" "live ((placed (child_node user p so d at) a)\<lparr>index := ix\<rparr>) p"
    "so = Some s \<Longrightarrow> live (upd_node p (\<lambda>n. n\<lparr>children := cs\<rparr>) ((placed (child_node user p so d at) a)\<lparr>index := ix\<rparr>)) s"
proof -
  note fr = arena_wfD(6) [OF wf]
  show ne: "p \<noteq> next_slot a" using next_slot_free [OF fr] p by auto
  have "p < length (nodes (placed (child_node user p so d at) a))"
    by (rule less_le_trans [OF live_bound [OF p] placed_fields(4)])
  then show "live ((placed (child_node user p so d at) a)\<lparr>index := ix\<rparr>) p"
    "so = Some s \<Longrightarrow> live (upd_node p (\<lambda>n. n\<lparr>children := cs\<rparr>) ((placed (child_node user p so d at) a)\<lparr>index := ix\<rparr>)) s"
    using ne s p next_slot_free [OF fr] by (auto simp: live_def nd_placed [OF fr])
qed

lemma place_child_ok:
  fixes t :: "'z slotted_scheme"
  assumes wf: "slotted_wf w t" and new: "user \<noteq> nil_uuid" "hm_get (index (tr_arena t)) user = None"
    and p: "live (tr_arena t) p" "hm_get (tr_slots t) p = Some row" "pos < w" "row ! pos = None"
    and s: "\<forall>s. so = Some s \<longrightarrow> live (tr_arena t) s" and room: "length (nodes (tr_arena t)) < 2 ^ 32"
  shows "place_child w user p pos so at t = (Ok (next_slot (tr_arena t)),
      t\<lparr>tr_arena := arena_placed user p (row[pos := Some (next_slot (tr_arena t))]) so at (tr_arena t),
        tr_slots := row_placed w p row pos (next_slot (tr_arena t)) (tr_slots t)\<rparr>)"
    "attached (tr_arena t) (arena_placed user p (row[pos := Some (next_slot (tr_arena t))]) so at (tr_arena t))
       (next_slot (tr_arena t)) (child_node user p so (depth (nd (tr_arena t) p) + 1) at)
       (occupied (row[pos := Some (next_slot (tr_arena t))]))"
    "slots_wf w (arena_placed user p (row[pos := Some (next_slot (tr_arena t))]) so at (tr_arena t))
       (row_placed w p row pos (next_slot (tr_arena t)) (tr_slots t))"
proof -
  let ?a = "tr_arena t" and ?i = "next_slot (tr_arena t)"
  let ?row = "row[pos := Some ?i]"
  have aw: "arena_wf ?a" and sw: "slots_wf w ?a (tr_slots t)" using wf by simp_all
  note fr = arena_wfD(6) [OF aw]
  have len: "length row = w" "occupied row = kds ?a p" using sw p(2) by (auto simp: slots_wf_def)
  show "place_child w user p pos so at t =
      (Ok ?i, t\<lparr>tr_arena := arena_placed user p ?row so at ?a, tr_slots := row_placed w p row pos ?i (tr_slots t)\<rparr>)"
    using p len arena_placed_live [OF aw p(1) s]
    by (cases so) (simp_all add: place_child_def outcome_simps child_depth(1) [OF aw p(1) room]
        alloc_slot_eq [OF fr] slots_mut_def set_slot_def rebuild_children_def arena_node_mut_upd recruit_def
        arena_placed_def row_placed_def)
  show att: "attached ?a (arena_placed user p ?row so at ?a) ?i
      (child_node user p so (depth (nd ?a p) + 1) at) (occupied ?row)"
    unfolding arena_placed_def
  proof (rule child_attached [OF aw new p(1) child_depth(2) [OF aw p(1) room]])
    have "?i \<notin> set (occupied row)" "distinct (occupied row)"
      using len(2) kds_live [OF aw p(1)] next_slot_free [OF fr] placement.down_distinct [OF aw, of p] p(1) by auto
    then show "distinct (occupied ?row)" "set (occupied ?row) = insert ?i (set (kds ?a p))"
      using occupied_fill [of pos row ?i] p(3,4) len by simp_all
  qed (use s in simp_all)
  show "slots_wf w (arena_placed user p ?row so at ?a) (row_placed w p row pos ?i (tr_slots t))"
    unfolding row_placed_def by (rule slots_placed [OF sw att _ p(1,2)]) simp_all
qed

section \<open>Leaves leave\<close>

abbreviation clear_slot :: "node_index \<Rightarrow> slot_row \<Rightarrow> slot_row" where
  "clear_slot i \<equiv> map (\<lambda>s. if s = Some i then None else s)"

abbreviation parent_left :: "arena \<Rightarrow> node_index \<Rightarrow> arena" where
  "parent_left a i \<equiv> (case par a i of None \<Rightarrow> a
     | Some p \<Rightarrow> upd_node p (\<lambda>m. m\<lparr>children := filter (\<lambda>c. c \<noteq> i) (children m)\<rparr>) a)"

lemma slots_leaf_left:
  assumes wf: "arena_wf a" and sl: "slots_wf w a sl" and de: "detached a a' [i]"
    and sl': "sl' = hm_remove i (case par a i of None \<Rightarrow> sl
       | Some p \<Rightarrow> hm_insert p (clear_slot i (the (hm_get sl p))) sl)"
  shows "slots_wf w a' sl'" "j \<noteq> i \<Longrightarrow> hm_get sl' j = map_option (clear_slot i) (hm_get sl j)"
proof -
  have i: "live a i" using unsponsoredD(2) [OF detachedD(1) [OF de]] by simp
  have other: "clear_slot i row = row" if "hm_get sl j = Some row" "par a i \<noteq> Some j" for row j
  proof (rule map_idI)
    have "occupied row = kds a j" "live a j" using sl that(1) unfolding slots_wf_def by blast+
    with that(2) arena_wfD(2) [OF wf] have "i \<notin> set (occupied row)" by (auto simp: links_wf_def)
    then have "Some i \<notin> set row" by (simp add: occupied_set)
    then show "(if s = Some i then None else s) = s" if "s \<in> set row" for s using that by auto
  qed
  have "hm_get sl p \<noteq> None" if "par a i = Some p" for p
    using sl par_live [OF wf i that] unfolding slots_wf_def by blast
  then have get: "hm_get sl' j = (if j = i then None else map_option (clear_slot i) (hm_get sl j))" for j
    using other by (cases "hm_get sl j") (auto simp: sl' split: option.splits)
  then show "j \<noteq> i \<Longrightarrow> hm_get sl' j = map_option (clear_slot i) (hm_get sl j)" by simp
  have "hm_ok sl'" using sl by (simp add: sl' slots_wf_def split: option.split)
  then show "slots_wf w a' sl'" by (rule slots_detached [OF sl de]) (simp add: get)
qed

section \<open>Branches and positions\<close>

text \<open>The counts both trees put in place of the arena's: one per position, keyed by position.\<close>

definition slot_counts :: "arena \<Rightarrow> slot_row \<Rightarrow> ('e, (nat, nat) hmap) result" where
  "slot_counts a row = fold_res (\<lambda>(slot_pos, slot) m.
     bnd (case slot of Some c \<Rightarrow> count_subtree a c | None \<Rightarrow> Ok 0) (\<lambda>k. Ok (hm_insert slot_pos k m)))
     (enumerate 0 row) []"

lemma slot_counts_eq:
  assumes "arena_wf a" "\<forall>c. Some c \<in> set row \<longrightarrow> live a c"
  shows "\<exists>m. slot_counts a row = (Ok m :: ('e, (nat, nat) hmap) result) \<and>
     (\<forall>k. hm_get m k = map_option (\<lambda>s. case s of None \<Rightarrow> 0 | Some c \<Rightarrow> length (downline a c 0)) (get_at row k))"
proof -
  have "\<forall>s \<in> set row. (case s of Some c \<Rightarrow> count_subtree a c | None \<Rightarrow> Ok 0) =
      (Ok (case s of None \<Rightarrow> 0 | Some c \<Rightarrow> length (downline a c 0)) :: ('e, nat) result)"
    using assms(2) by (auto simp: count_subtree_eq [OF assms(1)] split: option.split)
  from fold_positions [OF this, where n = 0 and m = "[]"] show ?thesis
    by (simp add: slot_counts_def map_option_case [of _ "get_at row k" for k] cong: option.case_cong)
qed

text \<open>The rows of a tree by member.\<close>

definition slot_row_of :: "'z slotted_scheme \<Rightarrow> node_index \<Rightarrow> slot_row" where
  "slot_row_of t i = (case hm_get (tr_slots t) i of None \<Rightarrow> [] | Some row \<Rightarrow> row)"

definition member_rows :: "'z slotted_scheme \<Rightarrow> uuid \<Rightarrow> uuid option list" where
  "member_rows t u = (case hm_get (index (tr_arena t)) u of None \<Rightarrow> []
     | Some i \<Rightarrow> map (map_option (uid (tr_arena t))) (slot_row_of t i))"

lemma slot_row_live:
  assumes "slotted_wf w t" "live (tr_arena t) i"
  shows "hm_get (tr_slots t) i = Some (slot_row_of t i)" "length (slot_row_of t i) = w"
    "occupied (slot_row_of t i) = kds (tr_arena t) i" "Some c \<in> set (slot_row_of t i) \<Longrightarrow> live (tr_arena t) c"
proof -
  obtain row where row: "hm_get (tr_slots t) i = Some row" "length row = w" "occupied row = kds (tr_arena t) i"
    using slots_wf_row [of w "tr_arena t" "tr_slots t" i] assms by blast
  then show "hm_get (tr_slots t) i = Some (slot_row_of t i)" "length (slot_row_of t i) = w"
    "occupied (slot_row_of t i) = kds (tr_arena t) i" by (simp_all add: slot_row_of_def)
  then show "live (tr_arena t) c" if "Some c \<in> set (slot_row_of t i)"
    using that occupied_set [of c "slot_row_of t i"] kds_live [of "tr_arena t" i c] assms by simp
qed

lemma member_rows_uid:
  assumes "slotted_wf w t" "live (tr_arena t) i"
  shows "member_rows t (uid (tr_arena t) i) = map (map_option (uid (tr_arena t))) (slot_row_of t i)"
  using assms live_indexed [of "tr_arena t" i] by (simp add: member_rows_def)

text \<open>Where a node sits in its parent's row.\<close>

lemma in_parent_row:
  assumes wf: "slotted_wf w t" and i: "live (tr_arena t) i" "par (tr_arena t) i = Some p"
  shows "Some i \<in> set (slot_row_of t p)" "live (tr_arena t) p"
proof -
  have aw: "arena_wf (tr_arena t)" using wf by simp
  show p: "live (tr_arena t) p" by (rule par_live [OF aw i])
  with i arena_wfD(2) [OF aw] have "i \<in> set (kds (tr_arena t) p)" by (auto simp: links_wf_def)
  then show "Some i \<in> set (slot_row_of t p)" using slot_row_live(3) [OF wf p] occupied_set by metis
qed

text \<open>
  What a placement and a removal do to the rows, by member: the new member gets an open row and
  fills its position in its parent's; a leaving member is struck from every row.
\<close>

lemma member_rows_placed:
  assumes wf: "slotted_wf w t" and att: "attached (tr_arena t) (tr_arena t') i n cs"
    and p: "live (tr_arena t) p"
    and sl: "tr_slots t' = row_placed w p (slot_row_of t p) pos i (tr_slots t)"
  shows "member_rows t' = (member_rows t)(user_id n := replicate w None,
     uid (tr_arena t) p := (member_rows t (uid (tr_arena t) p))[pos := Some (user_id n)])"
proof
  fix v
  let ?a = "tr_arena t" and ?a' = "tr_arena t'"
  have aw: "arena_wf ?a" using wf by simp
  note A = attachedD [OF att]
  have uid: "uid ?a' j = uid ?a j" if "j \<noteq> i" for j using A(8) [OF that] by simp
  have new: "hm_get (index ?a') v = (if v = user_id n then Some i else hm_get (index ?a) v)" for v
    using A(6) by simp
  have pi: "p \<noteq> i" "uid ?a p \<noteq> user_id n"
    using A(1,3) p live_indexed [OF aw p] by auto
  have row: "slot_row_of t' j = (if j = p then (slot_row_of t p)[pos := Some i] else if j = i then replicate w None
      else slot_row_of t j)" for j
    by (simp add: slot_row_of_def sl row_placed_def)
  have ren: "map (map_option (uid ?a')) (slot_row_of t j) = map (map_option (uid ?a)) (slot_row_of t j)" if "live ?a j" for j
  proof (rule map_cong [OF refl], rule option.map_cong [OF refl])
    fix s c assume "s \<in> set (slot_row_of t j)" "c \<in> set_option s"
    then have "live ?a c" using slot_row_live(4) [OF wf that, of c] by auto
    then show "uid ?a' c = uid ?a c" using A(1) uid by metis
  qed
  show "member_rows t' v = ((member_rows t)(user_id n := replicate w None,
     uid ?a p := (member_rows t (uid ?a p))[pos := Some (user_id n)])) v"
  proof (cases "hm_get (index ?a) v")
    case None
    then show ?thesis using pi live_indexed [OF aw p] by (auto simp: member_rows_def new row map_replicate)
  next
    case (Some j)
    note j = index_live(1,2) [OF aw Some]
    have "v \<noteq> user_id n" "j \<noteq> i" using Some A(1,3) j by auto
    moreover have "v = uid ?a p \<longleftrightarrow> j = p" using j uid_eq_iff [OF aw j(1), of p] by auto
    ultimately show ?thesis
      using Some live_indexed [OF aw p] A(7)
      by (simp add: member_rows_def new row map_update ren [OF j(1)] ren [OF p] del: map_eq_conv)
  qed
qed

lemma slotted_placed_refines:
  assumes wf: "slotted_wf w t" and p: "live (tr_arena t) p"
    and att: "attached (tr_arena t) (tr_arena t') (next_slot (tr_arena t)) (child_node user p so d at)
       (occupied ((slot_row_of t p)[pos := Some (next_slot (tr_arena t))]))"
    and sl: "tr_slots t' = row_placed w p (slot_row_of t p) pos (next_slot (tr_arena t)) (tr_slots t)"
  shows "genealogy_of (tr_arena t') = g_join user (Some (uid (tr_arena t) p))
       (occupied ((member_rows t (uid (tr_arena t) p))[pos := Some user])) (map_option (uid (tr_arena t)) so) at
       (genealogy_of (tr_arena t))"
    "member_rows t' = (member_rows t)(user := replicate w None,
       uid (tr_arena t) p := (member_rows t (uid (tr_arena t) p))[pos := Some user])"
proof -
  let ?a = "tr_arena t" and ?i = "next_slot (tr_arena t)"
  let ?ren = "\<lambda>j. if j = ?i then user else uid ?a j"
  have aw: "arena_wf ?a" using wf by simp
  have mr: "member_rows t (uid ?a p) = map (map_option (uid ?a)) (slot_row_of t p)"
    by (rule member_rows_uid [OF wf p])
  have "map (map_option ?ren) (slot_row_of t p) = member_rows t (uid ?a p)"
    unfolding mr
  proof (rule map_cong [OF refl], rule option.map_cong [OF refl])
    fix s c assume "s \<in> set (slot_row_of t p)" "c \<in> set_option s"
    then have "live ?a c" using slot_row_live(4) [OF wf p, of c] by auto
    then show "?ren c = uid ?a c" using next_slot_free [OF arena_wfD(6) [OF aw]] by auto
  qed
  then have "map ?ren (occupied ((slot_row_of t p)[pos := Some ?i])) =
      occupied ((member_rows t (uid ?a p))[pos := Some user])"
    by (simp add: occupied_map [symmetric] map_update)
  with child_genealogy [OF aw att] show "genealogy_of (tr_arena t') = g_join user (Some (uid ?a p))
       (occupied ((member_rows t (uid ?a p))[pos := Some user])) (map_option (uid ?a) so) at (genealogy_of ?a)" by simp
  show "member_rows t' = (member_rows t)(user := replicate w None,
      uid ?a p := (member_rows t (uid ?a p))[pos := Some user])"
    using member_rows_placed [OF wf att p sl] by simp
qed

lemma member_rows_detached:
  assumes wf: "slotted_wf w t" and de: "detached (tr_arena t) (tr_arena t') [i]"
    and sl: "\<And>j. j \<noteq> i \<Longrightarrow> slot_row_of t' j = clear_slot i (slot_row_of t j)"
  shows "member_rows t' = (\<lambda>v. if v = uid (tr_arena t) i then []
     else map (\<lambda>s. if s = Some (uid (tr_arena t) i) then None else s) (member_rows t v))"
proof
  fix v
  let ?a = "tr_arena t" and ?a' = "tr_arena t'"
  have aw: "arena_wf ?a" using wf by simp
  note U = unsponsoredD [OF detachedD(1) [OF de]]
  have i: "live ?a i" using U(2) by simp
  have get: "hm_get (index ?a') v = (if v = uid ?a i then None else hm_get (index ?a) v)" using U(5) by auto
  show "member_rows t' v = (if v = uid ?a i then []
     else map (\<lambda>s. if s = Some (uid ?a i) then None else s) (member_rows t v))"
  proof (cases "hm_get (index ?a) v")
    case None
    then show ?thesis by (simp add: member_rows_def get)
  next
    case (Some j)
    note j = index_live(1,2) [OF aw Some]
    have "map_option (uid ?a') (if s = Some i then None else s) =
        (if map_option (uid ?a) s = Some (uid ?a i) then None else map_option (uid ?a) s)" for s
      using uid_eq_iff [OF aw i] U(7) by (cases s) (auto dest: sym)
    then have ren: "map (map_option (uid ?a')) (clear_slot i (slot_row_of t j)) =
        map (\<lambda>s. if s = Some (uid ?a i) then None else s) (map (map_option (uid ?a)) (slot_row_of t j))"
      unfolding map_map o_def by (intro map_cong refl)
    show ?thesis
    proof (cases "j = i")
      case False
      with j uid_eq_iff [OF aw i, of j] have "v \<noteq> uid ?a i" by auto
      with Some show ?thesis by (simp only: member_rows_def get sl [OF False] ren if_False option.case)
    qed (use j in \<open>simp add: member_rows_def get\<close>)
  qed
qed

section \<open>The verdict does not depend on the order of the map\<close>

lemma hm_get_order: "hm_ok m \<Longrightarrow> mset m = mset m' \<Longrightarrow> hm_get m' = hm_get m"
proof
  fix k assume ok: "hm_ok m" and eq: "mset m = mset m'"
  from eq have "mset (map fst m) = mset (map fst m')" by simp
  with ok have ok': "hm_ok m'" unfolding hm_ok_def by (metis mset_eq_imp_distinct_iff)
  have "(k, v) \<in> set m \<longleftrightarrow> (k, v) \<in> set m'" for v using eq by (metis set_mset_mset)
  then show "hm_get m' k = hm_get m k"
    using hm_in_get [OF ok, of k] hm_in_get [OF ok', of k] by (metis not_None_eq)
qed

lemma slot_edges_order: "mset sl = mset sl' \<Longrightarrow> mset (slot_edges sl) = mset (slot_edges sl')"
  by (simp add: slot_edges_def mset_concat sum_mset_sum_list [symmetric])

lemma slotted_once_order:
  assumes "mset sl = mset sl'"
  shows "check_every_live_node_is_slotted_once a sl = check_every_live_node_is_slotted_once a sl'"
proof -
  note eq = slot_edges_order [OF assms]
  have s: "set (slot_edges sl) = set (slot_edges sl')" using eq by (metis set_mset_mset)
  have "mset (map snd (slot_edges sl)) = mset (map snd (slot_edges sl'))" using eq by simp
  then have c: "count_list (map snd (slot_edges sl)) = count_list (map snd (slot_edges sl'))"
    by (metis count_mset ext)
  show ?thesis
    unfolding slotted_once_eq slotted_once_verdict_def root_holders_def self_holders_def twice_fault_def s c ..
qed

lemma children_match_order:
  assumes "hm_ok sl" "mset sl = mset sl'" "\<forall>(p, row) \<in> set sl. live a p"
  shows "check_children_match_slots a sl = check_children_match_slots a sl'"
proof -
  have "set sl = set sl'" using assms(2) by (metis set_mset_mset)
  then have live: "\<forall>(p, row) \<in> set sl'. live a p" using assms(3) by simp
  show ?thesis
    unfolding children_match [OF assms(3)] children_match [OF live]
    by (simp add: lowest_fault_order [OF assms(2)] assms(1) [unfolded hm_ok_def])
qed

lemma slot_checks_order:
  assumes "hm_ok sl" "mset sl = mset sl'" "\<forall>(p, row) \<in> set sl. live a p"
  shows "bnd (check_every_live_node_has_a_slot a sl') (\<lambda>_.
      bnd (check_every_live_node_is_slotted_once a sl') (\<lambda>_. check_children_match_slots a sl')) =
    bnd (check_every_live_node_has_a_slot a sl) (\<lambda>_.
      bnd (check_every_live_node_is_slotted_once a sl) (\<lambda>_. check_children_match_slots a sl))"
proof -
  have "hm_contains sl' = hm_contains sl" by (simp add: fun_eq_iff hm_get_order [OF assms(1,2)])
  then have "check_every_live_node_has_a_slot a sl' = check_every_live_node_has_a_slot a sl"
    by (simp only: check_every_live_node_has_a_slot_def)
  then show ?thesis by (simp add: children_match_order [OF assms] slotted_once_order [OF assms(2)])
qed

text \<open>The checks look at the nodes and the root of the arena only.\<close>

lemma slot_checks_nodes:
  assumes n: "nodes b = nodes a" "root b = root a"
  shows "check_slot_index b = check_slot_index a"
    "check_every_live_node_has_a_slot b = check_every_live_node_has_a_slot a"
    "check_every_live_node_is_slotted_once b = check_every_live_node_is_slotted_once a"
    "check_children_match_slots b = check_children_match_slots a"
proof -
  show "check_slot_index b = check_slot_index a"
    by (rule ext) (unfold check_slot_index_def n, rule refl)
  show "check_every_live_node_has_a_slot b = check_every_live_node_has_a_slot a"
    by (rule ext) (unfold check_every_live_node_has_a_slot_def n, rule refl)
  show "check_every_live_node_is_slotted_once b = check_every_live_node_is_slotted_once a"
    by (rule ext) (unfold slotted_once_eq slotted_once_verdict_def root_holders_def n, rule refl)
  show "check_children_match_slots b = check_children_match_slots a"
    by (rule ext) (unfold check_children_match_slots_def n, rule refl)
qed

lemma validate_restored_order:
  assumes "hm_ok (index a)" "mset (index a) = mset ix"
  shows "validate_restored (a\<lparr>index := ix\<rparr>) = validate_restored a"
proof -
  let ?a = "a\<lparr>index := ix\<rparr>"
  have n: "nodes ?a = nodes a" "root ?a = root a" "free_list ?a = free_list a" "index ?a = ix" by simp_all
  have low: "lowest_fault fst (index_fault a) ix = lowest_fault fst (index_fault a) (index a)"
    by (rule lowest_fault_order [OF assms(2) [symmetric]])
      (use assms mset_eq_imp_distinct_iff [of "map fst ix" "map fst (index a)"] in \<open>simp add: hm_ok_def\<close>)
  have "index_fault ?a = index_fault a" by (rule ext) (unfold index_fault_def n, rule refl)
  then have "check_index ?a = check_index a" unfolding check_index_def n by (simp only: low)
  moreover have "check_node ?a = check_node a"
    by (rule ext) (unfold check_node_def check_edge_def n hm_get_order [OF assms], rule refl)
  moreover have "check_depth ?a = check_depth a" by (rule ext) (unfold check_depth_def n, rule refl)
  moreover have "check_free ?a seen fl = check_free a seen fl" for seen fl
    by (induction fl arbitrary: seen) (simp_all cong: if_cong)
  moreover have edge: "list_edge ?a = list_edge a" by (intro ext) (unfold list_edge_def n, rule refl)
  have "list_edges ?a df uf down up = list_edges a df uf down up" for df uf down up
    unfolding list_edges_def list_node_def n edge ..
  then have "check_reciprocal ?a df uf down up = check_reciprocal a df uf down up" for df uf down up
    unfolding check_reciprocal_def n by simp
  ultimately show ?thesis
    unfolding validate_restored_def check_root_def check_single_root_def check_sponsor_chains_end_def n by simp
qed

end
