(* ===== verification/Binary_Tree.thy ===== *)
theory Binary_Tree
  imports Slots
begin

text \<open>
  The binary tree of \<open>src/tree/binary.rs\<close>: an arena with a row of two child slots per node. The
  caller names the position of a new node; the children of a node are its occupied slots in
  order. The state is the record \<open>slotted\<close>.
\<close>

type_synonym binary_tree = slotted

definition binary_new :: binary_tree where
  "binary_new = \<lparr>tr_arena = arena_new, tr_slots = []\<rparr>"

definition binary_slot_fault :: "arena \<Rightarrow> node_index \<times> slot_row \<Rightarrow> snapshot_error option" where
  "binary_slot_fault a entry = (case entry of (p, row) \<Rightarrow>
     (case err_of (check_slot_index a p) of Some err \<Rightarrow> Some err
      | None \<Rightarrow> find_map (\<lambda>child. err_of (check_slot_index a child)) (occupied row)))"

definition binary_validate_restored :: "binary_tree \<Rightarrow> (snapshot_error, unit) result" where
  "binary_validate_restored t = bnd (validate_restored (tr_arena t)) (\<lambda>_.
     bnd (raise_fault (lowest_fault fst (binary_slot_fault (tr_arena t)) (tr_slots t))) (\<lambda>_.
     bnd (check_every_live_node_has_a_slot (tr_arena t) (tr_slots t)) (\<lambda>_.
     bnd (check_every_live_node_is_slotted_once (tr_arena t) (tr_slots t)) (\<lambda>_.
     check_children_match_slots (tr_arena t) (tr_slots t)))))"

definition binary_check_add_root :: "binary_tree \<Rightarrow> uuid \<Rightarrow> (tree_error, unit) result" where
  "binary_check_add_root t user = bnd (check_user_id user) (\<lambda>_.
     if root (tr_arena t) \<noteq> None then Err RootAlreadyExists
     else if hm_contains (index (tr_arena t)) user then Err (UserAlreadyExists user)
     else Ok ())"

definition binary_add_root :: "uuid \<Rightarrow> i64 \<Rightarrow> (binary_tree, tree_error, node_index) sm" where
  "binary_add_root user at = sbind (sgets (\<lambda>t. binary_check_add_root t user)) (\<lambda>_.
     sbind (on_arena (alloc_slot \<lparr>user_id = user, parent = None, children = [], sponsor = None,
       sponsored = [], depth = 0, enrolled_at = at\<rparr>)) (\<lambda>idx.
     sbind (on_arena (smodify (\<lambda>a. a\<lparr>index := hm_insert user idx (index a)\<rparr>))) (\<lambda>_.
     sbind (on_arena (smodify (\<lambda>a. a\<lparr>root := Some idx\<rparr>))) (\<lambda>_.
     sbind (on_slots (smodify (hm_insert idx [None, None]))) (\<lambda>_.
     sret idx)))))"

definition binary_check_add_node ::
  "binary_tree \<Rightarrow> uuid \<Rightarrow> uuid \<Rightarrow> nat \<Rightarrow> uuid \<Rightarrow> (tree_error, unit) result" where
  "binary_check_add_node t user parent_id pos sponsor_id = bnd (check_user_id user) (\<lambda>_.
     if 1 < pos then Err (PositionOutOfRange parent_id pos 2)
     else if hm_contains (index (tr_arena t)) user then Err (UserAlreadyExists user)
     else bnd (resolve (tr_arena t) parent_id) (\<lambda>parent_idx.
       bnd (resolve_sponsor (tr_arena t) sponsor_id) (\<lambda>_.
       let parent_slots = (case hm_get (tr_slots t) parent_idx of Some row \<Rightarrow> row | None \<Rightarrow> [None, None]) in
       bnd (index_at parent_slots pos) (\<lambda>slot.
         if slot \<noteq> None then Err (PositionOccupied parent_id pos) else Ok ()))))"

text \<open>Left before right, each only if occupied.\<close>

definition binary_rebuild_children :: "node_index \<Rightarrow> (binary_tree, 'e, unit) sm" where
  "binary_rebuild_children p = sbind (sgets (\<lambda>t. expect (hm_get (tr_slots t) p))) (\<lambda>row.
     sbind (sgets (\<lambda>_. index_at row 0)) (\<lambda>left.
     sbind (sgets (\<lambda>_. index_at row 1)) (\<lambda>right.
     on_arena (arena_node_mut p (\<lambda>n. n\<lparr>children :=
       (case left of Some l \<Rightarrow> [l] | None \<Rightarrow> []) @ (case right of Some r \<Rightarrow> [r] | None \<Rightarrow> [])\<rparr>)))))"

definition binary_add_node ::
  "uuid \<Rightarrow> uuid \<Rightarrow> nat \<Rightarrow> uuid \<Rightarrow> i64 \<Rightarrow> (binary_tree, tree_error, node_index) sm" where
  "binary_add_node user parent_id pos sponsor_id at =
     sbind (sgets (\<lambda>t. binary_check_add_node t user parent_id pos sponsor_id)) (\<lambda>_.
     sbind (sgets (\<lambda>t. resolve (tr_arena t) parent_id)) (\<lambda>parent_idx.
     sbind (sgets (\<lambda>t. resolve (tr_arena t) sponsor_id)) (\<lambda>sponsor_idx.
     sbind (sgets (\<lambda>t. arena_node (tr_arena t) parent_idx)) (\<lambda>p.
     sbind (sgets (\<lambda>_. u32_add (depth p) 1)) (\<lambda>d.
     sbind (on_arena (alloc_slot \<lparr>user_id = user, parent = Some parent_idx, children = [],
       sponsor = Some sponsor_idx, sponsored = [], depth = d, enrolled_at = at\<rparr>)) (\<lambda>idx.
     sbind (on_arena (smodify (\<lambda>a. a\<lparr>index := hm_insert user idx (index a)\<rparr>))) (\<lambda>_.
     sbind (on_slots (smodify (hm_insert idx [None, None]))) (\<lambda>_.
     sbind (on_slots (slots_mut parent_idx (set_slot pos (Some idx)))) (\<lambda>_.
     sbind (binary_rebuild_children parent_idx) (\<lambda>_.
     sbind (on_arena (arena_node_mut sponsor_idx (\<lambda>n. n\<lparr>sponsored := sponsored n @ [idx]\<rparr>))) (\<lambda>_.
     sret idx)))))))))))"

definition binary_check_remove_node :: "binary_tree \<Rightarrow> uuid \<Rightarrow> (tree_error, unit) result" where
  "binary_check_remove_node t user = bnd (resolve (tr_arena t) user) (\<lambda>idx.
     bnd (arena_node (tr_arena t) idx) (\<lambda>n.
     if 0 < length (children n) then Err (HasChildren user (length (children n)))
     else check_sponsored_removable (tr_arena t) [idx]))"

definition binary_remove_node :: "uuid \<Rightarrow> (binary_tree, tree_error, responsored list) sm" where
  "binary_remove_node user =
     sbind (sgets (\<lambda>t. binary_check_remove_node t user)) (\<lambda>_.
     sbind (sgets (\<lambda>t. resolve (tr_arena t) user)) (\<lambda>idx.
     sbind (sgets (\<lambda>t. arena_node (tr_arena t) idx)) (\<lambda>n.
     sbind (case parent n of None \<Rightarrow> sret ()
       | Some parent_idx \<Rightarrow>
           sbind (on_slots (slots_mut parent_idx
             (\<lambda>row. Ok (map (\<lambda>slot. if slot = Some idx then None else slot) row)))) (\<lambda>_.
           binary_rebuild_children parent_idx)) (\<lambda>_.
     sbind (sgets (\<lambda>t. arena_node (tr_arena t) idx)) (\<lambda>n.
     sbind (on_arena (retain_sponsored (sponsor n) idx)) (\<lambda>_.
     sbind (on_arena (smodify (\<lambda>a. if root a = Some idx then a\<lparr>root := None\<rparr> else a))) (\<lambda>_.
     sbind (on_arena (reparent_sponsored [idx])) (\<lambda>moved.
     sbind (on_slots (smodify (hm_remove idx))) (\<lambda>_.
     sbind (on_arena (smodify (\<lambda>a. a\<lparr>index := hm_remove user (index a)\<rparr>))) (\<lambda>_.
     sbind (on_arena (tombstone idx)) (\<lambda>_.
     sret moved)))))))))))"


definition binary_get_branch :: "binary_tree \<Rightarrow> uuid \<Rightarrow> nat \<Rightarrow> (tree_error, node list) result" where
  "binary_get_branch t user pos = bnd (resolve (tr_arena t) user) (\<lambda>idx.
     bnd (expect (hm_get (tr_slots t) idx)) (\<lambda>node_slots.
     if 1 < pos then Err (PositionOutOfRange user pos 2)
     else bnd (index_at node_slots pos) (\<lambda>slot. case slot of
         Some child_idx \<Rightarrow> collect_subtree (tr_arena t) child_idx
       | None \<Rightarrow> Ok [])))"

definition binary_count_branch :: "binary_tree \<Rightarrow> uuid \<Rightarrow> nat \<Rightarrow> (tree_error, nat) result" where
  "binary_count_branch t user pos = bnd (resolve (tr_arena t) user) (\<lambda>idx.
     bnd (expect (hm_get (tr_slots t) idx)) (\<lambda>node_slots.
     if 1 < pos then Err (PositionOutOfRange user pos 2)
     else bnd (index_at node_slots pos) (\<lambda>slot. case slot of
         Some child_idx \<Rightarrow> bnd (count_subtree (tr_arena t) child_idx) (\<lambda>k. Ok (1 + k))
       | None \<Rightarrow> Ok 0)))"

section \<open>The checks\<close>

abbreviation binary_wf :: "binary_tree \<Rightarrow> bool" where
  "binary_wf \<equiv> slotted_wf 2"

lemma binary_check_add_root_ok:
  "binary_check_add_root t user = Ok () \<longleftrightarrow>
     user \<noteq> nil_uuid \<and> root (tr_arena t) = None \<and> hm_get (index (tr_arena t)) user = None"
  by (auto simp: binary_check_add_root_def check_user_id_def)

lemma binary_check_add_root_decided: "decided (binary_check_add_root t user)"
  by (auto simp: binary_check_add_root_def check_user_id_def)

lemma binary_check_add_node_ok:
  assumes wf: "binary_wf t"
  shows "binary_check_add_node t user p pos s = Ok () \<longleftrightarrow>
     user \<noteq> nil_uuid \<and> pos < 2 \<and> hm_get (index (tr_arena t)) user = None \<and>
     (\<exists>pi. hm_get (index (tr_arena t)) p = Some pi \<and> slot_row_of t pi ! pos = None) \<and>
     hm_get (index (tr_arena t)) s \<noteq> None"
    "decided (binary_check_add_node t user p pos s)"
proof -
  have row: "hm_get (tr_slots t) pi = Some (slot_row_of t pi) \<and> length (slot_row_of t pi) = 2"
    if "hm_get (index (tr_arena t)) p = Some pi" for pi
    using slot_row_live(1,2) [OF wf index_live(1) [OF _ that]] wf by simp
  show "binary_check_add_node t user p pos s = Ok () \<longleftrightarrow>
     user \<noteq> nil_uuid \<and> pos < 2 \<and> hm_get (index (tr_arena t)) user = None \<and>
     (\<exists>pi. hm_get (index (tr_arena t)) p = Some pi \<and> slot_row_of t pi ! pos = None) \<and>
     hm_get (index (tr_arena t)) s \<noteq> None"
    using row by (auto simp: binary_check_add_node_def check_user_id_def resolve_def resolve_sponsor_def)
  show "decided (binary_check_add_node t user p pos s)"
    using row
    by (cases "hm_get (index (tr_arena t)) p"; cases "hm_get (index (tr_arena t)) s")
      (auto simp: binary_check_add_node_def check_user_id_def resolve_def resolve_sponsor_def)
qed

section \<open>Insertions\<close>

lemma binary_rebuild_eq:
  assumes "hm_get (tr_slots t) p = Some row" "length row = 2"
  shows "binary_rebuild_children p t = rebuild_children p t"
proof -
  obtain l r where "row = [l, r]" using assms(2) by (auto simp: length_Suc_conv numeral_2_eq_2)
  with assms(1) show ?thesis
    by (cases l; cases r) (simp_all add: binary_rebuild_children_def rebuild_children_def outcome_simps)
qed

lemma empty_row: "[None, None] = replicate 2 None"
  by (simp add: numeral_2_eq_2)

lemma binary_add_root_ok:
  assumes "binary_wf t" "binary_check_add_root t user = Ok ()"
  obtains t' where "binary_add_root user at t = (Ok (next_slot (tr_arena t)), t')"
    "attached (tr_arena t) (tr_arena t') (next_slot (tr_arena t)) (root_node user at) []" "binary_wf t'"
proof -
  let ?a = "tr_arena t" and ?i = "next_slot (tr_arena t)"
  let ?a' = "(placed (root_node user at) ?a)\<lparr>index := hm_insert user ?i (index ?a), root := Some ?i\<rparr>"
  let ?t' = "t\<lparr>tr_arena := ?a', tr_slots := hm_insert ?i [None, None] (tr_slots t)\<rparr>"
  have wf: "arena_wf ?a" "slots_wf 2 ?a (tr_slots t)" using assms(1) by simp_all
  have att: "attached ?a ?a' ?i (root_node user at) []"
    using root_attached [OF wf(1)] assms(2) by (simp add: binary_check_add_root_ok)
  show ?thesis
  proof (rule that)
    show "binary_add_root user at t = (Ok ?i, ?t')"
      using assms(2) by (simp add: binary_add_root_def outcome_simps alloc_slot_eq [OF arena_wfD(6) [OF wf(1)]])
    show "binary_wf ?t'"
      using attached_wf [OF wf(1) att] slots_rooted [OF wf(2) att] by (simp add: empty_row)
  qed (use att in simp)
qed

lemma binary_add_node_ok:
  assumes wf: "binary_wf t" and ok: "binary_check_add_node t user p pos s = Ok ()"
    and room: "length (nodes (tr_arena t)) < 2 ^ 32"
  obtains t' pi si where "binary_add_node user p pos s at t = (Ok (next_slot (tr_arena t)), t')"
    "hm_get (index (tr_arena t)) p = Some pi" "hm_get (index (tr_arena t)) s = Some si"
    "attached (tr_arena t) (tr_arena t') (next_slot (tr_arena t))
       (child_node user pi (Some si) (depth (nd (tr_arena t) pi) + 1) at)
       (occupied ((slot_row_of t pi)[pos := Some (next_slot (tr_arena t))]))"
    "tr_slots t' = row_placed 2 pi (slot_row_of t pi) pos (next_slot (tr_arena t)) (tr_slots t)" "binary_wf t'"
proof -
  let ?a = "tr_arena t" and ?i = "next_slot (tr_arena t)"
  obtain pi si where ix: "hm_get (index ?a) p = Some pi" "hm_get (index ?a) s = Some si"
    and new: "user \<noteq> nil_uuid" "hm_get (index ?a) user = None" and pos: "pos < 2" "slot_row_of t pi ! pos = None"
    using ok by (auto simp: binary_check_add_node_ok [OF wf])
  have aw: "arena_wf ?a" using wf by simp
  note fr = arena_wfD(6) [OF aw]
  note live = index_live(1) [OF aw ix(1)] index_live(1) [OF aw ix(2)]
  note row = slot_row_live(1,2) [OF wf live(1)]
  let ?row = "(slot_row_of t pi)[pos := Some ?i]"
  let ?t' = "t\<lparr>tr_arena := arena_placed user pi ?row (Some si) at ?a,
     tr_slots := row_placed 2 pi (slot_row_of t pi) pos ?i (tr_slots t)\<rparr>"
  have so: "\<forall>s. Some si = Some s \<longrightarrow> live ?a s" using live(2) by simp
  note placed = place_child_ok(2,3) [OF wf new live(1) row(1) pos so room, where at = at]
  show ?thesis
  proof (rule that [OF _ ix])
    show "binary_add_node user p pos s at t = (Ok ?i, ?t')"
      using ok ix live row pos arena_placed_live [OF aw live(1) so]
      by (simp add: binary_add_node_def outcome_simps resolve_def child_depth(1) [OF aw live(1) room]
          alloc_slot_eq [OF fr] slots_mut_def set_slot_def binary_rebuild_eq [of _ _ ?row] rebuild_children_def
          arena_node_mut_upd recruit_def arena_placed_def row_placed_def empty_row)
    show "binary_wf ?t'" using attached_wf [OF aw placed(1)] placed(2) by simp
  qed (use placed in simp_all)
qed

section \<open>Removal\<close>

lemma binary_check_remove_ok:
  assumes "binary_wf t"
  shows "binary_check_remove_node t user = Ok () \<longleftrightarrow> (\<exists>i. hm_get (index (tr_arena t)) user = Some i \<and>
     kds (tr_arena t) i = [] \<and> removable (tr_arena t) {i})"
    "decided (binary_check_remove_node t user)"
proof -
  have wf: "arena_wf (tr_arena t)" using assms by simp
  show "binary_check_remove_node t user = Ok () \<longleftrightarrow> (\<exists>i. hm_get (index (tr_arena t)) user = Some i \<and>
     kds (tr_arena t) i = [] \<and> removable (tr_arena t) {i})"
    using index_live(1) [OF wf, of user]
    by (auto simp: binary_check_remove_node_def resolve_def
        check_sponsored_removable_ok [OF wf, of "[i]" for i, simplified])
  show "decided (binary_check_remove_node t user)"
    using index_live(1) [OF wf, of user]
    by (cases "hm_get (index (tr_arena t)) user")
      (auto simp: binary_check_remove_node_def resolve_def check_sponsored_removable_def check_removable_one_eq [OF wf])
qed

lemma binary_remove_node_ok:
  assumes wf: "binary_wf t" and ok: "binary_check_remove_node t user = Ok ()"
  obtains t' i where "binary_remove_node user t = (Ok (handovers (tr_arena t) [i]), t')"
    "hm_get (index (tr_arena t)) user = Some i" "detached (tr_arena t) (tr_arena t') [i]" "binary_wf t'"
    "\<forall>j. j \<noteq> i \<longrightarrow> slot_row_of t' j = clear_slot i (slot_row_of t j)"
proof -
  let ?a = "tr_arena t"
  have aw: "arena_wf ?a" and sw: "slots_wf 2 ?a (tr_slots t)" using wf by simp_all
  obtain i where ix: "hm_get (index ?a) user = Some i" and leaf: "kds ?a i = []" and rem: "removable ?a {i}"
    using ok by (auto simp: binary_check_remove_ok(1) [OF wf])
  note i = index_live(1,2) [OF aw ix]
  define b1 where "b1 = parent_left ?a i"
  define sl1 where "sl1 = (case par ?a i of None \<Rightarrow> tr_slots t
    | Some p \<Rightarrow> hm_insert p (clear_slot i (the (hm_get (tr_slots t) p))) (tr_slots t))"
  have b1: "nd b1 j = (nd ?a j)\<lparr>children := filter (\<lambda>c. c \<noteq> i) (kds ?a j)\<rparr>" for j
    by (rule leave_parent [OF aw i(1) b1_def [symmetric]])
  have f1: "length (nodes b1) = length (nodes ?a)" "index b1 = index ?a" "free_list b1 = free_list ?a"
    "root b1 = root ?a" by (simp_all add: b1_def split: option.split)
  have 1: "(case par ?a i of None \<Rightarrow> sret ()
       | Some parent_idx \<Rightarrow>
           sbind (on_slots (slots_mut parent_idx (\<lambda>row. Ok (clear_slot i row)))) (\<lambda>_.
           binary_rebuild_children parent_idx)) t =
      (Ok () :: (tree_error, unit) result, t\<lparr>tr_arena := b1, tr_slots := sl1\<rparr>)"
  proof (cases "par ?a i")
    case (Some p)
    note p = par_live [OF aw i(1) Some]
    note row = slot_row_live(1,2,3) [OF wf p]
    have "upd_node p (\<lambda>n. n\<lparr>children := occupied (clear_slot i (slot_row_of t p))\<rparr>) ?a = b1"
      using Some row(3) by (simp add: b1_def occupied_clear upd_node_def)
    then show ?thesis using Some p row
      by (simp add: outcome_simps slots_mut_def sl1_def arena_node_mut_upd rebuild_children_def
          binary_rebuild_eq [of _ p "clear_slot i (slot_row_of t p)"])
  qed (simp add: outcome_simps b1_def sl1_def)
  obtain b2 b3 a' where s: "live b1 i" "spn b1 i = spn ?a i"
    "retain_sponsored (spn ?a i) i b1 = (Ok () :: (tree_error, unit) result, b2)" "root b2 = root ?a"
    "reparent_sponsored [i] (if root ?a = Some i then b2\<lparr>root := None\<rparr> else b2) = (Ok (handovers ?a [i]), b3)"
    "tombstone i (b3\<lparr>index := hm_remove (user_id (nd ?a i)) (index b3)\<rparr>) = (Ok () :: (tree_error, unit) result, a')"
    "detached ?a a' [i]"
    by (rule detach_steps [OF aw i(1) leaf rem b1 f1])
  let ?t' = "t\<lparr>tr_arena := a', tr_slots := hm_remove i sl1\<rparr>"
  show ?thesis
  proof (rule that [OF _ ix])
    show "binary_remove_node user t = (Ok (handovers ?a [i]), ?t')"
      using ok ix i s by (simp add: binary_remove_node_def outcome_simps resolve_def 1)
    show "binary_wf ?t'"
      using detached_wf [OF aw s(7)] slots_leaf_left(1) [OF aw sw s(7)] by (simp add: sl1_def)
    show "\<forall>j. j \<noteq> i \<longrightarrow> slot_row_of ?t' j = clear_slot i (slot_row_of t j)"
      using slots_leaf_left(2) [OF aw sw s(7) refl] by (simp add: slot_row_of_def sl1_def split: option.split)
  qed (use s(7) in simp)
qed

section \<open>The operations meet their contract\<close>

definition binary_fits :: "binary_tree \<Rightarrow> bool" where
  "binary_fits t \<longleftrightarrow> length (nodes (tr_arena t)) < 2 ^ 32"

interpretation binary_root_op: guarded binary_wf "\<lambda>_ _. True"
  "\<lambda>(user, at) t. binary_check_add_root t user" "\<lambda>(user, at). binary_add_root user at"
proof (unfold_locales, goal_cases)
  case (1 t i)
  then show ?case using decided_unit [OF binary_check_add_root_decided] by (cases i) auto
next
  case (2 t i e)
  then show ?case by (cases i) (simp add: binary_add_root_def outcome_simps)
next
  case (3 t i)
  obtain user at where i: "i = (user, at)" by (cases i)
  with 3 have "binary_check_add_root t user = Ok ()" by simp
  then obtain t' where "binary_add_root user at t = (Ok (next_slot (tr_arena t)), t')" "binary_wf t'"
    by (rule binary_add_root_ok [OF 3(1)])
  with i show ?case by auto
qed

interpretation binary_node_op: guarded binary_wf "\<lambda>_. binary_fits"
  "\<lambda>(user, p, pos, s, at) t. binary_check_add_node t user p pos s"
  "\<lambda>(user, p, pos, s, at). binary_add_node user p pos s at"
proof (unfold_locales, goal_cases)
  case (1 t i)
  obtain user p pos s at where "i = (user, p, pos, s, at)" by (cases i) auto
  then show ?case using decided_unit [OF binary_check_add_node_ok(2) [OF 1, of user p pos s]] by auto
next
  case (2 t i e)
  then show ?case by (cases i) (simp add: binary_add_node_def outcome_simps)
next
  case (3 t i)
  obtain user p pos s at where i: "i = (user, p, pos, s, at)" by (cases i) auto
  with 3 have "binary_check_add_node t user p pos s = Ok ()" "length (nodes (tr_arena t)) < 2 ^ 32"
    by (simp_all add: binary_fits_def)
  then obtain t' where "binary_add_node user p pos s at t = (Ok (next_slot (tr_arena t)), t')" "binary_wf t'"
    by (rule binary_add_node_ok [OF 3(1)])
  with i show ?case by auto
qed

interpretation binary_remove_op: guarded binary_wf "\<lambda>_ _. True"
  "\<lambda>user t. binary_check_remove_node t user" binary_remove_node
proof (unfold_locales, goal_cases)
  case (1 t user)
  then show ?case using decided_unit [OF binary_check_remove_ok(2) [OF 1]] by blast
next
  case (2 t user e)
  then show ?case by (simp add: binary_remove_node_def outcome_simps)
next
  case (3 t user)
  from binary_remove_node_ok [OF 3(1,3)] show ?case by metis
qed

section \<open>Validation\<close>

lemma binary_slot_fault_None:
  "binary_slot_fault a (p, row) = None \<longleftrightarrow> live a p \<and> (\<forall>c \<in> set (occupied row). live a c)"
proof (cases "err_of (check_slot_index a p)")
  case None
  then have "live a p" by (simp only: err_check_slot_index)
  with None show ?thesis unfolding binary_slot_fault_def prod.case None option.case find_map_None
    by (simp add: err_check_slot_index)
next
  case (Some e)
  then have "\<not> live a p" by (metis err_check_slot_index option.distinct(1))
  with Some show ?thesis by (simp add: binary_slot_fault_def)
qed

lemma binary_faultless:
  "raise_fault (lowest_fault fst (binary_slot_fault a) sl) = Ok () \<Longrightarrow> \<forall>(p, row) \<in> set sl. live a p"
  by (auto simp: lowest_fault_None binary_slot_fault_None)

lemma binary_validate_decided: "decided (binary_validate_restored t)"
  unfolding binary_validate_restored_def
  by (intro decided_bnd validate_restored_decided decided_raise_fault decided_has_a_slot decided_slotted_once
      children_match_ok(2) binary_faultless) simp

text \<open>
  A restored tree passes exactly when it is well formed. The width of the rows is the array length
  of the type, not something the validator looks at.
\<close>

lemma binary_validate_wf:
  assumes ix: "hm_ok (index (tr_arena t))" and sl: "hm_ok (tr_slots t)"
    and rows: "\<forall>(p, row) \<in> set (tr_slots t). length row = 2"
  shows "binary_validate_restored t = Ok () \<longleftrightarrow> binary_wf t"
proof
  assume ok: "binary_validate_restored t = Ok ()"
  then have wf: "arena_wf (tr_arena t)"
    using validate_restored_wf [OF ix] by (simp add: binary_validate_restored_def)
  have "\<forall>(p, row) \<in> set (tr_slots t). live (tr_arena t) p"
    by (rule binary_faultless) (use ok in \<open>simp add: binary_validate_restored_def\<close>)
  with rows have "\<forall>(p, row) \<in> set (tr_slots t). live (tr_arena t) p \<and> length row = 2" by blast
  from slot_checks_ok [OF wf sl this] wf ok show "binary_wf t" by (simp add: binary_validate_restored_def)
next
  assume wf: "binary_wf t"
  have row: "live (tr_arena t) p \<and> length row = 2 \<and> occupied row = kds (tr_arena t) p"
    if "(p, row) \<in> set (tr_slots t)" for p row
    using that hm_in_get [OF sl] wf unfolding slots_wf_def by blast
  then have "\<forall>(p, row) \<in> set (tr_slots t). live (tr_arena t) p \<and> length row = 2" by blast
  moreover have "lowest_fault fst (binary_slot_fault (tr_arena t)) (tr_slots t) = None"
  proof -
    have "live (tr_arena t) c" if "(p, row) \<in> set (tr_slots t)" "c \<in> set (occupied row)" for p row c
      using row [OF that(1)] kds_live [of "tr_arena t" p c] wf that(2) by simp
    then show ?thesis using row by (auto simp: lowest_fault_None binary_slot_fault_None)
  qed
  ultimately show "binary_validate_restored t = Ok ()"
    using wf slot_checks_ok [of "tr_arena t" "tr_slots t" 2] sl validate_restored_wf [OF ix]
    by (simp add: binary_validate_restored_def)
qed

section \<open>Properties\<close>

text \<open>
  C4. Adding a node refines the abstract join: the named position of the parent was open, the new
  member fills it and gets two open positions of its own, the children of the parent are its
  occupied positions from left to right, and nothing else changes.
\<close>

theorem binary_add_node_refines:
  assumes "binary_wf t" "binary_fits t" "binary_add_node user p pos s at t = (Ok i, t')"
  shows "let row = (member_rows t p)[pos := Some user] in
     pos < length (member_rows t p) \<and> member_rows t p ! pos = None \<and>
     genealogy_of (tr_arena t') = g_join user (Some p) (occupied row) (Some s) at (genealogy_of (tr_arena t)) \<and>
     member_rows t' = (member_rows t)(user := [None, None], p := row)"
proof -
  let ?a = "tr_arena t"
  have aw: "arena_wf ?a" using assms(1) by simp
  have ok: "binary_check_add_node t user p pos s = Ok ()"
    using binary_node_op.run_checked [OF assms(1), of "(user, p, pos, s, at)"] assms(3) by simp
  have room: "length (nodes ?a) < 2 ^ 32" using assms(2) by (simp add: binary_fits_def)
  obtain t'' pi si where run: "binary_add_node user p pos s at t = (Ok (next_slot ?a), t'')"
    and ix: "hm_get (index ?a) p = Some pi" "hm_get (index ?a) s = Some si"
    and att'': "attached ?a (tr_arena t'') (next_slot ?a) (child_node user pi (Some si) (depth (nd ?a pi) + 1) at)
       (occupied ((slot_row_of t pi)[pos := Some (next_slot ?a)]))"
    and sl'': "tr_slots t'' = row_placed 2 pi (slot_row_of t pi) pos (next_slot ?a) (tr_slots t)"
    by (rule binary_add_node_ok [OF assms(1) ok room])
  have "t'' = t'" using run assms(3) by simp
  note att = att'' [unfolded this] and sl = sl'' [unfolded this]
  note pi = index_live [OF aw ix(1)] and si = index_live [OF aw ix(2)]
  have mr: "member_rows t p = map (map_option (uid ?a)) (slot_row_of t pi)"
    using member_rows_uid [OF assms(1) pi(1)] pi(2) by simp
  have open_slot: "pos < length (slot_row_of t pi)" "slot_row_of t pi ! pos = None"
    using ok ix slot_row_live(2) [OF assms(1) pi(1)] by (auto simp: binary_check_add_node_ok(1) [OF assms(1)])
  show ?thesis
    using open_slot slotted_placed_refines [OF assms(1) pi(1) att sl] pi(2) si(2) by (simp add: mr empty_row)
qed

text \<open>
  C5. Removing a member refines the abstract leave: only a childless member leaves, its position
  opens, its recruits go to its sponsor, nothing else changes; and the report names exactly the
  recruits, in order, with that sponsor.
\<close>

theorem binary_remove_node_refines:
  assumes "binary_wf t" "binary_remove_node user t = (Ok moved, t')"
  shows "let g = genealogy_of (tr_arena t) in
     user \<in> g_members g \<and> g_children g user = [] \<and> genealogy_of (tr_arena t') = g_leave user g \<and>
     member_rows t' = (\<lambda>v. if v = user then [] else map (\<lambda>s. if s = Some user then None else s) (member_rows t v)) \<and>
     map rs_user_id moved = g_recruits g user \<and>
     (\<forall>m \<in> set moved. g_sponsor g user = Some (rs_new_sponsor_id m))"
proof -
  let ?a = "tr_arena t"
  have aw: "arena_wf ?a" using assms(1) by simp
  have ok: "binary_check_remove_node t user = Ok ()" using binary_remove_op.run_checked [OF assms] .
  obtain t'' i where run: "binary_remove_node user t = (Ok (handovers ?a [i]), t'')"
    and ix: "hm_get (index ?a) user = Some i" and de'': "detached ?a (tr_arena t'') [i]"
    and sl'': "\<forall>j. j \<noteq> i \<longrightarrow> slot_row_of t'' j = clear_slot i (slot_row_of t j)"
    by (rule binary_remove_node_ok [OF assms(1) ok])
  have "t'' = t'" using run assms(2) by simp
  note de = de'' [unfolded this] and sl = sl'' [unfolded this]
  note li = index_live [OF aw ix]
  have moved: "moved = handovers ?a [i]" using run assms(2) by simp
  have "member_rows t' = (\<lambda>v. if v = user then [] else map (\<lambda>s. if s = Some user then None else s) (member_rows t v))"
    by (rule member_rows_detached [OF assms(1) de, unfolded li(2)]) (use sl in blast)
  moreover have "kds ?a i = []" "removable ?a {i}"
    using ok ix by (auto simp: binary_check_remove_ok(1) [OF assms(1)])
  ultimately show ?thesis
    using moved ix li detached_genealogy [OF aw de] handovers_single [OF aw li(1)]
    by (simp add: Let_def g_children_uid [OF aw li(1), unfolded li(2)]) (simp add: genealogy_of_def)
qed

text \<open>
  C2. The validator of a restored binary tree comes to a verdict on every snapshot, without
  panicking or looping, and accepts exactly the well-formed trees.
\<close>

theorem binary_validate_exact:
  assumes "hm_ok (index (tr_arena t))" "hm_ok (tr_slots t)" "\<forall>(p, row) \<in> set (tr_slots t). length row = 2"
  shows "decided (binary_validate_restored t) \<and> (binary_validate_restored t = Ok () \<longleftrightarrow> binary_wf t)"
  using binary_validate_wf [OF assms] binary_validate_decided by blast

text \<open>
  C8. The verdict on a restored binary tree, the error and its payload included, does not depend
  on the order in which the hash maps of the snapshot are iterated.
\<close>

theorem binary_validate_order:
  assumes "hm_ok (index (tr_arena t))" "hm_ok (tr_slots t)"
    and "mset (index (tr_arena t)) = mset ix" "mset (tr_slots t) = mset sl"
  shows "binary_validate_restored \<lparr>tr_arena = (tr_arena t)\<lparr>index := ix\<rparr>, tr_slots = sl\<rparr> = binary_validate_restored t"
proof -
  let ?a = "tr_arena t" and ?a' = "(tr_arena t)\<lparr>index := ix\<rparr>"
  have n: "nodes ?a' = nodes ?a" "root ?a' = root ?a" by simp_all
  note checks = slot_checks_nodes [OF n]
  have fault: "binary_slot_fault ?a' = binary_slot_fault ?a"
    by (rule ext) (simp only: binary_slot_fault_def checks)
  have low: "lowest_fault fst (binary_slot_fault ?a) sl = lowest_fault fst (binary_slot_fault ?a) (tr_slots t)"
    using lowest_fault_order [OF assms(4), of fst "binary_slot_fault ?a"] assms(2) by (simp add: hm_ok_def)
  show ?thesis
    unfolding binary_validate_restored_def slotted.select_convs fault checks low validate_restored_order [OF assms(1,3)]
  proof (rule bnd_cong_ok [OF bnd_cong_ok])
    assume "raise_fault (lowest_fault fst (binary_slot_fault ?a) (tr_slots t)) = Ok ()"
    from binary_faultless [OF this] show "bnd (check_every_live_node_has_a_slot ?a sl) (\<lambda>_.
        bnd (check_every_live_node_is_slotted_once ?a sl) (\<lambda>_. check_children_match_slots ?a sl)) =
      bnd (check_every_live_node_has_a_slot ?a (tr_slots t)) (\<lambda>_.
        bnd (check_every_live_node_is_slotted_once ?a (tr_slots t)) (\<lambda>_. check_children_match_slots ?a (tr_slots t)))"
      by (rule slot_checks_order [OF assms(2,4)])
  qed
qed


text \<open>
  C10. A branch query returns the member in the named slot followed by its downline in
  breadth-first order, the count query counts them, an open slot gives none, and a position past
  the second is refused by both.
\<close>

theorem binary_branches:
  assumes "binary_wf t" "u \<in> g_members (genealogy_of (tr_arena t))"
  shows "let g = genealogy_of (tr_arena t);
       branch = (case member_rows t u ! pos of None \<Rightarrow> [] | Some c \<Rightarrow> c # g_downline g c 0) in
     if pos < 2 then answers (binary_get_branch t u pos) branch \<and> binary_count_branch t u pos = Ok (length branch)
     else binary_get_branch t u pos = Err (PositionOutOfRange u pos 2) \<and>
          binary_count_branch t u pos = Err (PositionOutOfRange u pos 2)"
proof -
  let ?a = "tr_arena t"
  have aw: "arena_wf ?a" using assms(1) by simp
  obtain i where i: "resolve ?a u = Ok i" "live ?a i" "uid ?a i = u" by (rule member_slot [OF aw assms(2)])
  note row = slot_row_live [OF assms(1) i(2)]
  show ?thesis
  proof (cases "pos < 2")
    case True
    have mr: "member_rows t u ! pos = map_option (uid ?a) (slot_row_of t i ! pos)"
      using member_rows_uid [OF assms(1) i(2)] i(3) row(2) True by simp
    show ?thesis
    proof (cases "slot_row_of t i ! pos")
      case None
      with i row True mr show ?thesis by (simp add: binary_get_branch_def binary_count_branch_def)
    next
      case (Some c)
      have "live ?a c" by (rule row(4)) (use Some True row(2) in \<open>metis nth_mem\<close>)
      with i row True mr Some downline_uid [OF aw, of c 0] show ?thesis
        by (simp add: binary_get_branch_def binary_count_branch_def collect_subtree_eq [OF aw] count_subtree_eq [OF aw])
    qed
  qed (use i row in \<open>simp add: binary_get_branch_def binary_count_branch_def\<close>)
qed

section \<open>Sessions\<close>

datatype binary_call = BtAddRoot uuid i64 | BtAddNode uuid uuid nat uuid i64 | BtRemove uuid

fun binary_exec :: "binary_call \<Rightarrow> (binary_tree, tree_error, unit) sm" where
  "binary_exec (BtAddRoot user at) = sbind (binary_add_root user at) (\<lambda>_. sret ())"
| "binary_exec (BtAddNode user p pos s at) = sbind (binary_add_node user p pos s at) (\<lambda>_. sret ())"
| "binary_exec (BtRemove user) = sbind (binary_remove_node user) (\<lambda>_. sret ())"

lemma binary_exec_step:
  assumes wf: "binary_wf t" and room: "length (nodes (tr_arena t)) < 2 ^ 32"
  shows "\<exists>r t'. binary_exec c t = (r, t') \<and> ((\<exists>x. r = Ok x) \<or> (\<exists>e. r = Err e)) \<and>
     binary_wf t' \<and> length (nodes (tr_arena t')) \<le> Suc (length (nodes (tr_arena t)))"
proof (cases c)
  case (BtAddRoot user at)
  show ?thesis
  proof (cases "binary_check_add_root t user = Ok ()")
    case True
    obtain t' where "binary_add_root user at t = (Ok (next_slot (tr_arena t)), t')"
      "attached (tr_arena t) (tr_arena t') (next_slot (tr_arena t)) (root_node user at) []" "binary_wf t'"
      by (rule binary_add_root_ok [OF wf True])
    with BtAddRoot attachedD(15) show ?thesis by (auto simp: outcome_simps)
  next
    case False
    with decided_unit [OF binary_check_add_root_decided, of t user] wf BtAddRoot
      binary_root_op.refuses [OF wf, of "(user, at)"] show ?thesis by (auto simp: outcome_simps)
  qed
next
  case (BtAddNode user p pos s at)
  show ?thesis
  proof (cases "binary_check_add_node t user p pos s = Ok ()")
    case True
    obtain t' n cs where "binary_add_node user p pos s at t = (Ok (next_slot (tr_arena t)), t')"
      "attached (tr_arena t) (tr_arena t') (next_slot (tr_arena t)) n cs" "binary_wf t'"
      by (rule binary_add_node_ok [OF wf True room])
    with BtAddNode attachedD(15) show ?thesis by (auto simp: outcome_simps)
  next
    case False
    with decided_unit [OF binary_check_add_node_ok(2) [OF wf, of user p pos s]] wf BtAddNode
      binary_node_op.refuses [OF wf, of "(user, p, pos, s, at)"] show ?thesis by (auto simp: outcome_simps)
  qed
next
  case (BtRemove user)
  show ?thesis
  proof (cases "binary_check_remove_node t user = Ok ()")
    case True
    obtain t' i where "binary_remove_node user t = (Ok (handovers (tr_arena t) [i]), t')"
      "detached (tr_arena t) (tr_arena t') [i]" "binary_wf t'" by (rule binary_remove_node_ok [OF wf True])
    with BtRemove unsponsoredD(13) [OF detachedD(1)] show ?thesis by (auto simp: outcome_simps)
  next
    case False
    with binary_remove_op.decides [OF wf, of user] wf BtRemove
      binary_remove_op.refuses [OF wf, of user] show ?thesis by (auto simp: outcome_simps)
  qed
qed

lemma binary_session_wf:
  assumes "length calls \<le> 2 ^ 32"
  shows "\<exists>t. sfor (\<lambda>c. settle (binary_exec c)) calls binary_new = (Ok (), t) \<and> binary_wf t"
proof (rule session_safe [where size_of = "\<lambda>t. length (nodes (tr_arena t))" and n = "2 ^ 32"])
  show "binary_wf binary_new"
    using arena_new_wf by (simp add: binary_new_def slots_wf_def live_def nd_def arena_new_def)
qed (use assms binary_exec_step in \<open>auto simp: binary_new_def arena_new_def\<close>)

lemma binary_wf_validates: "binary_wf t \<Longrightarrow> binary_validate_restored t = Ok ()"
proof -
  assume wf: "binary_wf t"
  then have "hm_ok (index (tr_arena t))" "hm_ok (tr_slots t)"
    using arena_wfD(1) by (auto simp: index_wf_def slots_wf_def)
  moreover from this wf have "\<forall>(p, row) \<in> set (tr_slots t). length row = 2"
    using hm_in_get [of "tr_slots t"] unfolding slots_wf_def by blast
  ultimately show ?thesis using binary_validate_wf wf by blast
qed

text \<open>
  C1. Sessions from an empty binary tree are safe: after any sequence of at most \<open>2 ^ 32\<close> calls,
  each of which may be refused, no call has panicked or looped, the tree is well formed, and a
  snapshot of it passes the validator.
\<close>

theorem binary_session_safe:
  assumes "length calls \<le> 2 ^ 32"
  shows "\<exists>t. sfor (\<lambda>c. settle (binary_exec c)) calls binary_new = (Ok (), t) \<and> binary_wf t \<and>
     binary_validate_restored t = Ok ()"
  using binary_session_wf [OF assms] binary_wf_validates by blast

section \<open>Instances\<close>

text \<open>The right slot of the root is filled before its left; member 4 hangs in the right slot of 3.\<close>

definition binary_sample_calls :: "binary_call list" where
  "binary_sample_calls = [BtAddRoot 1 10, BtAddNode 2 1 1 1 20, BtAddNode 3 1 0 2 30, BtAddNode 4 3 1 2 40]"

definition binary_sample :: binary_tree where
  "binary_sample = snd (sfor (\<lambda>c. settle (binary_exec c) :: (binary_tree, tree_error, unit) sm)
     binary_sample_calls binary_new)"

lemma binary_sample_wf: "binary_wf binary_sample"
  using binary_session_wf [of binary_sample_calls]
  by (auto simp: binary_sample_def binary_sample_calls_def)

lemma binary_sample_eq: "binary_sample = \<lparr>tr_arena = \<lparr>
   nodes = [\<lparr>user_id = 1, parent = None, children = [2, 1], sponsor = None, sponsored = [1], depth = 0, enrolled_at = 10\<rparr>,
     \<lparr>user_id = 2, parent = Some 0, children = [], sponsor = Some 0, sponsored = [2, 3], depth = 1, enrolled_at = 20\<rparr>,
     \<lparr>user_id = 3, parent = Some 0, children = [3], sponsor = Some 1, sponsored = [], depth = 1, enrolled_at = 30\<rparr>,
     \<lparr>user_id = 4, parent = Some 2, children = [], sponsor = Some 1, sponsored = [], depth = 2, enrolled_at = 40\<rparr>],
   index = [(1, 0), (2, 1), (3, 2), (4, 3)], free_list = [], root = Some 0\<rparr>,
   tr_slots = [(0, [Some 2, Some 1]), (1, [None, None]), (2, [None, Some 3]), (3, [None, None])]\<rparr>"
  by code_simp

lemma binary_sample_fits: "binary_fits binary_sample"
  by (simp add: binary_fits_def binary_sample_eq)

lemma binary_sample_members: "3 \<in> g_members (genealogy_of (tr_arena binary_sample))"
  by (simp add: genealogy_of_def binary_sample_eq hm_get_def)

lemma binary_sample_runs:
  "fst (binary_add_node 5 3 0 1 50 binary_sample) = Ok 4"
  "fst (binary_remove_node 2 binary_sample) =
     Ok [\<lparr>rs_user_id = 3, rs_new_sponsor_id = 1\<rparr>, \<lparr>rs_user_id = 4, rs_new_sponsor_id = 1\<rparr>]"
  "member_rows binary_sample 3 = [None, Some 4]"
  by code_simp+

theorem binary_add_node_refines_witness:
  "\<exists>t'. binary_add_node 5 3 0 1 50 binary_sample = (Ok 4, t') \<and>
     genealogy_of (tr_arena t') = g_join 5 (Some 3) [5, 4] (Some 1) 50 (genealogy_of (tr_arena binary_sample))"
proof (intro exI conjI)
  show run: "binary_add_node 5 3 0 1 50 binary_sample = (Ok 4, snd (binary_add_node 5 3 0 1 50 binary_sample))"
    by (rule prod_eqI) (simp_all add: binary_sample_runs)
  show "genealogy_of (tr_arena (snd (binary_add_node 5 3 0 1 50 binary_sample))) =
      g_join 5 (Some 3) [5, 4] (Some 1) 50 (genealogy_of (tr_arena binary_sample))"
    using binary_add_node_refines [OF binary_sample_wf binary_sample_fits run] by (simp add: Let_def binary_sample_runs)
qed

theorem binary_remove_node_refines_witness:
  "\<exists>moved t'. binary_remove_node 2 binary_sample = (Ok moved, t') \<and> moved \<noteq> [] \<and>
     genealogy_of (tr_arena t') = g_leave 2 (genealogy_of (tr_arena binary_sample))"
proof (intro exI conjI)
  let ?m = "[\<lparr>rs_user_id = 3, rs_new_sponsor_id = 1\<rparr>, \<lparr>rs_user_id = 4, rs_new_sponsor_id = 1\<rparr>]"
  show run: "binary_remove_node 2 binary_sample = (Ok ?m, snd (binary_remove_node 2 binary_sample))"
    by (rule prod_eqI) (simp_all add: binary_sample_runs)
  show "genealogy_of (tr_arena (snd (binary_remove_node 2 binary_sample))) =
      g_leave 2 (genealogy_of (tr_arena binary_sample))"
    using binary_remove_node_refines [OF binary_sample_wf run] by (simp add: Let_def)
qed simp

theorem binary_validate_exact_witness:
  "binary_validate_restored binary_sample = Ok () \<and> binary_wf binary_sample \<and>
   binary_validate_restored (binary_sample\<lparr>tr_slots := [(0, [Some 2, Some 1]), (1, [None, None]), (2, [None, None])]\<rparr>) \<noteq> Ok ()"
proof -
  have "live (tr_arena binary_sample) 3"
    by (simp add: live_def nd_def binary_sample_eq)
  then have "\<not> binary_wf (binary_sample\<lparr>tr_slots := [(0, [Some 2, Some 1]), (1, [None, None]), (2, [None, None])]\<rparr>)"
    by (auto simp: hm_get_def dest!: slots_wf_row [of 2 _ _ 3])
  then show ?thesis
    using binary_validate_exact [of binary_sample] binary_sample_wf
      binary_validate_exact [of "binary_sample\<lparr>tr_slots := [(0, [Some 2, Some 1]), (1, [None, None]), (2, [None, None])]\<rparr>"]
    by (simp add: binary_sample_eq hm_ok_def)
qed

theorem binary_validate_order_witness:
  "binary_validate_restored \<lparr>tr_arena = (tr_arena binary_sample)\<lparr>index := [(4, 3), (3, 2), (2, 1), (1, 0)]\<rparr>,
     tr_slots = [(3, [Some 0, None]), (1, [None, Some 0]), (2, [None, Some 3]), (0, [Some 2, Some 1])]\<rparr> =
   Err (RootSlottedAsChild 1)"
proof -
  let ?t = "binary_sample\<lparr>tr_slots := [(0, [Some 2, Some 1]), (1, [None, Some 0]), (2, [None, Some 3]), (3, [Some 0, None])]\<rparr>"
  have "binary_validate_restored ?t = Err (RootSlottedAsChild 1)" by code_simp
  moreover have "binary_validate_restored \<lparr>tr_arena = (tr_arena ?t)\<lparr>index := [(4, 3), (3, 2), (2, 1), (1, 0)]\<rparr>,
     tr_slots = [(3, [Some 0, None]), (1, [None, Some 0]), (2, [None, Some 3]), (0, [Some 2, Some 1])]\<rparr> =
     binary_validate_restored ?t"
    by (rule binary_validate_order) (simp_all add: binary_sample_eq hm_ok_def)
  ultimately show ?thesis by simp
qed


theorem binary_branches_witness:
  "answers (binary_get_branch binary_sample 3 1) (4 # g_downline (genealogy_of (tr_arena binary_sample)) 4 0) \<and>
   binary_get_branch binary_sample 3 2 = Err (PositionOutOfRange 3 2 2)"
  using binary_branches [OF binary_sample_wf binary_sample_members, of 1]
    binary_branches [OF binary_sample_wf binary_sample_members, of 2]
  by (simp add: binary_sample_runs Let_def)

theorem binary_session_safe_witness:
  "\<exists>t. sfor (\<lambda>c. settle (binary_exec c)) [BtAddRoot 1 0, BtAddNode 2 1 0 1 0, BtAddNode 3 1 0 1 0, BtRemove 1]
     binary_new = (Ok (), t) \<and> binary_wf t \<and> binary_validate_restored t = Ok ()"
  by (rule binary_session_safe) simp

end
