(* ===== verification/Matrix_Tree.thy ===== *)
theory Matrix_Tree
  imports Slots
begin

text \<open>
  The matrix tree of \<open>src/tree/matrix.rs\<close>: a fixed number of child slots per node, automatic
  placement into the first open slot breadth first below the sponsor, explicit placement, and two
  ways to remove a node: promoting its earliest child, or moving its subtree into the holding
  tank. This theory has the data, all operations, and the facts about placements.
\<close>

section \<open>Data\<close>

datatype spillover_direction = BreadthFirst | DepthFirst

datatype pruning_mode = PromoteEarliest | HoldingTank

record holding_tank_entry =
  ht_user_id :: uuid
  ht_sponsor_user_id :: "uuid option"
  ht_enrolled_at :: i64

record relocation =
  rl_user_id :: uuid
  rl_parent_id :: uuid
  rl_position :: u8
  rl_depth :: u32

record removal_result =
  rr_removed :: uuid
  rr_promoted :: "uuid option"
  rr_repositioned :: "uuid list"
  rr_moved_to_tank :: "uuid list"
  rr_relocated :: "relocation list"
  rr_responsored :: "responsored list"

record matrix_tree = slotted +
  mt_width :: u8
  mt_spillover :: spillover_direction
  mt_tank :: "holding_tank_entry list"

definition matrix_new :: "u8 \<Rightarrow> spillover_direction \<Rightarrow> (tree_error, matrix_tree) result" where
  "matrix_new width spillover = (if width < 2 then Err (InvalidWidth width)
     else if spillover = DepthFirst then Err UnsupportedSpillover
     else Ok \<lparr>tr_arena = arena_new, tr_slots = [], mt_width = width, mt_spillover = spillover, mt_tank = []\<rparr>)"

abbreviation usize_width :: "matrix_tree \<Rightarrow> nat" where
  "usize_width t \<equiv> unat (mt_width t)"

abbreviation in_tank :: "matrix_tree \<Rightarrow> uuid \<Rightarrow> bool" where
  "in_tank t user \<equiv> list_ex (\<lambda>e. ht_user_id e = user) (mt_tank t)"

section \<open>Validation of a restored tree\<close>

definition matrix_slot_fault :: "matrix_tree \<Rightarrow> node_index \<times> slot_row \<Rightarrow> snapshot_error option" where
  "matrix_slot_fault t entry = (case entry of (p, row) \<Rightarrow>
     (case err_of (check_slot_index (tr_arena t) p) of Some err \<Rightarrow> Some err
      | None \<Rightarrow> if length row \<noteq> usize_width t
          then Some (ChildSlotWidthMismatch p (length row) (mt_width t))
          else find_map (\<lambda>child. err_of (check_slot_index (tr_arena t) child)) (occupied row)))"

fun check_tank_repeats :: "uuid set \<Rightarrow> holding_tank_entry list \<Rightarrow> (snapshot_error, unit) result" where
  "check_tank_repeats listed [] = Ok ()"
| "check_tank_repeats listed (e # es) = (if ht_user_id e \<in> listed then Err (HoldingTankUserRepeated (ht_user_id e))
     else check_tank_repeats (insert (ht_user_id e) listed) es)"

definition tank_positions :: "holding_tank_entry list \<Rightarrow> (uuid, nat) hmap" where
  "tank_positions tank = fold (\<lambda>(pos, e). hm_insert (ht_user_id e) pos) (enumerate 0 tank) []"

definition check_tank_sponsor_chains_end :: "matrix_tree \<Rightarrow> (snapshot_error, unit) result" where
  "check_tank_sponsor_chains_end t = (let tank = mt_tank t; position_of = tank_positions tank in
     check_chains (\<lambda>i. bnd (index_at tank i) (\<lambda>e. Ok (case ht_sponsor_user_id e of None \<Rightarrow> None
         | Some s \<Rightarrow> hm_get position_of s)))
       (\<lambda>start revisited. HoldingTankSponsorChainRevisits (ht_user_id (tank ! start)) (ht_user_id (tank ! revisited)))
       (length tank) [0..<length tank])"

definition matrix_validate_restored :: "matrix_tree \<Rightarrow> (snapshot_error, unit) result" where
  "matrix_validate_restored t =
     (if mt_width t < 2 then Err (MatrixWidthTooSmall (mt_width t))
      else if mt_spillover t = DepthFirst then Err MatrixSpilloverUnsupported
      else bnd (validate_restored (tr_arena t)) (\<lambda>_.
        bnd (raise_fault (lowest_fault fst (matrix_slot_fault t) (tr_slots t))) (\<lambda>_.
        bnd (for_each (\<lambda>(pos, e). if ht_user_id e = nil_uuid then Err (HoldingTankUserNil pos) else Ok ())
          (enumerate 0 (mt_tank t))) (\<lambda>_.
        bnd (for_each (\<lambda>(pos, e). if ht_sponsor_user_id e = Some nil_uuid then Err (HoldingTankSponsorNil pos)
            else Ok ()) (enumerate 0 (mt_tank t))) (\<lambda>_.
        bnd (for_each (\<lambda>e. case hm_get (index (tr_arena t)) (ht_user_id e) of
            Some idx \<Rightarrow> Err (HoldingTankUserPlaced (ht_user_id e) idx) | None \<Rightarrow> Ok ()) (mt_tank t)) (\<lambda>_.
        bnd (check_tank_repeats {} (mt_tank t)) (\<lambda>_.
        bnd (check_tank_sponsor_chains_end t) (\<lambda>_.
        bnd (check_every_live_node_has_a_slot (tr_arena t) (tr_slots t)) (\<lambda>_.
        bnd (check_every_live_node_is_slotted_once (tr_arena t) (tr_slots t)) (\<lambda>_.
        check_children_match_slots (tr_arena t) (tr_slots t)))))))))))"

section \<open>Placement\<close>

definition matrix_check_add_root :: "matrix_tree \<Rightarrow> uuid \<Rightarrow> (tree_error, unit) result" where
  "matrix_check_add_root t user = bnd (check_user_id user) (\<lambda>_.
     if root (tr_arena t) \<noteq> None then Err RootAlreadyExists
     else if hm_contains (index (tr_arena t)) user then Err (UserAlreadyExists user)
     else if in_tank t user then Err (UserInHoldingTank user)
     else Ok ())"

definition matrix_add_root :: "uuid \<Rightarrow> i64 \<Rightarrow> (matrix_tree, tree_error, node_index) sm" where
  "matrix_add_root user at = sbind (sgets (\<lambda>t. matrix_check_add_root t user)) (\<lambda>_.
     sbind (on_arena (alloc_slot \<lparr>user_id = user, parent = None, children = [], sponsor = None,
       sponsored = [], depth = 0, enrolled_at = at\<rparr>)) (\<lambda>idx.
     sbind (on_arena (smodify (\<lambda>a. a\<lparr>index := hm_insert user idx (index a)\<rparr>))) (\<lambda>_.
     sbind (on_arena (smodify (\<lambda>a. a\<lparr>root := Some idx\<rparr>))) (\<lambda>_.
     sbind (smodify (\<lambda>t. t\<lparr>tr_slots := hm_insert idx (replicate (usize_width t) None) (tr_slots t)\<rparr>)) (\<lambda>_.
     sret idx)))))"

definition matrix_check_add_node_at ::
  "matrix_tree \<Rightarrow> uuid \<Rightarrow> uuid \<Rightarrow> uuid \<Rightarrow> u8 \<Rightarrow> (tree_error, unit) result" where
  "matrix_check_add_node_at t user sponsor_id parent_id pos = bnd (check_user_id user) (\<lambda>_.
     if root (tr_arena t) = None then Err TreeEmpty
     else if mt_width t \<le> pos then Err (PositionOutOfRange parent_id (unat pos) (usize_width t))
     else if hm_contains (index (tr_arena t)) user then Err (UserAlreadyExists user)
     else if in_tank t user then Err (UserInHoldingTank user)
     else bnd (resolve (tr_arena t) parent_id) (\<lambda>parent_idx.
       bnd (resolve_sponsor (tr_arena t) sponsor_id) (\<lambda>_.
       bnd (expect (hm_get (tr_slots t) parent_idx)) (\<lambda>parent_slots.
       bnd (index_at parent_slots (unat pos)) (\<lambda>slot.
         if slot \<noteq> None then Err (PositionOccupied parent_id (unat pos)) else Ok ())))))"

definition matrix_add_node_at ::
  "uuid \<Rightarrow> uuid \<Rightarrow> uuid \<Rightarrow> u8 \<Rightarrow> i64 \<Rightarrow> (matrix_tree, tree_error, node_index) sm" where
  "matrix_add_node_at user sponsor_id parent_id pos at =
     sbind (sgets (\<lambda>t. matrix_check_add_node_at t user sponsor_id parent_id pos)) (\<lambda>_.
     sbind (sgets (\<lambda>t. resolve (tr_arena t) parent_id)) (\<lambda>parent_idx.
     sbind (sgets (\<lambda>t. resolve (tr_arena t) sponsor_id)) (\<lambda>sponsor_idx.
     sbind (sgets (\<lambda>t. Ok (usize_width t))) (\<lambda>w.
     place_child w user parent_idx (unat pos) (Some sponsor_idx) at))))"

definition spill_body ::
  "slot_map \<Rightarrow> node_index list \<Rightarrow> ('e, node_index list + (node_index \<times> nat) option) result" where
  "spill_body slots queue = (case queue of
      [] \<Rightarrow> Ok (Inr None)
    | current # rest \<Rightarrow> bnd (expect (hm_get slots current)) (\<lambda>row.
        case position (\<lambda>slot. slot = None) row of
          Some pos \<Rightarrow> Ok (Inr (Some (current, pos)))
        | None \<Rightarrow> Ok (Inl (rest @ occupied row))))"

definition find_spillover_slot :: "slot_map \<Rightarrow> node_index \<Rightarrow> ('e, (node_index \<times> nat) option) result" where
  "find_spillover_slot slots start_idx = run_loop (spill_body slots) [start_idx]"

definition check_new_member :: "matrix_tree \<Rightarrow> uuid \<Rightarrow> (tree_error, unit) result" where
  "check_new_member t user = bnd (check_user_id user) (\<lambda>_.
     if root (tr_arena t) = None then Err TreeEmpty
     else if hm_contains (index (tr_arena t)) user then Err (UserAlreadyExists user)
     else if in_tank t user then Err (UserInHoldingTank user)
     else Ok ())"

definition matrix_add_node :: "uuid \<Rightarrow> uuid \<Rightarrow> i64 \<Rightarrow> (matrix_tree, tree_error, node_index) sm" where
  "matrix_add_node user sponsor_id at =
     sbind (sgets (\<lambda>t. check_new_member t user)) (\<lambda>_.
     sbind (sgets (\<lambda>t. resolve_sponsor (tr_arena t) sponsor_id)) (\<lambda>sponsor_idx.
     sbind (sgets (\<lambda>t. find_spillover_slot (tr_slots t) sponsor_idx)) (\<lambda>found.
     sbind (sgets (\<lambda>_. ok_or found (SubtreeFull sponsor_id))) (\<lambda>(parent_idx, pos).
     sbind (sgets (\<lambda>t. Ok (usize_width t))) (\<lambda>w.
     place_child w user parent_idx pos (Some sponsor_idx) at)))))"

section \<open>Removal\<close>

definition find_slot_position :: "slot_map \<Rightarrow> node_index \<Rightarrow> node_index \<Rightarrow> ('e, nat) result" where
  "find_slot_position slots parent_idx child_idx = bnd (expect (hm_get slots parent_idx)) (\<lambda>parent_slots.
     expect (position (\<lambda>s. s = Some child_idx) parent_slots))"

definition descendants_body ::
  "arena \<Rightarrow> node_index list \<times> node_index list \<Rightarrow> ('e, (node_index list \<times> node_index list) + node_index list) result" where
  "descendants_body a st = (case st of (queue, found) \<Rightarrow> (case queue of
      [] \<Rightarrow> Ok (Inr found)
    | current # rest \<Rightarrow> bnd (arena_node a current) (\<lambda>n. Ok (Inl (rest @ children n, found @ [current])))))"

definition descendants :: "arena \<Rightarrow> node_index \<Rightarrow> ('e, node_index list) result" where
  "descendants a idx = bnd (arena_node a idx) (\<lambda>n. run_loop (descendants_body a) (children n, []))"

definition removal_set :: "arena \<Rightarrow> node_index \<Rightarrow> pruning_mode \<Rightarrow> ('e, node_index list) result" where
  "removal_set a idx mode = (case mode of PromoteEarliest \<Rightarrow> Ok [idx]
     | HoldingTank \<Rightarrow> bnd (descendants a idx) (\<lambda>ds. Ok (idx # ds)))"

definition matrix_check_remove_node :: "matrix_tree \<Rightarrow> uuid \<Rightarrow> pruning_mode \<Rightarrow> (tree_error, unit) result" where
  "matrix_check_remove_node t user mode = bnd (resolve (tr_arena t) user) (\<lambda>idx.
     if root (tr_arena t) = Some idx then Err CannotRemoveRoot
     else bnd (removal_set (tr_arena t) idx mode) (check_sponsored_removable (tr_arena t)))"

subsection \<open>Promotion\<close>

definition placement_of :: "matrix_tree \<Rightarrow> node_index \<Rightarrow> ('e, uuid \<times> u8 \<times> u32) result" where
  "placement_of t idx = bnd (arena_node (tr_arena t) idx) (\<lambda>n.
     bnd (expect (parent n)) (\<lambda>parent_idx.
     bnd (find_slot_position (tr_slots t) parent_idx idx) (\<lambda>pos.
     bnd (arena_node (tr_arena t) parent_idx) (\<lambda>m.
     Ok (user_id m, of_nat pos, depth n)))))"

definition relocations_body ::
  "matrix_tree \<Rightarrow> (node_index, uuid \<times> u8 \<times> u32) hmap \<Rightarrow> node_index list \<times> relocation list \<Rightarrow>
     ('e, (node_index list \<times> relocation list) + relocation list) result" where
  "relocations_body t before st = (case st of (queue, moved) \<Rightarrow> (case queue of
      [] \<Rightarrow> Ok (Inr moved)
    | current # rest \<Rightarrow> bnd (placement_of t current) (\<lambda>now.
        bnd (if hm_get before current \<noteq> Some now
          then bnd (arena_node (tr_arena t) current) (\<lambda>n. case now of (parent_id, pos, d) \<Rightarrow>
            Ok (moved @ [\<lparr>rl_user_id = user_id n, rl_parent_id = parent_id, rl_position = pos, rl_depth = d\<rparr>]))
          else Ok moved) (\<lambda>moved'.
        bnd (expect (hm_get (tr_slots t) current)) (\<lambda>row. Ok (Inl (rest @ occupied row, moved')))))))"

definition relocations_from ::
  "matrix_tree \<Rightarrow> node_index \<Rightarrow> (node_index, uuid \<times> u8 \<times> u32) hmap \<Rightarrow> ('e, relocation list) result" where
  "relocations_from t start before = run_loop (relocations_body t before) ([start], [])"

text \<open>Running a state method inside a pure loop body, and a loop over the state.\<close>

definition run_sm :: "('s, 'e, 'a) sm \<Rightarrow> 's \<Rightarrow> ('e, 'a \<times> 's) result" where
  "run_sm m s = (case m s of (r, s') \<Rightarrow> bnd r (\<lambda>x. Ok (x, s')))"

definition loop_sm :: "('q \<times> 's \<Rightarrow> ('e, ('q \<times> 's) + 's) result) \<Rightarrow> 'q \<Rightarrow> ('s, 'e, unit) sm" where
  "loop_sm body q s = (case run_loop body (q, s) of
      Ok s' \<Rightarrow> (Ok (), s') | Err e \<Rightarrow> (Err e, s) | Panic \<Rightarrow> (Panic, s) | Diverge \<Rightarrow> (Diverge, s))"

definition depths_body ::
  "node_index list \<times> arena \<Rightarrow> ('e, (node_index list \<times> arena) + arena) result" where
  "depths_body st = (case st of (queue, a) \<Rightarrow> (case queue of
      [] \<Rightarrow> Ok (Inr a)
    | current # rest \<Rightarrow> bnd (arena_node a current) (\<lambda>n.
        bnd (run_sm (sfor (\<lambda>child. sbind (sgets (\<lambda>_. u32_add (depth n) 1)) (\<lambda>d.
            arena_node_mut child (\<lambda>m. m\<lparr>depth := d\<rparr>))) (children n)) a) (\<lambda>(_, a').
        Ok (Inl (rest @ children n, a'))))))"

definition recalculate_depths :: "node_index \<Rightarrow> (arena, 'e, unit) sm" where
  "recalculate_depths start_idx =
     sbind (sgets (\<lambda>a. bnd (arena_node a start_idx) (\<lambda>n. case parent n of
         None \<Rightarrow> Ok 0 | Some p \<Rightarrow> bnd (arena_node a p) (\<lambda>m. Ok (depth m))))) (\<lambda>parent_depth.
     sbind (sgets (\<lambda>a. bnd (arena_node a start_idx) (\<lambda>n.
         if parent n \<noteq> None then u32_add parent_depth 1 else Ok 0))) (\<lambda>d.
     sbind (arena_node_mut start_idx (\<lambda>m. m\<lparr>depth := d\<rparr>)) (\<lambda>_.
     loop_sm depths_body [start_idx])))"

definition detach_and_tombstone ::
  "node_index \<Rightarrow> uuid \<Rightarrow> node_index \<Rightarrow> nat \<Rightarrow> (matrix_tree, tree_error, responsored list) sm" where
  "detach_and_tombstone idx user parent_idx parent_slot_pos =
     sbind (on_slots (slots_mut parent_idx (set_slot parent_slot_pos None))) (\<lambda>_.
     sbind (rebuild_children parent_idx) (\<lambda>_.
     sbind (sgets (\<lambda>t. arena_node (tr_arena t) idx)) (\<lambda>n.
     sbind (on_arena (retain_sponsored (sponsor n) idx)) (\<lambda>_.
     sbind (on_arena (reparent_sponsored [idx])) (\<lambda>moved.
     sbind (on_slots (smodify (hm_remove idx))) (\<lambda>_.
     sbind (on_arena (smodify (\<lambda>a. a\<lparr>index := hm_remove user (index a)\<rparr>))) (\<lambda>_.
     sbind (on_arena (tombstone idx)) (\<lambda>_.
     sret moved))))))))"

text \<open>One round of the loop that finds new places for the children that were not promoted.\<close>

definition reposition ::
  "node_index \<Rightarrow> uuid \<Rightarrow> node_index \<Rightarrow> uuid list \<Rightarrow> (matrix_tree, tree_error, uuid list) sm" where
  "reposition promoted_idx promoted_user_id remaining_child repositioned_ids =
     sbind (sgets (\<lambda>t. expect (hm_get (tr_slots t) promoted_idx))) (\<lambda>promoted_slots.
     sbind (case position (\<lambda>s. s = None) promoted_slots of
         Some slot_pos \<Rightarrow>
           sbind (on_slots (slots_mut promoted_idx (set_slot slot_pos (Some remaining_child)))) (\<lambda>_.
           on_arena (arena_node_mut remaining_child (\<lambda>n. n\<lparr>parent := Some promoted_idx\<rparr>)))
       | None \<Rightarrow>
           sbind (sgets (\<lambda>t. find_spillover_slot (tr_slots t) promoted_idx)) (\<lambda>found.
           sbind (sgets (\<lambda>_. ok_or found (SubtreeFull promoted_user_id))) (\<lambda>(target_parent, target_pos).
           sbind (on_slots (slots_mut target_parent (set_slot target_pos (Some remaining_child)))) (\<lambda>_.
           sbind (rebuild_children target_parent) (\<lambda>_.
           on_arena (arena_node_mut remaining_child (\<lambda>n. n\<lparr>parent := Some target_parent\<rparr>))))))) (\<lambda>_.
     sbind (sgets (\<lambda>t. arena_node (tr_arena t) remaining_child)) (\<lambda>n.
     sret (repositioned_ids @ [user_id n]))))"

definition earliest_child :: "arena \<Rightarrow> node_index list \<Rightarrow> ('e, node_index) result" where
  "earliest_child a cs = bnd (map_res (arena_node a) cs) (\<lambda>ns.
     bnd (expect (min_by_key (\<lambda>(c, n). enrolled_at n) (zip cs ns))) (\<lambda>(c, n). Ok c))"

definition placements_before :: "matrix_tree \<Rightarrow> node_index \<Rightarrow> ('e, (node_index, uuid \<times> u8 \<times> u32) hmap) result" where
  "placements_before t idx = bnd (descendants (tr_arena t) idx) (\<lambda>ds.
     bnd (map_res (\<lambda>n. bnd (placement_of t n) (\<lambda>p. Ok (n, p))) ds) (\<lambda>ps.
     Ok (fold (\<lambda>(n, p). hm_insert n p) ps [])))"

definition remove_promote_earliest :: "node_index \<Rightarrow> uuid \<Rightarrow> (matrix_tree, tree_error, removal_result) sm" where
  "remove_promote_earliest idx user =
     sbind (sgets (\<lambda>t. bnd (arena_node (tr_arena t) idx) (\<lambda>n. expect (parent n)))) (\<lambda>parent_idx.
     sbind (sgets (\<lambda>t. find_slot_position (tr_slots t) parent_idx idx)) (\<lambda>parent_slot_pos.
     sbind (sgets (\<lambda>t. expect (hm_get (tr_slots t) idx))) (\<lambda>child_slots.
     let occupied_children = occupied child_slots in
     if occupied_children = [] then
       sbind (detach_and_tombstone idx user parent_idx parent_slot_pos) (\<lambda>resp.
       sret \<lparr>rr_removed = user, rr_promoted = None, rr_repositioned = [], rr_moved_to_tank = [],
         rr_relocated = [], rr_responsored = resp\<rparr>)
     else
       sbind (sgets (\<lambda>t. earliest_child (tr_arena t) occupied_children)) (\<lambda>promoted_idx.
       sbind (sgets (\<lambda>t. bnd (arena_node (tr_arena t) promoted_idx) (\<lambda>n. Ok (user_id n)))) (\<lambda>promoted_user_id.
       let remaining = filter (\<lambda>c. c \<noteq> promoted_idx) occupied_children in
       sbind (sgets (\<lambda>t. placements_before t idx)) (\<lambda>before.
       sbind (sgets (\<lambda>t. find_slot_position (tr_slots t) idx promoted_idx)) (\<lambda>promoted_slot_pos.
       sbind (on_slots (slots_mut idx (set_slot promoted_slot_pos None))) (\<lambda>_.
       sbind (on_slots (slots_mut parent_idx (set_slot parent_slot_pos (Some promoted_idx)))) (\<lambda>_.
       sbind (rebuild_children parent_idx) (\<lambda>_.
       sbind (on_arena (arena_node_mut promoted_idx (\<lambda>n. n\<lparr>parent := Some parent_idx\<rparr>))) (\<lambda>_.
       sbind (sfold (reposition promoted_idx promoted_user_id) remaining []) (\<lambda>repositioned_ids.
       sbind (rebuild_children promoted_idx) (\<lambda>_.
       sbind (sgets (\<lambda>t. arena_node (tr_arena t) idx)) (\<lambda>n.
       sbind (on_arena (retain_sponsored (sponsor n) idx)) (\<lambda>_.
       sbind (on_arena (reparent_sponsored [idx])) (\<lambda>resp.
       sbind (on_slots (smodify (hm_remove idx))) (\<lambda>_.
       sbind (on_arena (smodify (\<lambda>a. a\<lparr>index := hm_remove user (index a)\<rparr>))) (\<lambda>_.
       sbind (on_arena (tombstone idx)) (\<lambda>_.
       sbind (on_arena (recalculate_depths promoted_idx)) (\<lambda>_.
       sbind (sgets (\<lambda>t. relocations_from t promoted_idx before)) (\<lambda>relocated.
       sret \<lparr>rr_removed = user, rr_promoted = Some promoted_user_id, rr_repositioned = repositioned_ids,
         rr_moved_to_tank = [], rr_relocated = relocated, rr_responsored = resp\<rparr>)))))))))))))))))))))"

subsection \<open>The holding tank\<close>

definition tank_entry :: "arena \<Rightarrow> node_index \<Rightarrow> ('e, node_index \<times> holding_tank_entry) result" where
  "tank_entry a i = bnd (arena_node a i) (\<lambda>n.
     bnd (case sponsor n of None \<Rightarrow> Ok None | Some s \<Rightarrow> bnd (arena_node a s) (\<lambda>m. Ok (Some (user_id m)))) (\<lambda>so.
     Ok (i, \<lparr>ht_user_id = user_id n, ht_sponsor_user_id = so, ht_enrolled_at = enrolled_at n\<rparr>)))"

text \<open>Leaving a sponsor that stays in the tree.\<close>

definition leave_outside_sponsor :: "node_index list \<Rightarrow> node_index option \<Rightarrow> node_index \<Rightarrow> (arena, 'e, unit) sm" where
  "leave_outside_sponsor removed_set so i = (case so of None \<Rightarrow> sret ()
     | Some s \<Rightarrow> if s \<notin> set removed_set then retain_sponsored (Some s) i else sret ())"

definition clear_descendant :: "node_index list \<Rightarrow> node_index \<Rightarrow> (matrix_tree, tree_error, unit) sm" where
  "clear_descendant removed_set desc_idx =
     sbind (sgets (\<lambda>t. arena_node (tr_arena t) desc_idx)) (\<lambda>n.
     sbind (on_arena (leave_outside_sponsor removed_set (sponsor n) desc_idx)) (\<lambda>_.
     sbind (sgets (\<lambda>t. arena_node (tr_arena t) desc_idx)) (\<lambda>n.
     sbind (on_slots (smodify (hm_remove desc_idx))) (\<lambda>_.
     sbind (on_arena (smodify (\<lambda>a. a\<lparr>index := hm_remove (user_id n) (index a)\<rparr>))) (\<lambda>_.
     on_arena (tombstone desc_idx))))))"

definition remove_to_holding_tank :: "node_index \<Rightarrow> uuid \<Rightarrow> (matrix_tree, tree_error, removal_result) sm" where
  "remove_to_holding_tank idx user =
     sbind (sgets (\<lambda>t. bnd (arena_node (tr_arena t) idx) (\<lambda>n. expect (parent n)))) (\<lambda>parent_idx.
     sbind (sgets (\<lambda>t. find_slot_position (tr_slots t) parent_idx idx)) (\<lambda>parent_slot_pos.
     sbind (sgets (\<lambda>t. removal_set (tr_arena t) idx HoldingTank)) (\<lambda>removed_set.
     let below = tl removed_set in
     sbind (on_arena (reparent_sponsored removed_set)) (\<lambda>resp.
     sbind (sgets (\<lambda>t. map_res (tank_entry (tr_arena t)) below)) (\<lambda>entries.
     sbind (sgets (\<lambda>t. arena_node (tr_arena t) idx)) (\<lambda>node.
     sbind (sgets (\<lambda>t. tank_entry (tr_arena t) idx)) (\<lambda>(_, own).
     let tank_entries = map snd entries @ [own\<lparr>ht_user_id := user\<rparr>] in
     sbind (smodify (\<lambda>t. t\<lparr>mt_tank := mt_tank t @ tank_entries\<rparr>)) (\<lambda>_.
     sbind (sfor (clear_descendant removed_set) below) (\<lambda>_.
     sbind (on_arena (leave_outside_sponsor removed_set (sponsor node) idx)) (\<lambda>_.
     sbind (on_slots (slots_mut parent_idx (set_slot parent_slot_pos None))) (\<lambda>_.
     sbind (rebuild_children parent_idx) (\<lambda>_.
     sbind (on_slots (smodify (hm_remove idx))) (\<lambda>_.
     sbind (on_arena (smodify (\<lambda>a. a\<lparr>index := hm_remove user (index a)\<rparr>))) (\<lambda>_.
     sbind (on_arena (tombstone idx)) (\<lambda>_.
     sret \<lparr>rr_removed = user, rr_promoted = None, rr_repositioned = [],
       rr_moved_to_tank = map ht_user_id tank_entries, rr_relocated = [], rr_responsored = resp\<rparr>)))))))))))))))"

definition matrix_remove_node :: "uuid \<Rightarrow> pruning_mode \<Rightarrow> (matrix_tree, tree_error, removal_result) sm" where
  "matrix_remove_node user mode =
     sbind (sgets (\<lambda>t. matrix_check_remove_node t user mode)) (\<lambda>_.
     sbind (sgets (\<lambda>t. resolve (tr_arena t) user)) (\<lambda>idx.
     case mode of PromoteEarliest \<Rightarrow> remove_promote_earliest idx user
       | HoldingTank \<Rightarrow> remove_to_holding_tank idx user))"

definition get_holding_tank :: "matrix_tree \<Rightarrow> uuid option \<Rightarrow> holding_tank_entry list" where
  "get_holding_tank t sponsor_id = (case sponsor_id of
      Some sid \<Rightarrow> filter (\<lambda>e. ht_sponsor_user_id e = Some sid) (mt_tank t)
    | None \<Rightarrow> mt_tank t)"

definition check_place_from_tank ::
  "matrix_tree \<Rightarrow> uuid \<Rightarrow> uuid \<Rightarrow> u8 \<Rightarrow> (tree_error, node_index \<times> nat) result" where
  "check_place_from_tank t user parent_id pos = bnd (check_user_id user) (\<lambda>_.
     if mt_width t \<le> pos then Err (PositionOutOfRange parent_id (unat pos) (usize_width t))
     else bnd (resolve (tr_arena t) parent_id) (\<lambda>parent_idx.
       bnd (expect (hm_get (tr_slots t) parent_idx)) (\<lambda>parent_slots.
       bnd (index_at parent_slots (unat pos)) (\<lambda>slot.
       if slot \<noteq> None then Err (PositionOccupied parent_id (unat pos))
       else bnd (ok_or (position (\<lambda>e. ht_user_id e = user) (mt_tank t)) (UserNotInHoldingTank user)) (\<lambda>tank_pos.
         bnd (index_at (mt_tank t) tank_pos) (\<lambda>entry.
         case ht_sponsor_user_id entry of
           Some sponsor_id \<Rightarrow> if in_tank t sponsor_id then Err (SponsorInHoldingTank user sponsor_id)
             else Ok (parent_idx, tank_pos)
         | None \<Rightarrow> Ok (parent_idx, tank_pos)))))))"

definition place_from_tank :: "uuid \<Rightarrow> uuid \<Rightarrow> u8 \<Rightarrow> (matrix_tree, tree_error, unit) sm" where
  "place_from_tank user parent_id pos =
     sbind (sgets (\<lambda>t. check_place_from_tank t user parent_id pos)) (\<lambda>(parent_idx, tank_pos).
     sbind (sgets (\<lambda>t. index_at (mt_tank t) tank_pos)) (\<lambda>entry.
     sbind (smodify (\<lambda>t. t\<lparr>mt_tank := take tank_pos (mt_tank t) @ drop (Suc tank_pos) (mt_tank t)\<rparr>)) (\<lambda>_.
     sbind (sgets (\<lambda>t. Ok (case ht_sponsor_user_id entry of None \<Rightarrow> None
       | Some sid \<Rightarrow> (case resolve (tr_arena t) sid of Ok i \<Rightarrow> Some i | _ \<Rightarrow> None)))) (\<lambda>sponsor_idx.
     sbind (sgets (\<lambda>t. Ok (usize_width t))) (\<lambda>w.
     sbind (place_child w user parent_idx (unat pos) sponsor_idx (ht_enrolled_at entry)) (\<lambda>_.
     sret ()))))))"

section \<open>Positions and branches\<close>

definition matrix_get_position :: "matrix_tree \<Rightarrow> uuid \<Rightarrow> (tree_error, tree_position) result" where
  "matrix_get_position t user = bnd (resolve (tr_arena t) user) (\<lambda>idx.
     bnd (get_position (tr_arena t) idx) (\<lambda>pos.
     bnd (arena_node (tr_arena t) idx) (\<lambda>n.
     bnd (case parent n of None \<Rightarrow> Ok pos
       | Some parent_idx \<Rightarrow> bnd (expect (hm_get (tr_slots t) parent_idx)) (\<lambda>parent_slots.
           case position (\<lambda>slot. slot = Some idx) parent_slots of
             Some slot_pos \<Rightarrow> Ok (pos\<lparr>tp_position := slot_pos\<rparr>) | None \<Rightarrow> Ok pos)) (\<lambda>pos.
     bnd (expect (hm_get (tr_slots t) idx)) (\<lambda>node_slots.
     bnd (slot_counts (tr_arena t) node_slots) (\<lambda>counts.
     Ok (pos\<lparr>tp_downline_counts := counts\<rparr>)))))))"

definition matrix_get_branch :: "matrix_tree \<Rightarrow> uuid \<Rightarrow> nat \<Rightarrow> (tree_error, node list) result" where
  "matrix_get_branch t user pos = bnd (resolve (tr_arena t) user) (\<lambda>idx.
     bnd (expect (hm_get (tr_slots t) idx)) (\<lambda>node_slots.
     if usize_width t \<le> pos then Err (PositionOutOfRange user pos (usize_width t))
     else bnd (index_at node_slots pos) (\<lambda>slot. case slot of
         Some child_idx \<Rightarrow> collect_subtree (tr_arena t) child_idx
       | None \<Rightarrow> Ok [])))"

definition matrix_count_branch :: "matrix_tree \<Rightarrow> uuid \<Rightarrow> nat \<Rightarrow> (tree_error, nat) result" where
  "matrix_count_branch t user pos = bnd (resolve (tr_arena t) user) (\<lambda>idx.
     bnd (expect (hm_get (tr_slots t) idx)) (\<lambda>node_slots.
     if usize_width t \<le> pos then Err (PositionOutOfRange user pos (usize_width t))
     else bnd (index_at node_slots pos) (\<lambda>slot. case slot of
         Some child_idx \<Rightarrow> bnd (count_subtree (tr_arena t) child_idx) (\<lambda>k. Ok (1 + k))
       | None \<Rightarrow> Ok 0)))"

end
