(* ===== verification/Matrix_Wf.thy ===== *)
theory Matrix_Wf
  imports Matrix_Tree
begin

text \<open>
  The invariant of the matrix tree, what the breadth-first search for an open slot finds, and the
  placements: every one keeps the invariant and refines the abstract join. The validator of a
  restored tree accepts exactly the well-formed trees.
\<close>

section \<open>The invariant\<close>

text \<open>
  The tank names its users once, none of them placed, and its sponsor links run down a rank, so
  that every chain of them ends.
\<close>

definition tank_wf :: "holding_tank_entry list \<Rightarrow> arena \<Rightarrow> bool" where
  "tank_wf tank a \<longleftrightarrow> distinct (map ht_user_id tank) \<and>
     (\<forall>e \<in> set tank. ht_user_id e \<noteq> nil_uuid \<and> ht_sponsor_user_id e \<noteq> Some nil_uuid \<and>
        hm_get (index a) (ht_user_id e) = None) \<and>
     (\<exists>r :: uuid \<Rightarrow> nat. \<forall>e \<in> set tank. \<forall>s. ht_sponsor_user_id e = Some s \<longrightarrow>
        s \<in> ht_user_id ` set tank \<longrightarrow> r s < r (ht_user_id e))"

definition matrix_wf :: "matrix_tree \<Rightarrow> bool" where
  "matrix_wf t \<longleftrightarrow> 2 \<le> mt_width t \<and> mt_spillover t = BreadthFirst \<and> slotted_wf (usize_width t) t \<and>
     tank_wf (mt_tank t) (tr_arena t)"

lemma matrix_wfD:
  assumes "matrix_wf t"
  shows "2 \<le> usize_width t" "mt_spillover t = BreadthFirst" "slotted_wf (usize_width t) t"
    "arena_wf (tr_arena t)" "slots_wf (usize_width t) (tr_arena t) (tr_slots t)" "tank_wf (mt_tank t) (tr_arena t)"
  using assms by (simp_all add: matrix_wf_def word_le_nat_alt)

lemma in_tank_iff: "in_tank t user \<longleftrightarrow> user \<in> ht_user_id ` set (mt_tank t)"
  by (auto simp: list_ex_iff)

text \<open>A member that is not in the tank may join; an entry may leave.\<close>

lemma tank_join:
  assumes "tank_wf tank a" "index a' = hm_insert u i (index a)" "u \<notin> ht_user_id ` set tank"
  shows "tank_wf tank a'"
  using assms by (auto simp: tank_wf_def)

lemma tank_leave:
  assumes "tank_wf tank a" "set tank' \<subseteq> set tank" "distinct (map ht_user_id tank')"
  shows "tank_wf tank' a"
proof -
  obtain r :: "uuid \<Rightarrow> nat" where "\<forall>e \<in> set tank. \<forall>s. ht_sponsor_user_id e = Some s \<longrightarrow>
      s \<in> ht_user_id ` set tank \<longrightarrow> r s < r (ht_user_id e)" using assms(1) by (auto simp: tank_wf_def)
  with assms(2) have "\<forall>e \<in> set tank'. \<forall>s. ht_sponsor_user_id e = Some s \<longrightarrow>
      s \<in> ht_user_id ` set tank' \<longrightarrow> r s < r (ht_user_id e)" by blast
  with assms show ?thesis unfolding tank_wf_def by blast
qed

section \<open>The search for an open slot\<close>

definition open_slot :: "slot_map \<Rightarrow> node_index \<Rightarrow> (node_index \<times> nat) option" where
  "open_slot slots y = map_option (Pair y) (position (\<lambda>slot. slot = None) (the (hm_get slots y)))"

lemma spill_fifo:
  assumes "fifo down q out" "\<forall>y \<in> set out. \<exists>row. hm_get slots y = Some row \<and> down y = occupied row"
  shows "run_loop (spill_body slots) q = (Ok (find_map (open_slot slots) out) :: ('e, (node_index \<times> nat) option) result)"
  using assms
proof (induction rule: fifo.induct)
  case fifo_Nil
  show ?case by (simp add: run_loop_done spill_body_def)
next
  case (fifo_Cons q x out)
  then obtain row where row: "hm_get slots x = Some row" "down x = occupied row" by auto
  show ?case
  proof (cases "position (\<lambda>slot. slot = None) row")
    case None
    then have "run_loop (spill_body slots) (x # q) = (run_loop (spill_body slots) (q @ down x) :: ('e, (node_index \<times> nat) option) result)"
      by (intro run_loop_next) (simp add: spill_body_def row)
    with fifo_Cons None row show ?thesis by (simp add: open_slot_def)
  next
    case (Some pos)
    have "run_loop (spill_body slots) (x # q) = (Ok (Some (x, pos)) :: ('e, (node_index \<times> nat) option) result)"
      by (intro run_loop_done) (simp add: spill_body_def row Some)
    then show ?thesis using Some row by (simp add: open_slot_def)
  qed
qed

lemma open_slot_Some:
  assumes "open_slot slots y = Some (p, pos)" "hm_get slots y = Some row"
  shows "p = y" "pos < length row" "row ! pos = None" "\<forall>k < pos. row ! k \<noteq> None"
  using assms by (auto simp: open_slot_def position_Some_iff)

lemma open_slot_leaf:
  assumes "hm_get slots y = Some row" "occupied row = []" "row \<noteq> []"
  shows "open_slot slots y \<noteq> None"
proof -
  have "None \<in> set row"
    using assms(2,3) occupied_set [of _ row] by (metis empty_iff last_in_set list.set(1) not_None_eq)
  then have "position (\<lambda>slot. slot = None) row \<noteq> None" by (auto simp: position_None_iff)
  with assms(1) show ?thesis by (simp add: open_slot_def)
qed

lemma find_map_Some: "find_map f xs = Some y \<Longrightarrow> \<exists>ys x zs. xs = ys @ x # zs \<and> f x = Some y \<and> (\<forall>z \<in> set ys. f z = None)"
proof (induction xs)
  case (Cons x xs)
  show ?case
  proof (cases "f x")
    case None
    with Cons obtain ys x' zs where "xs = ys @ x' # zs" "f x' = Some y" "\<forall>z \<in> set ys. f z = None" by auto
    with None show ?thesis by (intro exI [of _ "x # ys"] exI [of _ x'] exI [of _ zs]) simp
  next
    case (Some z)
    with Cons.prems show ?thesis by (intro exI [of _ "[]"]) simp
  qed
qed simp

text \<open>In a well-formed tree the search always finds a slot, below the node it starts from.\<close>

lemma find_spillover_found:
  assumes wf: "slotted_wf w t" "0 < w" and i: "live (tr_arena t) i"
  obtains p pos where "find_spillover_slot (tr_slots t) i = (Ok (Some (p, pos)) :: ('e, (node_index \<times> nat) option) result)"
    "find_map (open_slot (tr_slots t)) (i # downline (tr_arena t) i 0) = Some (p, pos)"
    "live (tr_arena t) p" "pos < w" "slot_row_of t p ! pos = None"
proof -
  let ?a = "tr_arena t" and ?out = "i # downline (tr_arena t) i 0"
  have aw: "arena_wf ?a" using wf by simp
  have live: "live ?a y" if "y \<in> set ?out" for y
    using that placement.in_level_order [OF aw, of i] i by (auto simp: downline_def)
  have run: "find_spillover_slot (tr_slots t) i = (Ok (find_map (open_slot (tr_slots t)) ?out) :: ('e, (node_index \<times> nat) option) result)"
    unfolding find_spillover_slot_def
  proof (rule spill_fifo [OF fifo_subtree [OF aw i]], rule ballI)
    fix y assume "y \<in> set ?out"
    from slot_row_live(1,3) [OF wf(1) live [OF this]]
    show "\<exists>row. hm_get (tr_slots t) y = Some row \<and> kds ?a y = occupied row" by simp
  qed
  have "\<exists>y \<in> set ?out. kds ?a y = []"
    using placement.leaf_below [OF aw, of i "length (nodes ?a)"] i card_live [of ?a] by (simp add: downline_def)
  then obtain y where y: "y \<in> set ?out" "kds ?a y = []" by blast
  note row = slot_row_live(1,2,3) [OF wf(1) live [OF y(1)]]
  have "slot_row_of t y \<noteq> []" using row(2) wf(2) by auto
  then have "open_slot (tr_slots t) y \<noteq> None" using open_slot_leaf [OF row(1)] row(3) y(2) by simp
  with y(1) have "find_map (open_slot (tr_slots t)) ?out \<noteq> None" unfolding find_map_None by (metis (lifting))
  then obtain p pos where f: "find_map (open_slot (tr_slots t)) ?out = Some (p, pos)" by auto
  then obtain ys x zs where x: "?out = ys @ x # zs" "open_slot (tr_slots t) x = Some (p, pos)"
    using find_map_Some by metis
  have lx: "live ?a x" by (rule live) (simp add: x(1))
  note rx = slot_row_live(1,2) [OF wf(1) lx] and o = open_slot_Some [OF x(2) slot_row_live(1) [OF wf(1) lx]]
  show ?thesis by (rule that [OF _ f]) (use run f lx o rx in simp_all)
qed

section \<open>Placements\<close>

lemma matrix_check_add_root_ok:
  "matrix_check_add_root t user = Ok () \<longleftrightarrow> user \<noteq> nil_uuid \<and> root (tr_arena t) = None \<and>
     hm_get (index (tr_arena t)) user = None \<and> user \<notin> ht_user_id ` set (mt_tank t)"
    "decided (matrix_check_add_root t user)"
  by (auto simp: matrix_check_add_root_def check_user_id_def list_ex_iff)

lemma matrix_check_add_node_at_ok:
  assumes wf: "matrix_wf t"
  shows "matrix_check_add_node_at t user s p pos = Ok () \<longleftrightarrow>
     user \<noteq> nil_uuid \<and> root (tr_arena t) \<noteq> None \<and> unat pos < usize_width t \<and>
     hm_get (index (tr_arena t)) user = None \<and> user \<notin> ht_user_id ` set (mt_tank t) \<and>
     (\<exists>pi. hm_get (index (tr_arena t)) p = Some pi \<and> slot_row_of t pi ! unat pos = None) \<and>
     hm_get (index (tr_arena t)) s \<noteq> None"
    "decided (matrix_check_add_node_at t user s p pos)"
proof -
  have row: "hm_get (tr_slots t) pi = Some (slot_row_of t pi) \<and> length (slot_row_of t pi) = usize_width t"
    if "hm_get (index (tr_arena t)) p = Some pi" for pi
    using slot_row_live(1,2) [OF matrix_wfD(3) [OF wf] index_live(1) [OF matrix_wfD(4) [OF wf] that]] by simp
  show "matrix_check_add_node_at t user s p pos = Ok () \<longleftrightarrow>
     user \<noteq> nil_uuid \<and> root (tr_arena t) \<noteq> None \<and> unat pos < usize_width t \<and>
     hm_get (index (tr_arena t)) user = None \<and> user \<notin> ht_user_id ` set (mt_tank t) \<and>
     (\<exists>pi. hm_get (index (tr_arena t)) p = Some pi \<and> slot_row_of t pi ! unat pos = None) \<and>
     hm_get (index (tr_arena t)) s \<noteq> None"
    using row by (auto simp: matrix_check_add_node_at_def check_user_id_def resolve_def resolve_sponsor_def
        list_ex_iff word_le_nat_alt)
  show "decided (matrix_check_add_node_at t user s p pos)"
    using row
    by (cases "hm_get (index (tr_arena t)) p"; cases "hm_get (index (tr_arena t)) s")
      (auto simp: matrix_check_add_node_at_def check_user_id_def resolve_def resolve_sponsor_def word_le_nat_alt)
qed

lemma check_new_member_ok:
  "check_new_member t user = Ok () \<longleftrightarrow> user \<noteq> nil_uuid \<and> root (tr_arena t) \<noteq> None \<and>
     hm_get (index (tr_arena t)) user = None \<and> user \<notin> ht_user_id ` set (mt_tank t)"
    "decided (check_new_member t user)"
  by (auto simp: check_new_member_def check_user_id_def list_ex_iff)

lemma matrix_add_root_ok:
  assumes wf: "matrix_wf t" and ok: "matrix_check_add_root t user = Ok ()"
  obtains t' where "matrix_add_root user at t = (Ok (next_slot (tr_arena t)), t')"
    "attached (tr_arena t) (tr_arena t') (next_slot (tr_arena t)) (root_node user at) []" "matrix_wf t'"
    "mt_tank t' = mt_tank t"
proof -
  let ?a = "tr_arena t" and ?i = "next_slot (tr_arena t)"
  let ?a' = "(placed (root_node user at) ?a)\<lparr>index := hm_insert user ?i (index ?a), root := Some ?i\<rparr>"
  let ?t' = "t\<lparr>tr_arena := ?a', tr_slots := hm_insert ?i (replicate (usize_width t) None) (tr_slots t)\<rparr>"
  note W = matrix_wfD [OF wf]
  have att: "attached ?a ?a' ?i (root_node user at) []"
    using root_attached [OF W(4)] ok by (simp add: matrix_check_add_root_ok)
  show ?thesis
  proof (rule that)
    show "matrix_add_root user at t = (Ok ?i, ?t')"
      using ok by (simp add: matrix_add_root_def outcome_simps alloc_slot_eq [OF arena_wfD(6) [OF W(4)]])
    show "matrix_wf ?t'"
      using attached_wf [OF W(4) att] slots_rooted [OF W(5) att] tank_join [OF W(6) attachedD(6) [OF att]] ok wf
      by (simp add: matrix_wf_def matrix_check_add_root_ok)
  qed (use att in simp_all)
qed

text \<open>What the three placements below a parent have in common.\<close>

lemma matrix_place_child:
  assumes wf: "matrix_wf t" and new: "user \<noteq> nil_uuid" "hm_get (index (tr_arena t)) user = None"
    "user \<notin> ht_user_id ` set (mt_tank t)"
    and p: "live (tr_arena t) p" "pos < usize_width t" "slot_row_of t p ! pos = None"
    and s: "\<forall>s. so = Some s \<longrightarrow> live (tr_arena t) s" and room: "length (nodes (tr_arena t)) < 2 ^ 32"
  obtains t' where "place_child (usize_width t) user p pos so at t = (Ok (next_slot (tr_arena t)), t')"
    "attached (tr_arena t) (tr_arena t') (next_slot (tr_arena t))
       (child_node user p so (depth (nd (tr_arena t) p) + 1) at)
       (occupied ((slot_row_of t p)[pos := Some (next_slot (tr_arena t))]))"
    "tr_slots t' = row_placed (usize_width t) p (slot_row_of t p) pos (next_slot (tr_arena t)) (tr_slots t)"
    "matrix_wf t'" "mt_tank t' = mt_tank t" "mt_width t' = mt_width t"
proof -
  let ?a = "tr_arena t" and ?i = "next_slot (tr_arena t)"
  note W = matrix_wfD [OF wf]
  note row = slot_row_live(1) [OF W(3) p(1)]
  let ?t' = "t\<lparr>tr_arena := arena_placed user p ((slot_row_of t p)[pos := Some ?i]) so at ?a,
     tr_slots := row_placed (usize_width t) p (slot_row_of t p) pos ?i (tr_slots t)\<rparr>"
  note pc = place_child_ok [OF W(3) new(1,2) p(1) row p(2,3) s room, where at = at]
  show ?thesis
  proof (rule that [OF pc(1)])
    show "matrix_wf ?t'"
      using attached_wf [OF W(4) pc(2)] pc(3) tank_join [OF W(6) attachedD(6) [OF pc(2)]] new(3) wf
      by (simp add: matrix_wf_def)
  qed (use pc(2) in simp_all)
qed

lemma matrix_add_node_at_ok:
  assumes wf: "matrix_wf t" and ok: "matrix_check_add_node_at t user s p pos = Ok ()"
    and room: "length (nodes (tr_arena t)) < 2 ^ 32"
  obtains t' pi si where "matrix_add_node_at user s p pos at t = (Ok (next_slot (tr_arena t)), t')"
    "hm_get (index (tr_arena t)) p = Some pi" "hm_get (index (tr_arena t)) s = Some si"
    "attached (tr_arena t) (tr_arena t') (next_slot (tr_arena t))
       (child_node user pi (Some si) (depth (nd (tr_arena t) pi) + 1) at)
       (occupied ((slot_row_of t pi)[unat pos := Some (next_slot (tr_arena t))]))"
    "tr_slots t' = row_placed (usize_width t) pi (slot_row_of t pi) (unat pos) (next_slot (tr_arena t)) (tr_slots t)"
    "matrix_wf t'" "mt_tank t' = mt_tank t"
proof -
  note W = matrix_wfD [OF wf]
  obtain pi si where ix: "hm_get (index (tr_arena t)) p = Some pi" "hm_get (index (tr_arena t)) s = Some si"
    and new: "user \<noteq> nil_uuid" "hm_get (index (tr_arena t)) user = None" "user \<notin> ht_user_id ` set (mt_tank t)"
    and pos: "unat pos < usize_width t" "slot_row_of t pi ! unat pos = None"
    using ok by (auto simp: matrix_check_add_node_at_ok(1) [OF wf])
  note live = index_live(1) [OF W(4) ix(1)] index_live(1) [OF W(4) ix(2)]
  have so: "\<forall>s. Some si = Some s \<longrightarrow> live (tr_arena t) s" using live(2) by simp
  obtain t' where t': "place_child (usize_width t) user pi (unat pos) (Some si) at t = (Ok (next_slot (tr_arena t)), t')"
    "attached (tr_arena t) (tr_arena t') (next_slot (tr_arena t))
       (child_node user pi (Some si) (depth (nd (tr_arena t) pi) + 1) at)
       (occupied ((slot_row_of t pi)[unat pos := Some (next_slot (tr_arena t))]))"
    "tr_slots t' = row_placed (usize_width t) pi (slot_row_of t pi) (unat pos) (next_slot (tr_arena t)) (tr_slots t)"
    "matrix_wf t'" "mt_tank t' = mt_tank t"
    by (rule matrix_place_child [OF wf new live(1) pos so room])
  show ?thesis
    by (rule that [OF _ ix t'(2-5)]) (use ok ix t'(1) in \<open>simp add: matrix_add_node_at_def outcome_simps resolve_def\<close>)
qed

text \<open>Automatic placement: the slot is the first open one breadth first below the sponsor.\<close>

lemma matrix_add_node_ok:
  assumes wf: "matrix_wf t" and ok: "check_new_member t user = Ok ()" and s: "hm_get (index (tr_arena t)) s = Some si"
    and room: "length (nodes (tr_arena t)) < 2 ^ 32"
  obtains t' pi pos where "matrix_add_node user s at t = (Ok (next_slot (tr_arena t)), t')"
    "find_map (open_slot (tr_slots t)) (si # downline (tr_arena t) si 0) = Some (pi, pos)"
    "live (tr_arena t) pi" "pos < usize_width t" "slot_row_of t pi ! pos = None"
    "attached (tr_arena t) (tr_arena t') (next_slot (tr_arena t))
       (child_node user pi (Some si) (depth (nd (tr_arena t) pi) + 1) at)
       (occupied ((slot_row_of t pi)[pos := Some (next_slot (tr_arena t))]))"
    "tr_slots t' = row_placed (usize_width t) pi (slot_row_of t pi) pos (next_slot (tr_arena t)) (tr_slots t)"
    "matrix_wf t'" "mt_tank t' = mt_tank t"
proof -
  note W = matrix_wfD [OF wf]
  have new: "user \<noteq> nil_uuid" "hm_get (index (tr_arena t)) user = None" "user \<notin> ht_user_id ` set (mt_tank t)"
    using ok by (auto simp: check_new_member_ok)
  have live: "live (tr_arena t) si" by (rule index_live(1) [OF W(4) s])
  have w: "0 < usize_width t" using W(1) by simp
  obtain pi pos where f: "find_spillover_slot (tr_slots t) si = (Ok (Some (pi, pos)) :: (tree_error, (node_index \<times> nat) option) result)"
    "find_map (open_slot (tr_slots t)) (si # downline (tr_arena t) si 0) = Some (pi, pos)"
    "live (tr_arena t) pi" "pos < usize_width t" "slot_row_of t pi ! pos = None"
    by (rule find_spillover_found [OF W(3) w live])
  have so: "\<forall>s. Some si = Some s \<longrightarrow> live (tr_arena t) s" using live by simp
  obtain t' where t': "place_child (usize_width t) user pi pos (Some si) at t = (Ok (next_slot (tr_arena t)), t')"
    "attached (tr_arena t) (tr_arena t') (next_slot (tr_arena t))
       (child_node user pi (Some si) (depth (nd (tr_arena t) pi) + 1) at)
       (occupied ((slot_row_of t pi)[pos := Some (next_slot (tr_arena t))]))"
    "tr_slots t' = row_placed (usize_width t) pi (slot_row_of t pi) pos (next_slot (tr_arena t)) (tr_slots t)"
    "matrix_wf t'" "mt_tank t' = mt_tank t"
    by (rule matrix_place_child [OF wf new f(3-5) so room])
  show ?thesis
    by (rule that [OF _ f(2-5) t'(2-5)])
      (use ok s f(1) t'(1) in \<open>simp add: matrix_add_node_def outcome_simps resolve_sponsor_def resolve_def\<close>)
qed

lemma check_place_from_tank_eq:
  assumes wf: "matrix_wf t"
  shows "check_place_from_tank t user p pos =
    (if user = nil_uuid then Err NilUserId
     else if usize_width t \<le> unat pos then Err (PositionOutOfRange p (unat pos) (usize_width t))
     else case hm_get (index (tr_arena t)) p of None \<Rightarrow> Err (UserNotFound p)
       | Some pi \<Rightarrow> if slot_row_of t pi ! unat pos \<noteq> None then Err (PositionOccupied p (unat pos))
         else case position (\<lambda>e. ht_user_id e = user) (mt_tank t) of None \<Rightarrow> Err (UserNotInHoldingTank user)
           | Some k \<Rightarrow> (case ht_sponsor_user_id (mt_tank t ! k) of None \<Rightarrow> Ok (pi, k)
             | Some s \<Rightarrow> if in_tank t s then Err (SponsorInHoldingTank user s) else Ok (pi, k)))"
proof (cases "hm_get (index (tr_arena t)) p")
  case (Some pi)
  have row: "hm_get (tr_slots t) pi = Some (slot_row_of t pi)" "length (slot_row_of t pi) = usize_width t"
    using slot_row_live(1,2) [OF matrix_wfD(3) [OF wf] index_live(1) [OF matrix_wfD(4) [OF wf] Some]] by simp_all
  show ?thesis
  proof (cases "position (\<lambda>e. ht_user_id e = user) (mt_tank t)")
    case (Some k)
    then have "k < length (mt_tank t)" by (simp add: position_Some_iff)
    with Some row \<open>hm_get (index (tr_arena t)) p = Some pi\<close> show ?thesis
      by (simp add: check_place_from_tank_def check_user_id_def resolve_def word_le_nat_alt del: list_ex_iff cong: if_cong option.case_cong)
  qed (use Some row in \<open>simp add: check_place_from_tank_def check_user_id_def resolve_def word_le_nat_alt\<close>)
qed (simp add: check_place_from_tank_def check_user_id_def resolve_def word_le_nat_alt)

lemma check_place_from_tank_ok:
  assumes wf: "matrix_wf t"
  shows "check_place_from_tank t user p pos = Ok (pi, k) \<longleftrightarrow>
     user \<noteq> nil_uuid \<and> unat pos < usize_width t \<and> hm_get (index (tr_arena t)) p = Some pi \<and>
     slot_row_of t pi ! unat pos = None \<and> k < length (mt_tank t) \<and> ht_user_id (mt_tank t ! k) = user \<and>
     (\<forall>s. ht_sponsor_user_id (mt_tank t ! k) = Some s \<longrightarrow> \<not> in_tank t s)"
    "decided (check_place_from_tank t user p pos)"
proof -
  have "distinct (map ht_user_id (mt_tank t))" using matrix_wfD(6) [OF wf] by (simp add: tank_wf_def)
  then have pos: "position (\<lambda>e. ht_user_id e = user) (mt_tank t) = Some j \<longleftrightarrow>
      j < length (mt_tank t) \<and> ht_user_id (mt_tank t ! j) = user" for j
    by (auto simp: position_Some_iff distinct_conv_nth)
  show "check_place_from_tank t user p pos = Ok (pi, k) \<longleftrightarrow>
     user \<noteq> nil_uuid \<and> unat pos < usize_width t \<and> hm_get (index (tr_arena t)) p = Some pi \<and>
     slot_row_of t pi ! unat pos = None \<and> k < length (mt_tank t) \<and> ht_user_id (mt_tank t ! k) = user \<and>
     (\<forall>s. ht_sponsor_user_id (mt_tank t ! k) = Some s \<longrightarrow> \<not> in_tank t s)"
    unfolding check_place_from_tank_eq [OF wf] using pos [of k]
    by (cases "position (\<lambda>e. ht_user_id e = user) (mt_tank t)")
      (auto simp del: list_ex_iff split: option.splits if_splits)
  show "decided (check_place_from_tank t user p pos)"
    unfolding check_place_from_tank_eq [OF wf] by (auto split: option.split)
qed

lemma tank_take:
  assumes "k < length tank" "distinct (map ht_user_id tank)"
  shows "set (take k tank @ drop (Suc k) tank) \<subseteq> set tank" "distinct (map ht_user_id (take k tank @ drop (Suc k) tank))"
    "ht_user_id (tank ! k) \<notin> ht_user_id ` set (take k tank @ drop (Suc k) tank)"
proof -
  have split: "tank = take k tank @ tank ! k # drop (Suc k) tank" by (rule id_take_nth_drop [OF assms(1)])
  show "set (take k tank @ drop (Suc k) tank) \<subseteq> set tank" using set_take_subset set_drop_subset by fastforce
  from assms(2) have "distinct (map ht_user_id (take k tank @ tank ! k # drop (Suc k) tank))"
    using split by metis
  then show "distinct (map ht_user_id (take k tank @ drop (Suc k) tank))"
    "ht_user_id (tank ! k) \<notin> ht_user_id ` set (take k tank @ drop (Suc k) tank)" by auto
qed

lemma place_from_tank_ok:
  assumes wf: "matrix_wf t" and ok: "check_place_from_tank t user p pos = Ok (pi, k)"
    and room: "length (nodes (tr_arena t)) < 2 ^ 32"
  obtains t' where "place_from_tank user p pos t = (Ok (), t')"
    "attached (tr_arena t) (tr_arena t') (next_slot (tr_arena t))
       (child_node user pi (case ht_sponsor_user_id (mt_tank t ! k) of None \<Rightarrow> None | Some s \<Rightarrow> hm_get (index (tr_arena t)) s)
         (depth (nd (tr_arena t) pi) + 1) (ht_enrolled_at (mt_tank t ! k)))
       (occupied ((slot_row_of t pi)[unat pos := Some (next_slot (tr_arena t))]))"
    "tr_slots t' = row_placed (usize_width t) pi (slot_row_of t pi) (unat pos) (next_slot (tr_arena t)) (tr_slots t)"
    "matrix_wf t'" "mt_tank t' = take k (mt_tank t) @ drop (Suc k) (mt_tank t)"
proof -
  let ?a = "tr_arena t" and ?e = "mt_tank t ! k"
  let ?so = "case ht_sponsor_user_id ?e of None \<Rightarrow> None | Some s \<Rightarrow> hm_get (index ?a) s"
  let ?t1 = "t\<lparr>mt_tank := take k (mt_tank t) @ drop (Suc k) (mt_tank t)\<rparr>"
  note W = matrix_wfD [OF wf]
  note C = ok [unfolded check_place_from_tank_ok(1) [OF wf]]
  have d: "distinct (map ht_user_id (mt_tank t))" and k: "k < length (mt_tank t)" "ht_user_id ?e = user"
    using W(6) C by (simp_all add: tank_wf_def)
  have pi: "live ?a pi" using index_live(1) [OF W(4)] C by blast
  have "hm_get (index ?a) user = None" using W(6) nth_mem [OF k(1)] k(2) unfolding tank_wf_def by metis
  then have new: "user \<noteq> nil_uuid" "hm_get (index (tr_arena ?t1)) user = None" "user \<notin> ht_user_id ` set (mt_tank ?t1)"
    using C tank_take(3) [OF k(1) d] k(2) by simp_all
  have wf1: "matrix_wf ?t1"
    using wf tank_leave [OF W(6) tank_take(1,2) [OF k(1) d]] by (simp add: matrix_wf_def)
  have row: "slot_row_of ?t1 = slot_row_of t" by (simp add: fun_eq_iff slot_row_of_def)
  have p1: "live (tr_arena ?t1) pi" "unat pos < usize_width ?t1" "slot_row_of ?t1 pi ! unat pos = None"
    using C pi by (simp_all add: row)
  have so: "\<forall>s. ?so = Some s \<longrightarrow> live (tr_arena ?t1) s"
    using index_live(1) [OF W(4)] by (auto split: option.splits)
  have room1: "length (nodes (tr_arena ?t1)) < 2 ^ 32" using room by simp
  obtain t' where t': "place_child (usize_width ?t1) user pi (unat pos) ?so (ht_enrolled_at ?e) ?t1 =
      (Ok (next_slot (tr_arena ?t1)), t')"
    "attached (tr_arena ?t1) (tr_arena t') (next_slot (tr_arena ?t1))
       (child_node user pi ?so (depth (nd (tr_arena ?t1) pi) + 1) (ht_enrolled_at ?e))
       (occupied ((slot_row_of ?t1 pi)[unat pos := Some (next_slot (tr_arena ?t1))]))"
    "tr_slots t' = row_placed (usize_width ?t1) pi (slot_row_of ?t1 pi) (unat pos) (next_slot (tr_arena ?t1)) (tr_slots ?t1)"
    "matrix_wf t'" "mt_tank t' = mt_tank ?t1"
    by (rule matrix_place_child [OF wf1 new p1 so room1])
  have res: "(case ht_sponsor_user_id ?e of None \<Rightarrow> None
      | Some sid \<Rightarrow> (case resolve (tr_arena ?t1) sid of Ok i \<Rightarrow> Some i | _ \<Rightarrow> None)) = ?so"
    by (auto simp: resolve_def ok_or_def split: option.split)
  show ?thesis
  proof (rule that)
    show "place_from_tank user p pos t = (Ok (), t')"
      using ok k(1) t'(1) by (simp add: place_from_tank_def outcome_simps res)
  qed (use t'(2-5) in \<open>simp_all add: row\<close>)
qed

section \<open>Validation\<close>

lemma check_tank_repeats_ok:
  "check_tank_repeats listed es = Ok () \<longleftrightarrow> distinct (map ht_user_id es) \<and> listed \<inter> ht_user_id ` set es = {}"
  "decided (check_tank_repeats listed es)"
  by (induction es arbitrary: listed) auto

lemma tank_positions_get:
  assumes "distinct (map ht_user_id tank)"
  shows "hm_get (tank_positions tank) s = position (\<lambda>e. ht_user_id e = s) tank"
proof -
  have "hm_get (fold (\<lambda>(pos, e). hm_insert (ht_user_id e) pos) (enumerate n tank) m) s =
      (case position (\<lambda>e. ht_user_id e = s) tank of Some j \<Rightarrow> Some (n + j) | None \<Rightarrow> hm_get m s)" for n m
    using assms
  proof (induction tank arbitrary: n m)
    case (Cons e es)
    have "position (\<lambda>e. ht_user_id e = s) es = None" if "ht_user_id e = s"
      using Cons.prems that unfolding position_None_iff by (metis distinct.simps(2) image_eqI list.map(2) set_map)
    with Cons show ?case by (auto split: option.split)
  qed simp
  from this [of 0 "[]"] show ?thesis by (simp add: tank_positions_def split: option.split)
qed

definition tank_next :: "holding_tank_entry list \<Rightarrow> nat \<Rightarrow> nat option" where
  "tank_next tank i = (case ht_sponsor_user_id (tank ! i) of None \<Rightarrow> None
     | Some s \<Rightarrow> position (\<lambda>e. ht_user_id e = s) tank)"

lemma check_tank_chains:
  assumes "distinct (map ht_user_id (mt_tank t))"
  shows "decided (check_tank_sponsor_chains_end t)"
    "check_tank_sponsor_chains_end t = Ok () \<longleftrightarrow> (\<forall>i < length (mt_tank t). ends (tank_next (mt_tank t)) i)"
proof -
  let ?tank = "mt_tank t"
  have "(case ht_sponsor_user_id (?tank ! i) of None \<Rightarrow> None | Some s \<Rightarrow> hm_get (tank_positions ?tank) s) = tank_next ?tank i" for i
    by (simp add: tank_next_def tank_positions_get [OF assms] cong: option.case_cong)
  then have nxt: "\<And>i. i \<in> {..<length ?tank} \<Longrightarrow> bnd (index_at ?tank i) (\<lambda>e. Ok (case ht_sponsor_user_id e of None \<Rightarrow> None
      | Some s \<Rightarrow> hm_get (tank_positions ?tank) s)) = Ok (tank_next ?tank i)" by simp
  have inside: "\<And>i j. i \<in> {..<length ?tank} \<Longrightarrow> tank_next ?tank i = Some j \<Longrightarrow> j \<in> {..<length ?tank}"
    by (auto simp: tank_next_def position_Some_iff split: option.splits)
  have D: "set [0..<length ?tank] \<subseteq> {..<length ?tank}" "{..<length ?tank} \<subseteq> {..<length ?tank}" by auto
  show "decided (check_tank_sponsor_chains_end t)"
    unfolding check_tank_sponsor_chains_end_def Let_def by (rule check_chains_exact(1) [OF D inside nxt])
  have "check_tank_sponsor_chains_end t = Ok () \<longleftrightarrow> (\<forall>i \<in> set [0..<length ?tank]. ends (tank_next ?tank) i)"
    unfolding check_tank_sponsor_chains_end_def Let_def by (rule check_chains_exact(2) [OF D inside nxt])
  then show "check_tank_sponsor_chains_end t = Ok () \<longleftrightarrow> (\<forall>i < length ?tank. ends (tank_next ?tank) i)"
    by (simp add: Ball_def)
qed

text \<open>Chains that end are exactly those a rank runs down.\<close>

lemma ends_rank:
  assumes "\<forall>i \<in> D. ends nx i"
  shows "\<exists>r :: nat \<Rightarrow> nat. \<forall>i \<in> D. \<forall>j. nx i = Some j \<longrightarrow> r j < r i"
proof (intro exI ballI allI impI)
  fix i j assume i: "i \<in> D" and j: "nx i = Some j"
  let ?r = "\<lambda>i. LEAST n. upn nx n i = None"
  obtain n where "upn nx n i = None" using assms i by (auto simp: ends_def)
  then have l: "upn nx (?r i) i = None" by (rule LeastI)
  then obtain m where m: "?r i = Suc m" by (cases "?r i") auto
  with l j have "upn nx m j = None" by simp
  then have "?r j \<le> m" by (rule Least_le)
  with m show "?r j < ?r i" by simp
qed

lemma rank_ends:
  fixes r :: "nat \<Rightarrow> nat"
  assumes "\<And>i j. i \<in> D \<Longrightarrow> nx i = Some j \<Longrightarrow> j \<in> D \<and> r j < r i" "i \<in> D"
  shows "ends nx i"
  using assms(2)
proof (induction "r i" arbitrary: i rule: less_induct)
  case less
  show ?case
  proof (cases "nx i")
    case None
    then show ?thesis unfolding ends_def by (intro exI [of _ 1]) simp
  next
    case (Some j)
    with assms(1) [OF less.prems Some] less.hyps obtain n where "upn nx n j = None" unfolding ends_def by blast
    with Some show ?thesis unfolding ends_def by (intro exI [of _ "Suc n"]) simp
  qed
qed

lemma tank_chains_rank:
  assumes d: "distinct (map ht_user_id tank)"
  shows "(\<forall>i < length tank. ends (tank_next tank) i) \<longleftrightarrow>
     (\<exists>r :: uuid \<Rightarrow> nat. \<forall>e \<in> set tank. \<forall>s. ht_sponsor_user_id e = Some s \<longrightarrow>
        s \<in> ht_user_id ` set tank \<longrightarrow> r s < r (ht_user_id e))"
proof -
  have pos: "position (\<lambda>e. ht_user_id e = s) tank = Some j \<longleftrightarrow> j < length tank \<and> ht_user_id (tank ! j) = s" for s j
    using d by (auto simp: position_Some_iff distinct_conv_nth)
  have nx: "tank_next tank i = Some j \<longleftrightarrow> j < length tank \<and> ht_sponsor_user_id (tank ! i) = Some (ht_user_id (tank ! j))" for i j
    by (auto simp: tank_next_def pos split: option.split)
  show ?thesis
  proof
    assume "\<forall>i < length tank. ends (tank_next tank) i"
    then obtain r :: "nat \<Rightarrow> nat" where r: "\<forall>i < length tank. \<forall>j. tank_next tank i = Some j \<longrightarrow> r j < r i"
      using ends_rank [of "{..<length tank}" "tank_next tank"] by auto
    let ?r = "\<lambda>u. r (the (position (\<lambda>e. ht_user_id e = u) tank))"
    have "?r s < ?r (ht_user_id e)" if e: "e \<in> set tank" "ht_sponsor_user_id e = Some s" "s \<in> ht_user_id ` set tank" for e s
    proof -
      obtain i where i: "i < length tank" "tank ! i = e" using e(1) by (auto simp: in_set_conv_nth)
      obtain j where j: "j < length tank" "ht_user_id (tank ! j) = s" using e(3) by (auto simp: in_set_conv_nth)
      have "position (\<lambda>e'. ht_user_id e' = ht_user_id e) tank = Some i" "position (\<lambda>e. ht_user_id e = s) tank = Some j"
        using i j by (simp_all add: pos)
      moreover have "r j < r i" using r i j e(2) by (simp add: nx)
      ultimately show ?thesis by simp
    qed
    then show "\<exists>r :: uuid \<Rightarrow> nat. \<forall>e \<in> set tank. \<forall>s. ht_sponsor_user_id e = Some s \<longrightarrow>
        s \<in> ht_user_id ` set tank \<longrightarrow> r s < r (ht_user_id e)"
      by (intro exI [of _ ?r] ballI allI impI)
  next
    assume "\<exists>r :: uuid \<Rightarrow> nat. \<forall>e \<in> set tank. \<forall>s. ht_sponsor_user_id e = Some s \<longrightarrow>
        s \<in> ht_user_id ` set tank \<longrightarrow> r s < r (ht_user_id e)"
    then obtain r :: "uuid \<Rightarrow> nat" where r: "\<forall>e \<in> set tank. \<forall>s. ht_sponsor_user_id e = Some s \<longrightarrow>
        s \<in> ht_user_id ` set tank \<longrightarrow> r s < r (ht_user_id e)" by blast
    have "ends (tank_next tank) i" if "i \<in> {..<length tank}" for i
    proof (rule rank_ends [OF _ that])
      fix i j assume "i \<in> {..<length tank}" "tank_next tank i = Some j"
      then show "j \<in> {..<length tank} \<and> r (ht_user_id (tank ! j)) < r (ht_user_id (tank ! i))"
        using r by (simp add: nx)
    qed
    then show "\<forall>i < length tank. ends (tank_next tank) i" by simp
  qed
qed

lemma tank_checks_ok:
  "(for_each (\<lambda>(pos, e). if ht_user_id e = nil_uuid then Err (HoldingTankUserNil pos) else Ok ()) (enumerate n tank) = Ok ()) \<longleftrightarrow>
     (\<forall>e \<in> set tank. ht_user_id e \<noteq> nil_uuid)"
  "(for_each (\<lambda>(pos, e). if ht_sponsor_user_id e = Some nil_uuid then Err (HoldingTankSponsorNil pos) else Ok ())
     (enumerate n tank) = Ok ()) \<longleftrightarrow> (\<forall>e \<in> set tank. ht_sponsor_user_id e \<noteq> Some nil_uuid)"
  "(for_each (\<lambda>e. case hm_get ix (ht_user_id e) of Some idx \<Rightarrow> Err (HoldingTankUserPlaced (ht_user_id e) idx)
     | None \<Rightarrow> Ok ()) tank = Ok ()) \<longleftrightarrow> (\<forall>e \<in> set tank. hm_get ix (ht_user_id e) = None)"
  by (induction tank arbitrary: n) (auto simp del: for_each_Ok split: option.splits)

lemma matrix_slot_fault_None:
  "matrix_slot_fault t (p, row) = None \<longleftrightarrow>
     live (tr_arena t) p \<and> length row = usize_width t \<and> (\<forall>c \<in> set (occupied row). live (tr_arena t) c)"
proof (cases "err_of (check_slot_index (tr_arena t) p)")
  case None
  then have "live (tr_arena t) p" by (simp only: err_check_slot_index)
  then show ?thesis
    unfolding matrix_slot_fault_def prod.case None option.case by (simp add: find_map_None err_check_slot_index)
next
  case (Some e)
  then have "\<not> live (tr_arena t) p" by (metis err_check_slot_index option.distinct(1))
  with Some show ?thesis by (simp add: matrix_slot_fault_def)
qed

lemma matrix_faultless:
  "raise_fault (lowest_fault fst (matrix_slot_fault t) sl) = Ok () \<Longrightarrow>
     \<forall>(p, row) \<in> set sl. live (tr_arena t) p \<and> length row = usize_width t"
  by (auto simp: lowest_fault_None matrix_slot_fault_None)

lemma matrix_validate_decided: "decided (matrix_validate_restored t)"
proof -
  have tank: "decided (for_each (\<lambda>(pos, e). if ht_user_id e = nil_uuid then Err (HoldingTankUserNil pos) else Ok ())
      (enumerate 0 (mt_tank t)))"
    "decided (for_each (\<lambda>(pos, e). if ht_sponsor_user_id e = Some nil_uuid then Err (HoldingTankSponsorNil pos)
      else Ok ()) (enumerate 0 (mt_tank t)))"
    "decided (for_each (\<lambda>e. case hm_get (index (tr_arena t)) (ht_user_id e) of
      Some idx \<Rightarrow> Err (HoldingTankUserPlaced (ht_user_id e) idx) | None \<Rightarrow> Ok ()) (mt_tank t))"
    by (rule decided_for_each; auto split: option.split)+
  have match: "decided (check_children_match_slots (tr_arena t) (tr_slots t))"
    if "raise_fault (lowest_fault fst (matrix_slot_fault t) (tr_slots t)) = Ok x" for x
    by (rule children_match_ok(2)) (use matrix_faultless [of t "tr_slots t"] that in auto)
  have chains: "decided (check_tank_sponsor_chains_end t)" if "check_tank_repeats {} (mt_tank t) = Ok x" for x
    by (rule check_tank_chains(1)) (use check_tank_repeats_ok(1) [of "{}" "mt_tank t"] that in simp)
  show ?thesis
    unfolding matrix_validate_restored_def
    by (auto intro!: decided_bnd validate_restored_decided decided_raise_fault tank check_tank_repeats_ok(2)
        chains decided_has_a_slot decided_slotted_once match simp del: for_each_Ok)
qed

lemma matrix_validate_wf:
  assumes ix: "hm_ok (index (tr_arena t))" and sl: "hm_ok (tr_slots t)"
  shows "matrix_validate_restored t = Ok () \<longleftrightarrow> matrix_wf t"
proof -
  let ?a = "tr_arena t"
  let ?slots = "bnd (check_every_live_node_has_a_slot ?a (tr_slots t)) (\<lambda>_.
    bnd (check_every_live_node_is_slotted_once ?a (tr_slots t)) (\<lambda>_. check_children_match_slots ?a (tr_slots t)))"
  have tank: "tank_wf (mt_tank t) ?a \<longleftrightarrow> distinct (map ht_user_id (mt_tank t)) \<and>
      (\<forall>e \<in> set (mt_tank t). ht_user_id e \<noteq> nil_uuid) \<and> (\<forall>e \<in> set (mt_tank t). ht_sponsor_user_id e \<noteq> Some nil_uuid) \<and>
      (\<forall>e \<in> set (mt_tank t). hm_get (index ?a) (ht_user_id e) = None) \<and> check_tank_sponsor_chains_end t = Ok ()"
    using check_tank_chains(2) [of t] tank_chains_rank [of "mt_tank t"] unfolding tank_wf_def by blast
  have "mt_width t < 2 \<longleftrightarrow> \<not> 2 \<le> mt_width t" "mt_spillover t = DepthFirst \<longleftrightarrow> mt_spillover t \<noteq> BreadthFirst"
    by (auto simp: not_less) (metis spillover_direction.exhaust)
  then have val: "matrix_validate_restored t = Ok () \<longleftrightarrow> 2 \<le> mt_width t \<and> mt_spillover t = BreadthFirst \<and> arena_wf ?a \<and>
      raise_fault (lowest_fault fst (matrix_slot_fault t) (tr_slots t)) = Ok () \<and> tank_wf (mt_tank t) ?a \<and> ?slots = Ok ()"
    unfolding matrix_validate_restored_def tank
    by (auto simp: validate_restored_wf [OF ix] tank_checks_ok check_tank_repeats_ok(1) simp del: for_each_Ok raise_fault_Ok)
  show ?thesis
  proof
    assume "matrix_validate_restored t = Ok ()"
    with val have *: "2 \<le> mt_width t" "mt_spillover t = BreadthFirst" "arena_wf ?a"
      "raise_fault (lowest_fault fst (matrix_slot_fault t) (tr_slots t)) = Ok ()" "tank_wf (mt_tank t) ?a" "?slots = Ok ()"
      by blast+
    have "slots_wf (usize_width t) ?a (tr_slots t)"
      using slot_checks_ok [OF *(3) sl matrix_faultless [OF *(4)]] *(6) by blast
    with * show "matrix_wf t" by (simp add: matrix_wf_def)
  next
    assume wf: "matrix_wf t"
    note W = matrix_wfD [OF wf]
    have row: "live ?a p \<and> length row = usize_width t \<and> occupied row = kds ?a p"
      if "(p, row) \<in> set (tr_slots t)" for p row
      using that hm_in_get [OF sl] W(5) unfolding slots_wf_def by blast
    then have "\<forall>(p, row) \<in> set (tr_slots t). live ?a p \<and> length row = usize_width t" by blast
    from slot_checks_ok [OF W(4) sl this] W(5) have "?slots = Ok ()" by blast
    moreover have "live ?a c" if "(p, row) \<in> set (tr_slots t)" "c \<in> set (occupied row)" for p row c
      using row [OF that(1)] kds_live [OF W(4), of p c] that(2) by simp
    then have "raise_fault (lowest_fault fst (matrix_slot_fault t) (tr_slots t)) = Ok ()"
      using row by (auto simp: lowest_fault_None matrix_slot_fault_None)
    ultimately show "matrix_validate_restored t = Ok ()" using wf val by (simp only: matrix_wf_def)
  qed
qed

end
