(* ===== verification/Matrix_Tank.thy ===== *)
theory Matrix_Tank
  imports Matrix_Wf
begin

text \<open>
  Removal into the holding tank: the whole subtree of the removed member leaves the arena, its
  recruits outside move to the nearest surviving sponsor, and the members of the subtree queue up
  in the tank with their sponsors. The operation keeps the invariant.
\<close>

section \<open>The subtree\<close>

lemma descendants_eq:
  assumes "arena_wf a" "live a i"
  shows "descendants a i = Ok (downline a i 0)"
proof -
  have "limited a i 0 = kds a" by (simp add: limited_def fun_eq_iff)
  with fifo_limited [OF assms, of 0] have "fifo (kds a) (kds a i) (downline a i 0)" by simp
  then have "run_loop (descendants_body a) (kds a i, []) = Ok (id (fold (\<lambda>j acc. acc @ [j]) (downline a i 0) []))"
    by (rule fifo_loop) (simp_all add: descendants_body_def downline_live [OF assms])
  with assms(2) show ?thesis by (simp add: descendants_def fold_append_map [of "\<lambda>j. j", simplified])
qed

abbreviation subtree :: "arena \<Rightarrow> node_index \<Rightarrow> node_index list" where
  "subtree a i \<equiv> i # downline a i 0"

lemma subtree_iff:
  assumes "arena_wf a" "live a i"
  shows "j \<in> set (subtree a i) \<longleftrightarrow> live a j \<and> (\<exists>k. upn (par a) k j = Some i)"
proof -
  have "\<exists>k \<in> {1..length (nodes a)}. upn (par a) k j = Some i" if "live a j" "upn (par a) k j = Some i" "j \<noteq> i" for k
  proof -
    have "k < card (live_set a)" by (rule placement.upn_bound [OF assms(1) _ that(2)]) (use that in simp)
    moreover have "k \<noteq> 0" using that by (cases k) auto
    ultimately show ?thesis using card_live [of a] that(2) by (intro bexI [of _ k]) auto
  qed
  moreover have "\<exists>k. upn (par a) k i = Some i" by (rule exI [of _ 0]) simp
  ultimately show ?thesis
    using placement.in_level_order [OF assms(1), of i j "length (nodes a)"] assms(2)
    by (auto simp: downline_def)
qed

lemma subtree_distinct: "arena_wf a \<Longrightarrow> live a i \<Longrightarrow> distinct (subtree a i)"
  using placement.distinct_level_order [of a i] placement.not_in_own_level_order [of a i] by (simp add: downline_def)

text \<open>A node other than the top is in the subtree exactly when its parent is.\<close>

lemma subtree_parent:
  assumes wf: "arena_wf a" and i: "live a i" and j: "live a j" "j \<noteq> i" "par a j = Some p"
  shows "j \<in> set (subtree a i) \<longleftrightarrow> p \<in> set (subtree a i)"
proof -
  have "upn (par a) (Suc k) j = upn (par a) k p" for k using j(3) by simp
  moreover have "upn (par a) 0 j \<noteq> Some i" using j(2) by simp
  ultimately have "(\<exists>k. upn (par a) k j = Some i) \<longleftrightarrow> (\<exists>k. upn (par a) k p = Some i)"
    by (metis not0_implies_Suc)
  then show ?thesis unfolding subtree_iff [OF wf i] using j(1) par_live [OF wf j(1,3)] by blast
qed

lemma subtree_top:
  assumes wf: "arena_wf a" and i: "live a i" "par a i = Some p"
  shows "p \<notin> set (subtree a i)"
proof
  assume "p \<in> set (subtree a i)"
  then obtain k where "upn (par a) k p = Some i" using subtree_iff [OF wf i(1)] by blast
  then have "upn (par a) (Suc k) i = Some i" using i(2) by simp
  from placement.upn_inj [OF wf _ this, of 0] i(1) show False by simp
qed

lemma subtree_children:
  assumes wf: "arena_wf a" and i: "live a i" and j: "live a j" "k \<in> set (kds a j)"
  shows "k \<in> set (subtree a i) \<longleftrightarrow> j \<in> set (subtree a i) \<or> (k = i)"
proof -
  have k: "live a k" "par a k = Some j" using arena_wfD(2) [OF wf] j by (auto simp: links_wf_def)
  show ?thesis
  proof (cases "k = i")
    case False
    with subtree_parent [OF wf i k(1) False k(2)] show ?thesis by blast
  qed simp
qed

section \<open>Sweeping nodes out of the arena\<close>

text \<open>
  \<open>swept R b P Q b'\<close>: from \<open>b\<close>, the nodes \<open>P\<close> have been freed and the nodes \<open>Q\<close> struck from the
  recruits of the sponsors outside \<open>R\<close>.
\<close>

definition swept :: "node_index set \<Rightarrow> arena \<Rightarrow> node_index list \<Rightarrow> node_index list \<Rightarrow> arena \<Rightarrow> bool" where
  "swept R b P Q b' \<longleftrightarrow> length (nodes b') = length (nodes b) \<and> root b' = root b \<and>
     free_list b' = free_list b @ P \<and> hm_ok (index b') \<and>
     (\<forall>v. hm_get (index b') v = (if \<exists>p \<in> set P. uid b p = v then None else hm_get (index b) v)) \<and>
     (\<forall>j. nd b' j = (if j \<in> set P then cleared_node else if j \<in> R then nd b j
        else (nd b j)\<lparr>sponsored := filter (\<lambda>s. s \<notin> set Q) (spd b j)\<rparr>))"

definition sweepable :: "node_index set \<Rightarrow> arena \<Rightarrow> bool" where
  "sweepable R b \<longleftrightarrow> (\<forall>d \<in> R. live b d \<and> d \<notin> set (free_list b) \<and>
     (\<forall>s. spn b d = Some s \<longrightarrow> s \<notin> R \<longrightarrow> live b s) \<and> (\<forall>j. j \<notin> R \<longrightarrow> d \<in> set (spd b j) \<longrightarrow> spn b d = Some j))"

lemma sweptD:
  assumes "swept R b P Q b'"
  shows "length (nodes b') = length (nodes b)" "root b' = root b" "free_list b' = free_list b @ P" "hm_ok (index b')"
    "\<And>v. hm_get (index b') v = (if \<exists>p \<in> set P. uid b p = v then None else hm_get (index b) v)"
    "\<And>j. nd b' j = (if j \<in> set P then cleared_node else if j \<in> R then nd b j
        else (nd b j)\<lparr>sponsored := filter (\<lambda>s. s \<notin> set Q) (spd b j)\<rparr>)"
  using assms by (simp_all add: swept_def)

lemma sweep_leave:
  assumes sw: "swept R b P Q b'" and ok: "sweepable R b" and d: "d \<in> R" and P: "set P \<subseteq> R"
    and R: "set removed = R"
  obtains b1 where "leave_outside_sponsor removed (spn b d) d b' = (Ok (), b1)" "swept R b P (Q @ [d]) b1"
proof -
  note S = sweptD [OF sw]
  have listed: "spn b d = Some j" if "j \<notin> R" "d \<in> set (spd b j)" for j
    using ok d that by (auto simp: sweepable_def)
  have skip: "filter (\<lambda>s. s \<notin> set (Q @ [d])) (spd b j) = filter (\<lambda>s. s \<notin> set Q) (spd b j)"
    if "j \<notin> R" "spn b d \<noteq> Some j" for j
    using listed [OF that(1)] that(2) by (intro filter_cong refl) auto
  show ?thesis
  proof (cases "\<exists>s. spn b d = Some s \<and> s \<notin> R")
    case True
    then obtain s where s: "spn b d = Some s" "s \<notin> R" by blast
    let ?f = "\<lambda>m. m\<lparr>sponsored := filter (\<lambda>c. c \<noteq> d) (sponsored m)\<rparr>"
    have "live b s" using ok d s by (auto simp: sweepable_def)
    then have live: "live b' s" using S(6) [of s] s(2) P by (auto simp: live_def)
    have nd1: "nd (upd_node s ?f b') j = (if j = s then ?f (nd b' s) else nd b' j)" for j
      using live_bound [OF live] by simp
    show ?thesis
    proof (rule that)
      show "leave_outside_sponsor removed (spn b d) d b' = (Ok (), upd_node s ?f b')"
        using s live R by (simp add: leave_outside_sponsor_def arena_node_mut_upd)
      have "filter (\<lambda>c. c \<noteq> d) (filter (\<lambda>x. x \<notin> set Q) (spd b s)) = filter (\<lambda>x. x \<notin> set (Q @ [d])) (spd b s)"
        by (auto intro: filter_cong)
      then have "nd (upd_node s ?f b') j = (if j \<in> set P then cleared_node else if j \<in> R then nd b j
          else (nd b j)\<lparr>sponsored := filter (\<lambda>s. s \<notin> set (Q @ [d])) (spd b j)\<rparr>)" for j
        unfolding nd1 using S(6) [of j] S(6) [of s] s P skip [of j] by (cases "j = s") auto
      then show "swept R b P (Q @ [d]) (upd_node s ?f b')" using S(1-5) unfolding swept_def by simp
    qed
  next
    case False
    then have "leave_outside_sponsor removed (spn b d) d b' = (Ok (), b')"
      using R by (auto simp: leave_outside_sponsor_def sret_apply split: option.split)
    moreover have "nd b' j = (if j \<in> set P then cleared_node else if j \<in> R then nd b j
        else (nd b j)\<lparr>sponsored := filter (\<lambda>s. s \<notin> set (Q @ [d])) (spd b j)\<rparr>)" for j
    proof (cases "j \<in> R")
      case out: False
      then have "spn b d \<noteq> Some j" using False by blast
      from skip [OF out this] show ?thesis by (simp only: S(6))
    qed (simp add: S(6))
    then have "swept R b P (Q @ [d]) b'" using S(1-5) unfolding swept_def by simp
    ultimately show ?thesis by (rule that)
  qed
qed

lemma sweep_bury:
  assumes sw: "swept R b P Q b'" and ok: "sweepable R b" and d: "d \<in> R" "d \<notin> set P"
  obtains b1 where "tombstone d (b'\<lparr>index := hm_remove (uid b d) (index b')\<rparr>) = (Ok () :: ('e, unit) result, b1)"
    "swept R b (P @ [d]) Q b1" "arena_node b' d = (Ok (nd b d) :: ('f, node) result)"
proof -
  note S = sweptD [OF sw]
  have db: "live b d" "d \<notin> set (free_list b)" using ok d by (auto simp: sweepable_def)
  have live: "live b' d" using db S(6) [of d] d by (simp add: live_def)
  let ?b1 = "b'\<lparr>index := hm_remove (uid b d) (index b'), nodes := (nodes b')[d := cleared_node],
     free_list := free_list b' @ [d]\<rparr>"
  have nd1: "nd ?b1 j = (if j = d then cleared_node else nd b' j)" for j
    using live_bound [OF live] by (simp add: nd_def)
  show ?thesis
  proof (rule that)
    show "tombstone d (b'\<lparr>index := hm_remove (uid b d) (index b')\<rparr>) = (Ok (), ?b1)"
      using db S(3) d live_bound [OF live] by (simp add: tombstone_def)
    show "swept R b (P @ [d]) Q ?b1"
      unfolding swept_def nd1 using S d by (auto simp: hm_ok_remove)
    show "arena_node b' d = Ok (nd b d)" using live S(6) [of d] d by simp
  qed
qed

text \<open>The clean-up loop over the descendants.\<close>

lemma sweep_step:
  assumes sw: "swept R b P P (tr_arena t)" and ok: "sweepable R b" and d: "d \<in> R" "d \<notin> set P" and P: "set P \<subseteq> R"
    and R: "set removed = R"
  obtains b1 where "clear_descendant removed d t = (Ok (), t\<lparr>tr_arena := b1, tr_slots := hm_remove d (tr_slots t)\<rparr>)"
    "swept R b (P @ [d]) (P @ [d]) b1"
proof -
  obtain b1 where b1: "leave_outside_sponsor removed (spn b d) d (tr_arena t) = (Ok () :: (tree_error, unit) result, b1)"
    "swept R b P (P @ [d]) b1" by (rule sweep_leave [OF sw ok d(1) P R])
  obtain b2 where b2: "tombstone d (b1\<lparr>index := hm_remove (uid b d) (index b1)\<rparr>) = (Ok () :: (tree_error, unit) result, b2)"
    "swept R b (P @ [d]) (P @ [d]) b2" "arena_node b1 d = (Ok (nd b d) :: (tree_error, node) result)"
    by (rule sweep_bury [OF b1(2) ok d])
  obtain b3 where "arena_node (tr_arena t) d = (Ok (nd b d) :: (tree_error, node) result)"
    by (rule sweep_bury [OF sw ok d])
  then have "clear_descendant removed d t = (Ok (), t\<lparr>tr_arena := b2, tr_slots := hm_remove d (tr_slots t)\<rparr>)"
    using b1(1) b2(1,3) by (simp add: clear_descendant_def outcome_simps)
  then show ?thesis using b2(2) by (rule that)
qed

lemma sweep_loop:
  assumes "swept R b P P (tr_arena t)" "sweepable R b" "distinct (P @ ds)" "set (P @ ds) \<subseteq> R" "set removed = R"
  shows "\<exists>b1. sfor (clear_descendant removed) ds t = (Ok (), t\<lparr>tr_arena := b1, tr_slots := fold hm_remove ds (tr_slots t)\<rparr>) \<and>
    swept R b (P @ ds) (P @ ds) b1"
  using assms
proof (induction ds arbitrary: P t)
  case Nil
  then show ?case by (auto simp: sret_apply intro: exI [of _ "tr_arena t"])
next
  case (Cons d ds)
  obtain b1 where b1: "clear_descendant removed d t = (Ok (), t\<lparr>tr_arena := b1, tr_slots := hm_remove d (tr_slots t)\<rparr>)"
    "swept R b (P @ [d]) (P @ [d]) b1"
    using Cons.prems by (auto intro: sweep_step [of R b P t d removed])
  let ?t = "t\<lparr>tr_arena := b1, tr_slots := hm_remove d (tr_slots t)\<rparr>"
  obtain b2 where "sfor (clear_descendant removed) ds ?t =
      (Ok (), ?t\<lparr>tr_arena := b2, tr_slots := fold hm_remove ds (tr_slots ?t)\<rparr>)"
    "swept R b ((P @ [d]) @ ds) ((P @ [d]) @ ds) b2"
    using Cons.IH [of "P @ [d]" ?t] Cons.prems b1(2) by auto
  with b1(1) show ?case by (auto simp: sbind_def)
qed

text \<open>The base of a sweep may get new children outside the swept nodes.\<close>

lemma sweep_children:
  assumes sw: "swept R b P Q b'" and p: "p \<notin> R" "p < length (nodes b)" and P: "set P \<subseteq> R"
  shows "swept R (upd_node p (\<lambda>n. n\<lparr>children := cs\<rparr>) b) P Q (upd_node p (\<lambda>n. n\<lparr>children := cs\<rparr>) b')"
  using sweptD [OF sw] p P unfolding swept_def by auto

lemma sweepable_children:
  assumes "sweepable R b" "p < length (nodes b)"
  shows "sweepable R (upd_node p (\<lambda>n. n\<lparr>children := cs\<rparr>) b)"
  using assms by (auto simp: sweepable_def)

lemma hm_get_removes: "hm_get (fold hm_remove ks m) k = (if k \<in> set ks then None else hm_get m k)"
  by (induction ks arbitrary: m) auto

lemma hm_ok_removes: "hm_ok m \<Longrightarrow> hm_ok (fold hm_remove ks m)"
  by (induction ks arbitrary: m) auto

section \<open>The subtree leaves\<close>

text \<open>The arena after the hand-over of the recruits of the nodes \<open>R\<close>.\<close>

definition handed :: "arena \<Rightarrow> node_index list \<Rightarrow> arena \<Rightarrow> bool" where
  "handed a R b \<longleftrightarrow> length (nodes b) = length (nodes a) \<and> index b = index a \<and> free_list b = free_list a \<and>
     root b = root a \<and> (\<forall>j. nd b j = (nd a j)
       \<lparr>sponsor := if j \<in> set R \<or> \<not> live a j then spn a j else heir a (set R) j,
        sponsored := if j \<in> set R then [] else spd a j @ bequests a R j\<rparr>)"

lemma handedD:
  assumes "handed a R b"
  shows "length (nodes b) = length (nodes a)" "index b = index a" "free_list b = free_list a" "root b = root a"
    "\<And>j. nd b j = (nd a j)\<lparr>sponsor := if j \<in> set R \<or> \<not> live a j then spn a j else heir a (set R) j,
        sponsored := if j \<in> set R then [] else spd a j @ bequests a R j\<rparr>"
  using assms by (simp_all add: handed_def)

lemma bequests_outside: "k \<in> set (bequests a R j) \<Longrightarrow> k \<notin> set R"
  by (auto simp: bequests_def survivors_def split: if_splits)

lemma handed_sweepable:
  assumes wf: "arena_wf a" and R: "\<forall>i \<in> set R. live a i" and b: "handed a R b"
  shows "sweepable (set R) b"
proof -
  note H = handedD [OF b]
  have "live b d" "d \<notin> set (free_list b)" if "d \<in> set R" for d
    using that R H(3) H(5) [of d] arena_wfD(6) [OF wf] by (auto simp: live_def free_wf_def)
  moreover have "live b s" if "d \<in> set R" "spn b d = Some s" for d s
    using spn_live [OF wf, of d s] that R H(5) [of d] H(5) [of s] by (simp add: live_def)
  moreover have "spn b d = Some j" if "d \<in> set R" "j \<notin> set R" "d \<in> set (spd b j)" for d j
  proof -
    have "d \<in> set (spd a j)" using that H(5) [of j] bequests_outside [of d a R j] by auto
    moreover from this have "live a j" using arena_wfD(5) [OF wf] by (auto simp: tombs_wf_def)
    ultimately show ?thesis using set_spd_iff [OF wf, of j d] H(5) [of d] that(1) by simp
  qed
  ultimately show ?thesis unfolding sweepable_def by blast
qed

lemma swept_unsponsored:
  assumes wf: "arena_wf a" and R: "distinct R" "\<forall>i \<in> set R. live a i" "removable a (set R)" and b: "handed a R b"
    and p: "live a p" "p \<notin> set R" and P: "distinct P" "set P = set R"
    and sw: "swept (set R) (upd_node p (\<lambda>n. n\<lparr>children := cs\<rparr>) b) P P a'"
  shows "unsponsored a a' R"
    "j \<notin> set R \<Longrightarrow> par a' j = par a j \<and> depth (nd a' j) = depth (nd a j) \<and> enrolled_at (nd a' j) = enrolled_at (nd a j) \<and>
       kds a' j = (if j = p then cs else kds a j)"
    "root a' = root a"
proof -
  note H = handedD [OF b] and S = sweptD [OF sw]
  have pb: "p < length (nodes b)" using live_bound [OF p(1)] H(1) by simp
  have out: "nd a' j = (nd a j)\<lparr>children := if j = p then cs else kds a j,
      sponsor := if \<not> live a j then spn a j else heir a (set R) j, sponsored := inherited a R j\<rparr>" if "j \<notin> set R" for j
  proof -
    have "filter (\<lambda>s. s \<notin> set R) (spd a k @ bequests a R k) = inherited a R k" for k
      using bequests_outside by (auto simp: inherited_def intro: filter_True)
    with that p P(2) pb show ?thesis by (simp add: S(6) H(5) del: filter_append)
  qed
  have tomb: "nd a' j = nd a j" if "j \<notin> set R" "\<not> live a j" for j
  proof -
    have "bequests a R j = []"
      using that(2) heir_Some(1) [OF wf, of _ "set R" j] R(2) by (auto simp: bequests_def)
    moreover have "j \<noteq> p" using that(2) p(1) by blast
    ultimately show ?thesis using out [OF that(1)] that(2) arena_wfD(5) [OF wf] by (simp add: inherited_def tombs_wf_def)
  qed
  have uid: "uid (upd_node p (\<lambda>n. n\<lparr>children := cs\<rparr>) b) k = uid a k" for k using pb by (simp add: H(5))
  have fl: "distinct (free_list a)" "set (free_list a) \<inter> set R = {}"
    using arena_wfD(6) [OF wf] R(2) by (auto simp: free_wf_def)
  have gone: "nd a' j = cleared_node" if "j \<in> set R" for j using that P(2) by (simp add: S(6))
  show "unsponsored a a' R"
    unfolding unsponsored_def
    using R S(1-5) fl P tomb H(1-3) by (auto simp: out uid gone)
  show "j \<notin> set R \<Longrightarrow> par a' j = par a j \<and> depth (nd a' j) = depth (nd a j) \<and> enrolled_at (nd a' j) = enrolled_at (nd a j) \<and>
       kds a' j = (if j = p then cs else kds a j)" by (simp add: out)
  show "root a' = root a" using S(2) H(4) by simp
qed

lemma subtree_detached:
  assumes wf: "arena_wf a" and i: "live a i" "par a i = Some p" and rem: "removable a (set (subtree a i))"
    and b: "handed a (subtree a i) b" and P: "distinct P" "set P = set (subtree a i)"
    and sw: "swept (set (subtree a i)) (upd_node p (\<lambda>n. n\<lparr>children := filter (\<lambda>c. c \<noteq> i) (kds a p)\<rparr>) b) P P a'"
  shows "detached a a' (subtree a i)"
proof -
  let ?R = "subtree a i"
  have R: "distinct ?R" "\<forall>j \<in> set ?R. live a j" using subtree_distinct [OF wf i(1)] subtree_iff [OF wf i(1)] by auto
  note p = par_live [OF wf i] subtree_top [OF wf i]
  note U = swept_unsponsored [OF wf R rem b p P sw]
  have below: "k \<in> set ?R" if "j \<in> set ?R" "k \<in> set (kds a j)" for j k
    using subtree_children [OF wf i(1) _ that(2)] R(2) that(1) by blast
  have keep: "filter (\<lambda>k. k \<notin> set ?R) (kds a j) = (if j = p then filter (\<lambda>c. c \<noteq> i) (kds a p) else kds a j)"
    if "j \<notin> set ?R" for j
  proof (cases "live a j")
    case True
    have "k \<notin> set ?R \<longleftrightarrow> k \<noteq> i" if "k \<in> set (kds a j)" for k
      using subtree_children [OF wf i(1) True that] \<open>j \<notin> set ?R\<close> by blast
    then have eq: "filter (\<lambda>k. k \<notin> set ?R) (kds a j) = filter (\<lambda>c. c \<noteq> i) (kds a j)" by (intro filter_cong refl)
    have "i \<notin> set (kds a j)" if "j \<noteq> p" using placement.down_up [OF wf, of j i] True i that by auto
    then show ?thesis using eq by (auto intro: filter_True)
  qed (use p(1) arena_wfD(5) [OF wf] in \<open>auto simp: tombs_wf_def\<close>)
  have "root a \<noteq> Some j" if e: "j \<in> set ?R" for j
  proof
    assume r: "root a = Some j"
    then have "par a j = None" using arena_wfD(7) [OF wf] by (auto simp: root_wf_def)
    moreover obtain k where "upn (par a) k j = Some i" using e subtree_iff [OF wf i(1), of j] by blast
    ultimately show False using i(2) by (cases k) auto
  qed
  then show ?thesis unfolding detached_def using U below keep by (auto split: option.split)
qed

text \<open>The rows: the parent's loses the node, the others outside the subtree stay.\<close>

lemma clear_position:
  assumes "position (\<lambda>s. s = Some i) row = Some pos" "distinct (occupied row)"
  shows "row[pos := None] = clear_slot i row" "pos < length row" "row ! pos = Some i"
proof -
  show pos: "pos < length row" "row ! pos = Some i" using assms(1) by (simp_all add: position_Some_iff)
  have split: "row = take pos row @ Some i # drop (Suc pos) row" using pos by (metis id_take_nth_drop)
  have "distinct (occupied (take pos row) @ i # occupied (drop (Suc pos) row))"
    using assms(2) by (subst (asm) split) simp
  then have "Some i \<notin> set (take pos row)" "Some i \<notin> set (drop (Suc pos) row)"
    by (auto simp: occupied_set)
  then have "clear_slot i (take pos row) = take pos row" "clear_slot i (drop (Suc pos) row) = drop (Suc pos) row"
    by (auto intro: map_idI)
  moreover have "row[pos := None] = take pos row @ None # drop (Suc pos) row" using pos by (simp add: upd_conv_take_nth_drop)
  moreover have "clear_slot i row = clear_slot i (take pos row) @ None # clear_slot i (drop (Suc pos) row)"
    by (subst split) simp
  ultimately show "row[pos := None] = clear_slot i row" by simp
qed

lemma subtree_rows:
  assumes wf: "slotted_wf w t" and i: "live (tr_arena t) i" "par (tr_arena t) i = Some p"
    and de: "detached (tr_arena t) a' (subtree (tr_arena t) i)"
    and sl: "sl' = hm_remove i (hm_insert p (clear_slot i (slot_row_of t p)) (fold hm_remove (downline (tr_arena t) i 0) (tr_slots t)))"
  shows "slots_wf w a' sl'" "j \<notin> set (subtree (tr_arena t) i) \<Longrightarrow> hm_get sl' j = map_option (clear_slot i) (hm_get (tr_slots t) j)"
proof -
  let ?a = "tr_arena t" and ?R = "subtree (tr_arena t) i"
  have aw: "arena_wf ?a" and sw: "slots_wf w ?a (tr_slots t)" using wf by simp_all
  note p = par_live [OF aw i] subtree_top [OF aw i]
  have stay: "clear_slot i row = row" if "hm_get (tr_slots t) j = Some row" "j \<noteq> p" for j row
  proof (rule map_idI)
    have j: "live ?a j" "occupied row = kds ?a j" using sw that(1) unfolding slots_wf_def by blast+
    then have "i \<notin> set (occupied row)" using placement.down_up [OF aw, of j i] i that(2) by auto
    then have "Some i \<notin> set row" by (simp add: occupied_set)
    then show "(if s = Some i then None else s) = s" if "s \<in> set row" for s using that by auto
  qed
  have get: "hm_get sl' j = (if j \<in> set ?R then None else map_option (clear_slot i) (hm_get (tr_slots t) j))" for j
    using p slot_row_live(1) [OF wf p(1)] stay [of j] unfolding sl
    by (cases "hm_get (tr_slots t) j") (auto simp: hm_get_removes)
  then show "j \<notin> set ?R \<Longrightarrow> hm_get sl' j = map_option (clear_slot i) (hm_get (tr_slots t) j)" by simp
  have "map (\<lambda>s. if \<exists>k \<in> set ?R. s = Some k then None else s) row = clear_slot i row"
    if "hm_get (tr_slots t) j = Some row" "j \<notin> set ?R" for j row
  proof (rule map_cong [OF refl])
    fix s assume s: "s \<in> set row"
    have j: "live ?a j" "occupied row = kds ?a j" using sw that(1) unfolding slots_wf_def by blast+
    have "k \<in> set ?R \<longleftrightarrow> k = i" if "s = Some k" for k
      using subtree_children [OF aw i(1) j(1), of k] s that j(2) occupied_set [of k row] \<open>j \<notin> set ?R\<close> by auto
    then show "(if \<exists>k \<in> set ?R. s = Some k then None else s) = (if s = Some i then None else s)" by auto
  qed
  then have "hm_get sl' j = (if j \<in> set ?R then None
      else map_option (map (\<lambda>s. if \<exists>i \<in> set ?R. s = Some i then None else s)) (hm_get (tr_slots t) j))" for j
    unfolding get by (cases "hm_get (tr_slots t) j") auto
  moreover have "hm_ok sl'" using sw unfolding sl by (simp add: slots_wf_def hm_ok_removes)
  ultimately show "slots_wf w a' sl'" by (intro slots_detached [OF sw de])
qed

section \<open>The batch for the tank\<close>

definition tank_record :: "arena \<Rightarrow> node_index \<Rightarrow> holding_tank_entry" where
  "tank_record a i = \<lparr>ht_user_id = uid a i, ht_sponsor_user_id = map_option (uid a) (spn a i),
     ht_enrolled_at = enrolled_at (nd a i)\<rparr>"

lemma tank_record_user [simp]:
  "ht_user_id (tank_record a i) = uid a i" "(tank_record a i)\<lparr>ht_user_id := uid a i\<rparr> = tank_record a i"
  by (simp_all add: tank_record_def)

lemma tank_entry_handed:
  assumes wf: "arena_wf a" and b: "handed a R b" and i: "i \<in> set R" "live a i"
  shows "tank_entry b i = (Ok (i, tank_record a i) :: ('e, node_index \<times> holding_tank_entry) result)"
proof -
  note H = handedD [OF b]
  have "live b i" using i(2) H(5) [of i] by (simp add: live_def)
  moreover have "live b s" if "spn a i = Some s" for s
    using spn_live [OF wf i(2) that] H(5) [of s] by (simp add: live_def)
  ultimately show ?thesis using i(1) H(5) [of i] H(5)
    by (auto simp: tank_entry_def tank_record_def split: option.split)
qed

lemma tank_entries_handed:
  assumes wf: "arena_wf a" and b: "handed a R b" and js: "\<forall>j \<in> set js. j \<in> set R \<and> live a j"
  shows "map_res (tank_entry b) js = (Ok (map (\<lambda>j. (j, tank_record a j)) js) :: ('e, (node_index \<times> holding_tank_entry) list) result)"
  using js by (induction js) (simp_all add: tank_entry_handed [OF wf b])

text \<open>
  The batch may follow whatever is in the tank: the old entries are put above the batch, since an
  old entry may name a new one as its sponsor but not the other way round.
\<close>

lemma tank_batch:
  assumes wf: "arena_wf a" and tank: "tank_wf tank a" and un: "unsponsored a a' R" and js: "distinct js" "set js = set R"
  shows "tank_wf (tank @ map (tank_record a) js) a'"
proof -
  note U = unsponsoredD [OF un]
  have live: "live a j" if "j \<in> set js" for j using U(2) js(2) that by blast
  have new: "hm_get (index a) (uid a j) = Some j" "uid a j \<noteq> nil_uuid" if "live a j" for j
    using live_indexed [OF wf that] that by (auto simp: live_def)
  have old: "hm_get (index a) (ht_user_id e) = None" if "e \<in> set tank" for e
    using tank that by (auto simp: tank_wf_def)
  have names: "ht_user_id ` set (map (tank_record a) js) = uid a ` set js"
    by (simp add: tank_record_def image_image)
  have apart: "uid a j \<notin> ht_user_id ` set tank" if "live a j" for j using new(1) [OF that] old by fastforce
  have "inj_on (uid a) (set js)" by (rule inj_onI) (simp add: uid_eq_iff [OF wf live])
  then have "distinct (map (uid a) js)" using js(1) by (simp add: distinct_map)
  moreover have "map ht_user_id (map (tank_record a) js) = map (uid a) js" by (simp add: tank_record_def)
  moreover have "ht_user_id ` set tank \<inter> uid a ` set js = {}"
  proof (rule equals0I, elim IntE imageE)
    fix u e j assume "u = ht_user_id e" "e \<in> set tank" "u = uid a j" "j \<in> set js"
    then show False using apart [OF live, of j] by (metis imageI)
  qed
  moreover have "distinct (map ht_user_id tank)" using tank by (simp add: tank_wf_def)
  ultimately have dist: "distinct (map ht_user_id (tank @ map (tank_record a) js))"
    unfolding map_append distinct_append by (simp only: set_map)
  obtain r :: "uuid \<Rightarrow> nat" where r: "\<forall>e \<in> set tank. \<forall>s. ht_sponsor_user_id e = Some s \<longrightarrow>
      s \<in> ht_user_id ` set tank \<longrightarrow> r s < r (ht_user_id e)" using tank by (auto simp: tank_wf_def)
  define top where "top = Suc (Max (spn_rank a ` set js \<union> {0}))"
  have top: "spn_rank a j < top" if "j \<in> set js" for j
    using that by (simp add: top_def less_Suc_eq_le)
  define q where "q u = (case hm_get (index a) u of Some j \<Rightarrow> spn_rank a j | None \<Rightarrow> top + r u)" for u
  have "q s < q (ht_user_id e)"
    if e: "e \<in> set (tank @ map (tank_record a) js)" and s: "ht_sponsor_user_id e = Some s"
      "s \<in> ht_user_id ` set (tank @ map (tank_record a) js)" for e s
  proof (cases "e \<in> set tank")
    case True
    note qe = old [OF True]
    show ?thesis
    proof (cases "s \<in> ht_user_id ` set tank")
      case in_tank: True
      then have "hm_get (index a) s = None" using old by auto
      with qe in_tank r True s(1) show ?thesis by (simp add: q_def)
    next
      case False
      then obtain j where "j \<in> set js" "s = uid a j" using s(2) by (auto simp: tank_record_def)
      with qe new(1) [OF live] top show ?thesis by (simp add: q_def trans_less_add1)
    qed
  next
    case False
    then obtain j where j: "j \<in> set js" "e = tank_record a j" using e by auto
    then obtain k where k: "spn a j = Some k" "s = uid a k" using s(1) by (auto simp: tank_record_def)
    have "live a k" "spn_rank a k < spn_rank a j"
      using spn_live [OF wf live [OF j(1)] k(1)] sponsorship.up_rank [OF wf, of j k] live [OF j(1)] k(1) by simp_all
    with j k new(1) live show ?thesis by (simp add: q_def tank_record_def)
  qed
  moreover have "ht_user_id e \<noteq> nil_uuid \<and> ht_sponsor_user_id e \<noteq> Some nil_uuid \<and> hm_get (index a') (ht_user_id e) = None"
    if e: "e \<in> set (tank @ map (tank_record a) js)" for e
  proof (cases "e \<in> set tank")
    case True
    then show ?thesis using tank U(5) by (auto simp: tank_wf_def)
  next
    case False
    then obtain j where j: "j \<in> set js" "e = tank_record a j" using e by auto
    have "uid a k \<noteq> nil_uuid" if "spn a j = Some k" for k
      using spn_live [OF wf live [OF j(1)] that] new(2) by blast
    then show ?thesis using j new(2) [OF live] U(5) js(2) by (auto simp: tank_record_def)
  qed
  ultimately show ?thesis using dist unfolding tank_wf_def by blast
qed

section \<open>The removal\<close>

lemma removal_set_tank:
  assumes "arena_wf a" "live a i"
  shows "removal_set a i HoldingTank = Ok (subtree a i)"
  using descendants_eq [OF assms] by (simp add: removal_set_def)

lemma tank_hand_over:
  assumes wf: "arena_wf a" and i: "live a i" and rem: "removable a (set (subtree a i))"
  obtains b where "reparent_sponsored (subtree a i) a = (Ok (handovers a (subtree a i)), b)" "handed a (subtree a i) b"
    "\<forall>j \<in> set (subtree a i). live a j"
proof -
  let ?R = "subtree a i"
  have R: "distinct ?R" "\<forall>j \<in> set ?R. live a j" using subtree_distinct [OF wf i] subtree_iff [OF wf i] by auto
  show ?thesis
  proof (rule reparent_sponsored_wf [OF wf R rem refl refl refl refl])
    fix b assume "reparent_sponsored ?R a = (Ok (handovers a ?R), b)" "length (nodes b) = length (nodes a)"
      "index b = index a" "free_list b = free_list a" "root b = root a"
      "\<And>j. nd b j = (nd a j)\<lparr>sponsor := if j \<in> set ?R \<or> \<not> live a j then spn a j else heir a (set ?R) j,
          sponsored := if j \<in> set ?R then [] else spd a j @ bequests a ?R j\<rparr>"
    then show ?thesis by (intro that [of b] R(2)) (simp_all add: handed_def)
  qed
qed

lemma remove_to_holding_tank_ok:
  assumes wf: "matrix_wf t" and i: "live (tr_arena t) i" "par (tr_arena t) i = Some p"
    and user: "user = uid (tr_arena t) i" and rem: "removable (tr_arena t) (set (subtree (tr_arena t) i))"
  obtains t' where "remove_to_holding_tank i user t = (Ok \<lparr>rr_removed = user, rr_promoted = None, rr_repositioned = [],
       rr_moved_to_tank = map (uid (tr_arena t)) (downline (tr_arena t) i 0 @ [i]), rr_relocated = [],
       rr_responsored = handovers (tr_arena t) (subtree (tr_arena t) i)\<rparr>, t')"
    "detached (tr_arena t) (tr_arena t') (subtree (tr_arena t) i)" "matrix_wf t'"
    "mt_tank t' = mt_tank t @ map (tank_record (tr_arena t)) (downline (tr_arena t) i 0 @ [i])" "mt_width t' = mt_width t"
    "\<forall>j. j \<notin> set (subtree (tr_arena t) i) \<longrightarrow> slot_row_of t' j = clear_slot i (slot_row_of t j)"
proof -
  let ?a = "tr_arena t" and ?D = "downline (tr_arena t) i 0" and ?R = "subtree (tr_arena t) i"
  note M = matrix_wfD [OF wf]
  note aw = M(4)
  note p = par_live [OF aw i] subtree_top [OF aw i]
  obtain b where b: "reparent_sponsored ?R ?a = (Ok (handovers ?a ?R) :: (tree_error, responsored list) result, b)" "handed ?a ?R b"
    and R: "\<forall>j \<in> set ?R. live ?a j" by (rule tank_hand_over [OF aw i(1) rem])
  note H = handedD [OF b(2)]
  note row = slot_row_live [OF M(3) p(1)]
  obtain pos where pos: "position (\<lambda>s. s = Some i) (slot_row_of t p) = Some pos"
    using in_parent_row(1) [OF M(3) i] position_None_iff [of "\<lambda>s. s = Some i" "slot_row_of t p"] by fastforce
  note cl = clear_position [OF pos, unfolded row(3), OF placement.down_distinct [OF aw, of p]]
  have cl': "occupied (clear_slot i (slot_row_of t p)) = filter (\<lambda>c. c \<noteq> i) (kds ?a p)"
    by (simp add: occupied_clear row(3))
  let ?tank = "mt_tank t @ map (tank_record ?a) (?D @ [i])"
  let ?cs = "filter (\<lambda>c. c \<noteq> i) (kds ?a p)"
  let ?t2 = "t\<lparr>tr_arena := b, mt_tank := ?tank\<rparr>"
  note sb = handed_sweepable [OF aw R b(2)]
  have pb: "p < length (nodes b)" using live_bound [OF p(1)] H(1) by simp
  have "hm_ok (index b)" using arena_wfD(1) [OF aw] H(2) by (simp add: index_wf_def)
  then have "swept (set ?R) b [] [] (tr_arena ?t2)" by (simp add: swept_def)
  then obtain b1 where b1: "sfor (clear_descendant ?R) ?D ?t2 =
      (Ok (), ?t2\<lparr>tr_arena := b1, tr_slots := fold hm_remove ?D (tr_slots t)\<rparr>)" "swept (set ?R) b ?D ?D b1"
    using sweep_loop [OF _ sb, of "[]" ?t2 ?D ?R] subtree_distinct [OF aw i(1)] by auto
  obtain b2 where b2: "leave_outside_sponsor ?R (spn b i) i b1 = (Ok () :: (tree_error, unit) result, b2)"
    "swept (set ?R) b ?D (?D @ [i]) b2" by (rule sweep_leave [OF b1(2) sb _ _ refl]) auto
  let ?u = "upd_node p (\<lambda>n. n\<lparr>children := ?cs\<rparr>)"
  have sw: "swept (set ?R) (?u b) ?D (?D @ [i]) (?u b2)" by (rule sweep_children [OF b2(2) p(2) pb]) auto
  obtain b3 where b3: "tombstone i ((?u b2)\<lparr>index := hm_remove (uid (?u b) i) (index (?u b2))\<rparr>) =
      (Ok () :: (tree_error, unit) result, b3)" "swept (set ?R) (?u b) (?D @ [i]) (?D @ [i]) b3"
    by (rule sweep_bury [OF sw sweepable_children [OF sb pb]]) (use subtree_distinct [OF aw i(1)] in auto)
  have u: "uid (?u b) i = user" "spn b i = spn ?a i" "live b i" "live b2 p"
    using pb H(5) user i(1) p sweptD(6) [OF b2(2), of p] by (auto simp: live_def)
  let ?t' = "t\<lparr>tr_arena := b3, tr_slots := hm_remove i (hm_insert p (clear_slot i (slot_row_of t p))
     (fold hm_remove ?D (tr_slots t))), mt_tank := ?tank\<rparr>"
  have res: "remove_to_holding_tank i user t = (Ok \<lparr>rr_removed = user, rr_promoted = None, rr_repositioned = [],
       rr_moved_to_tank = map (uid ?a) (?D @ [i]), rr_relocated = [], rr_responsored = handovers ?a ?R\<rparr>, ?t')"
    using i p row(1) pos cl cl' b1(1) b2(1) b3(1) u R user
    by (simp add: remove_to_holding_tank_def outcome_simps removal_set_tank [OF aw i(1)] b(1) find_slot_position_def
        slots_mut_def set_slot_def rebuild_children_def hm_get_removes arena_node_mut_upd o_def Let_def
        tank_entries_handed [OF aw b(2)] tank_entry_handed [OF aw b(2)])
  have de: "detached ?a b3 ?R"
    by (rule subtree_detached [OF aw i rem b(2) _ _ b3(2)]) (use subtree_distinct [OF aw i(1)] in auto)
  note sl = subtree_rows [OF M(3) i de refl]
  show ?thesis
  proof (rule that [OF res])
    have "tank_wf ?tank b3" by (rule tank_batch [OF aw M(6) detachedD(1) [OF de]]) (use subtree_distinct [OF aw i(1)] in auto)
    then show "matrix_wf ?t'" using wf detached_wf [OF aw de] sl(1) by (simp add: matrix_wf_def)
    show "\<forall>j. j \<notin> set ?R \<longrightarrow> slot_row_of ?t' j = clear_slot i (slot_row_of t j)"
      using sl(2) by (simp add: slot_row_of_def split: option.split)
  qed (use de in simp_all)
qed

end
