(* ===== verification/Row_Forest.thy ===== *)
theory Row_Forest
  imports Matrix_Tank
begin

text \<open>
  The forest the slot rows form while a promotion moves subtrees around: some subtrees hang from
  nothing until their turn comes. Every search for an open slot below a node succeeds, and hanging
  such a subtree into the slot that was found gives a forest again.
\<close>

section \<open>Forests of rows\<close>

definition row_at :: "slot_map \<Rightarrow> node_index \<Rightarrow> slot_row" where
  "row_at sl i = (case hm_get sl i of None \<Rightarrow> [] | Some row \<Rightarrow> row)"

type_synonym row_state = "node_index set \<times> slot_map \<times> (node_index \<Rightarrow> node_index option)"

definition row_forest :: "nat \<Rightarrow> row_state \<Rightarrow> bool" where
  "row_forest w s \<longleftrightarrow> (case s of (L, sl, up) \<Rightarrow> finite L \<and>
     (\<forall>i \<in> L. hm_get sl i \<noteq> None \<and> length (row_at sl i) = w \<and> distinct (occupied (row_at sl i)) \<and>
        (\<forall>j. j \<in> set (occupied (row_at sl i)) \<longleftrightarrow> j \<in> L \<and> up j = Some i) \<and>
        (\<forall>j. up i = Some j \<longrightarrow> j \<in> L) \<and> ends up i))"

lemma row_forestD:
  assumes "row_forest w (L, sl, up)" "i \<in> L"
  shows "finite L" "hm_get sl i = Some (row_at sl i)" "length (row_at sl i) = w" "distinct (occupied (row_at sl i))"
    "\<And>j. j \<in> set (occupied (row_at sl i)) \<longleftrightarrow> j \<in> L \<and> up j = Some i" "\<And>j. up i = Some j \<Longrightarrow> j \<in> L" "ends up i"
  using assms by (auto simp: row_forest_def row_at_def)

definition row_rank :: "row_state \<Rightarrow> node_index \<Rightarrow> nat" where
  "row_rank s i = (case s of (L, sl, up) \<Rightarrow> LEAST n. upn up n i = None)"

lemma least_end:
  assumes "ends nx i" "nx i = Some j"
  shows "(LEAST n. upn nx n i = None) = Suc (LEAST n. upn nx n j = None)"
proof (rule Least_equality)
  obtain n where "upn nx n i = None" using assms(1) by (auto simp: ends_def)
  then obtain m where "upn nx m j = None" using assms(2) by (cases n) auto
  then have "upn nx (LEAST n. upn nx n j = None) j = None" by (rule LeastI)
  with assms(2) show "upn nx (Suc (LEAST n. upn nx n j = None)) i = None" by simp
next
  fix n assume n: "upn nx n i = None"
  then obtain m where m: "n = Suc m" "upn nx m j = None" using assms(2) by (cases n) auto
  from Least_le [of "\<lambda>n. upn nx n j = None", OF m(2)] m(1) show "Suc (LEAST n. upn nx n j = None) \<le> n" by simp
qed

interpretation rows: link_forest "row_forest w" fst "\<lambda>s. snd (snd s)" "\<lambda>s i. occupied (row_at (fst (snd s)) i)" row_rank
proof (unfold_locales, goal_cases)
  case (1 s)
  then show ?case by (cases s) (simp add: row_forest_def)
next
  case (2 s x y)
  then show ?case by (cases s) (auto dest: row_forestD(6))
next
  case (3 s x y)
  then show ?case by (cases s) (auto simp: row_forestD(5))
next
  case (4 s x y)
  then show ?case by (cases s) (auto simp: row_forestD(5))
next
  case (5 s x)
  then show ?case by (cases s) (auto dest: row_forestD(4))
next
  case (6 s x y)
  then obtain L sl up where s: "s = (L, sl, up)" by (cases s)
  with 6 have "ends up x" "up x = Some y" by (auto dest: row_forestD(7))
  from least_end [OF this] s show ?case by (simp add: row_rank_def)
qed

section \<open>Hanging a subtree into a forest\<close>

lemma upn_upd:
  assumes "\<forall>m < k. upn up m i \<noteq> Some r"
  shows "upn (up(r := v)) k i = upn up k i"
  using assms
proof (induction k arbitrary: i)
  case (Suc k)
  have ir: "i \<noteq> r" using Suc.prems by (metis upn.simps(1) zero_less_Suc)
  show ?case
  proof (cases "up i")
    case (Some j)
    have "\<forall>m < k. upn up m j \<noteq> Some r"
    proof (intro allI impI)
      fix m assume "m < k"
      with Suc.prems have "upn up (Suc m) i \<noteq> Some r" by (simp del: upn.simps)
      with Some show "upn up m j \<noteq> Some r" by simp
    qed
    from Suc.IH [OF this] Some ir show ?thesis by simp
  qed (use ir in simp)
qed simp

lemma ends_hang:
  assumes up: "up r = None" and p: "ends up p" "\<forall>k. upn up k p \<noteq> Some r" and i: "ends up i"
  shows "ends (up(r := Some p)) i"
proof -
  have end_p: "ends (up(r := Some p)) p"
  proof -
    obtain n where "upn up n p = None" using p(1) by (auto simp: ends_def)
    then have "upn (up(r := Some p)) n p = None" using upn_upd [of n up p r "Some p"] p(2) by simp
    then show ?thesis by (auto simp: ends_def)
  qed
  show ?thesis
  proof (cases "\<exists>k. upn up k i = Some r")
    case True
    define k where "k = (LEAST k. upn up k i = Some r)"
    have k: "upn up k i = Some r" unfolding k_def using True by (rule LeastI_ex)
    have "\<forall>m < k. upn up m i \<noteq> Some r" unfolding k_def using not_less_Least by blast
    from upn_upd [OF this, of "Some p"] k have "upn (up(r := Some p)) k i = Some r" by simp
    then have "upn (up(r := Some p)) (Suc k) i = Some p" by (simp add: upn_Suc_last del: upn.simps)
    from ends_link [OF this] end_p show ?thesis by simp
  next
    case False
    obtain n where "upn up n i = None" using i by (auto simp: ends_def)
    then have "upn (up(r := Some p)) n i = None" using upn_upd [of n up i r "Some p"] False by simp
    then show ?thesis by (auto simp: ends_def)
  qed
qed

lemma row_forest_hang:
  assumes fo: "row_forest w (L, sl, up)" and r: "r \<in> L" "up r = None" and p: "p \<in> L" "\<forall>k. upn up k p \<noteq> Some r"
    and pos: "pos < w" "row_at sl p ! pos = None"
  shows "row_forest w (L, hm_insert p ((row_at sl p)[pos := Some r]) sl, up(r := Some p))"
proof -
  let ?row = "(row_at sl p)[pos := Some r]"
  note P = row_forestD [OF fo p(1)]
  have "r \<notin> set (occupied (row_at sl p))" using P(5) r(2) by simp
  note fill = occupied_fill [of pos "row_at sl p" r, OF _ pos(2) P(4) this]
  have row: "row_at (hm_insert p ?row sl) i = (if i = p then ?row else row_at sl i)" for i
    by (simp add: row_at_def)
  have "ends (up(r := Some p)) i" if "i \<in> L" for i
    by (rule ends_hang [OF r(2) P(7) p(2) row_forestD(7) [OF fo that]])
  moreover have "j \<in> set (occupied (row_at (hm_insert p ?row sl) i)) \<longleftrightarrow> j \<in> L \<and> (up(r := Some p)) j = Some i" if "i \<in> L" for i j
    using fill(2) row_forestD(5) [OF fo that, of j] r P(3) pos(1) by (auto simp: row)
  moreover have "distinct (occupied (row_at (hm_insert p ?row sl) i))" "length (row_at (hm_insert p ?row sl) i) = w" if "i \<in> L" for i
    using fill(1) row_forestD(3,4) [OF fo that] P(3) pos(1) by (auto simp: row)
  moreover have "hm_get (hm_insert p ?row sl) i \<noteq> None" "(up(r := Some p)) i = Some j \<Longrightarrow> j \<in> L" if "i \<in> L" for i j
    using row_forestD(2,6) [OF fo that] p(1) by (auto split: if_splits)
  ultimately show ?thesis using P(1) unfolding row_forest_def by auto
qed

section \<open>The search for an open slot\<close>

abbreviation row_below :: "node_index set \<Rightarrow> slot_map \<Rightarrow> node_index \<Rightarrow> node_index list" where
  "row_below L sl i \<equiv> level_order (\<lambda>j. occupied (row_at sl j)) (card L) i"

lemma spillover_found:
  assumes fo: "row_forest w (L, sl, up)" "0 < w" and i: "i \<in> L"
  obtains p pos where "find_spillover_slot sl i = (Ok (Some (p, pos)) :: ('e, (node_index \<times> nat) option) result)"
    "find_map (open_slot sl) (i # row_below L sl i) = Some (p, pos)"
    "p \<in> L" "pos < w" "row_at sl p ! pos = None" "p = i \<or> (\<exists>k. upn up k p = Some i)"
proof -
  let ?s = "(L, sl, up)" and ?out = "i # row_below L sl i"
  have below: "y \<in> L \<and> (y = i \<or> (\<exists>k. upn up k y = Some i))" if "y \<in> set ?out" for y
    using that rows.in_level_order [OF fo(1), of i y "card L"] i by auto
  have "fifo (\<lambda>j. occupied (row_at sl j)) (occupied (row_at sl i)) (row_below L sl i)"
    using rows.fifo_down [OF fo(1), of i "card L"] i by simp
  then have ff: "fifo (\<lambda>j. occupied (row_at sl j)) [i] ?out" using fifo_Cons [of _ "[]" i] by simp
  have run: "find_spillover_slot sl i = (Ok (find_map (open_slot sl) ?out) :: ('e, (node_index \<times> nat) option) result)"
    unfolding find_spillover_slot_def
    by (rule spill_fifo [OF ff]) (use below row_forestD(2) [OF fo(1)] in blast)
  have "\<exists>y \<in> set ?out. occupied (row_at sl y) = []"
    using rows.leaf_below [OF fo(1), of i "card L"] i by simp
  then obtain y where y: "y \<in> set ?out" "occupied (row_at sl y) = []" by blast
  note Y = row_forestD [OF fo(1), of y]
  have "open_slot sl y \<noteq> None" using open_slot_leaf [OF Y(2) y(2)] Y(3) below [OF y(1)] fo(2) by auto
  with y(1) have "find_map (open_slot sl) ?out \<noteq> None" unfolding find_map_None by (metis (lifting))
  then obtain p pos where f: "find_map (open_slot sl) ?out = Some (p, pos)" by auto
  then obtain ys x zs where x: "?out = ys @ x # zs" "open_slot sl x = Some (p, pos)" using find_map_Some by metis
  have "x \<in> set ?out" by (simp add: x(1))
  note b = below [OF this]
  then have xl: "x \<in> L" by simp
  note o = open_slot_Some [OF x(2) row_forestD(2) [OF fo(1) xl]]
  show ?thesis by (rule that [OF _ f]) (use run f b o row_forestD(3) [OF fo(1) xl] in auto)
qed

end
