(* ===== verification/Leveling.thy ===== *)
theory Leveling
  imports Row_Forest
begin

text \<open>
  Recalculation of depths: once the placement links of an arena form a forest, the breadth-first
  rewrite below a node gives every node below it the number of links to the root, and with the
  depths right everywhere else the arena is well-formed.
\<close>

section \<open>The loop\<close>

definition redepth :: "node_index set \<Rightarrow> (node_index \<Rightarrow> nat) \<Rightarrow> arena \<Rightarrow> arena \<Rightarrow> bool" where
  "redepth K D b b' \<longleftrightarrow> length (nodes b') = length (nodes b) \<and> index b' = index b \<and> free_list b' = free_list b \<and>
     root b' = root b \<and> (\<forall>j. nd b' j = (if j \<in> K then (nd b j)\<lparr>depth := of_nat (D j)\<rparr> else nd b j))"

lemma redepth_live: "redepth K D b b' \<Longrightarrow> live b' j \<longleftrightarrow> live b j"
  by (simp add: redepth_def live_def)

lemma redepth_kds: "redepth K D b b' \<Longrightarrow> kds b' j = kds b j"
  by (simp add: redepth_def)

lemma sfor_step: "f x s = (Ok (), s') \<Longrightarrow> sfor f (x # xs) s = sfor f xs s'"
  by (simp add: sbind_def)

lemma fifo_covers: "fifo down q out \<Longrightarrow> set q \<subseteq> set out"
  by (induction rule: fifo.induct) auto

lemma depth_write:
  assumes "\<forall>c \<in> set cs. live b c \<and> D c = Suc d" "Suc d < 2 ^ 32" "unat n = d"
  shows "\<exists>b'. sfor (\<lambda>child. sbind (sgets (\<lambda>_. u32_add n 1)) (\<lambda>d. arena_node_mut child (\<lambda>m. m\<lparr>depth := d\<rparr>))) cs b =
       (Ok () :: ('e, unit) result, b') \<and> redepth (set cs) D b b'"
  using assms
proof (induction cs arbitrary: b)
  case Nil
  then show ?case by (intro exI [of _ b]) (simp add: sret_apply redepth_def)
next
  case (Cons c cs)
  have add: "u32_add n 1 = (Ok (n + 1) :: ('e, u32) result)" using Cons.prems(2,3) by (simp add: u32_add_no_panic)
  have "unat (n + 1) = Suc d" using Cons.prems(2,3) by (simp add: unat_u32_add)
  then have val: "n + 1 = of_nat (Suc d)" by (metis of_nat_unat ucast_id)
  let ?b = "upd_node c (\<lambda>m. m\<lparr>depth := n + 1\<rparr>) b"
  have c: "live b c" "D c = Suc d" "c < length (nodes b)" using Cons.prems(1) live_bound [of b c] by auto
  have "\<forall>c \<in> set cs. live ?b c \<and> D c = Suc d" using Cons.prems(1) c by (simp add: live_def)
  from Cons.IH [OF this Cons.prems(2,3)] obtain b' where
    b': "sfor (\<lambda>child. sbind (sgets (\<lambda>_. u32_add n 1)) (\<lambda>d. arena_node_mut child (\<lambda>m. m\<lparr>depth := d\<rparr>))) cs ?b =
       (Ok () :: ('e, unit) result, b')" "redepth (set cs) D ?b b'" by blast
  have "redepth (set (c # cs)) D b b'" using b'(2) c val by (auto simp: redepth_def)
  moreover have "sbind (sgets (\<lambda>_. u32_add n 1)) (\<lambda>d. arena_node_mut c (\<lambda>m. m\<lparr>depth := d\<rparr>)) b = (Ok () :: ('e, unit) result, ?b)"
    using c(1) by (simp add: outcome_simps add arena_node_mut_upd)
  ultimately show ?case using b'(1) by (auto simp: sfor_step simp del: sfor.simps)
qed

lemma depths_loop:
  assumes "fifo (kds a) queue out" "\<forall>j \<in> set out. live a j"
    "\<forall>j \<in> set out. \<forall>k \<in> set (kds a j). D k = Suc (D j) \<and> D k < 2 ^ 32"
    "\<forall>j. kds b j = kds a j" "\<forall>j. live b j = live a j" "\<forall>j \<in> set queue. dep b j = D j"
  shows "\<exists>b'. run_loop depths_body (queue, b) = (Ok b' :: ('e, arena) result) \<and> redepth (set out) D b b'"
  using assms
proof (induction arbitrary: b rule: fifo.induct)
  case fifo_Nil
  show ?case by (intro exI [of _ b]) (simp add: run_loop_done depths_body_def redepth_def)
next
  case (fifo_Cons q x out)
  have x: "live b x" "dep b x = D x" "kds b x = kds a x" using fifo_Cons.prems by auto
  have sub: "set (q @ kds a x) \<subseteq> set out" using fifo_Cons.hyps by (rule fifo_covers)
  have cs: "\<forall>c \<in> set (kds a x). live b c \<and> D c = Suc (D x)" using fifo_Cons.prems(1,2,4) sub by auto
  obtain b1 where b1: "sfor (\<lambda>child. sbind (sgets (\<lambda>_. u32_add (depth (nd b x)) 1)) (\<lambda>d. arena_node_mut child (\<lambda>m. m\<lparr>depth := d\<rparr>)))
      (kds a x) b = (Ok () :: ('e, unit) result, b1)" "redepth (set (kds a x)) D b b1"
  proof (cases "kds a x = []")
    case True
    then show ?thesis using that [of b] by (simp add: sret_apply redepth_def)
  next
    case False
    then obtain c where "c \<in> set (kds a x)" by (cases "kds a x") auto
    then have "Suc (D x) < 2 ^ 32" using fifo_Cons.prems(2) by force
    then show ?thesis using depth_write [OF cs _ x(2)] that by blast
  qed
  have "dep b1 j = D j" if "j \<in> set (q @ kds a x)" for j
  proof (cases "j \<in> set (kds a x)")
    case True
    then have "D j < 2 ^ 32" using fifo_Cons.prems(2) by auto
    then show ?thesis using True b1(2) by (simp add: redepth_def unat_of_nat)
  next
    case False
    then show ?thesis using that fifo_Cons.prems(5) b1(2) by (simp add: redepth_def)
  qed
  then have queued: "\<forall>j \<in> set (q @ kds a x). dep b1 j = D j" by blast
  have same: "\<forall>j. kds b1 j = kds a j" "\<forall>j. live b1 j = live a j"
    using fifo_Cons.prems(3,4) redepth_live [OF b1(2)] redepth_kds [OF b1(2)] by simp_all
  have rest: "\<forall>j \<in> set out. live a j" "\<forall>j \<in> set out. \<forall>k \<in> set (kds a j). D k = Suc (D j) \<and> D k < 2 ^ 32"
    using fifo_Cons.prems(1,2) by (meson list.set_intros(2))+
  obtain b2 where b2: "run_loop depths_body (q @ kds a x, b1) = (Ok b2 :: ('e, arena) result)" "redepth (set out) D b1 b2"
    using fifo_Cons.IH [OF rest same queued] by blast
  have "run_loop depths_body (x # q, b) = (run_loop depths_body (q @ kds a x, b1) :: ('e, arena) result)"
    using x b1(1) by (intro run_loop_next) (simp add: depths_body_def run_sm_def)
  moreover have "(nd b x)\<lparr>depth := of_nat (D x)\<rparr> = nd b x"
    using x(2) by (metis node.surjective node.update_convs(6) of_nat_unat ucast_id)
  then have "redepth (set (x # out)) D b b2" using b1(2) b2(2) sub by (auto simp: redepth_def)
  ultimately show ?case using b2(1) by auto
qed

section \<open>Levels\<close>

definition level_at :: "arena \<Rightarrow> node_index \<Rightarrow> nat" where
  "level_at a j = (LEAST n. upn (par a) n j = None) - 1"

definition leveled :: "arena \<Rightarrow> arena" where
  "leveled a = a\<lparr>nodes := map (\<lambda>j. if live a j then (nd a j)\<lparr>depth := of_nat (level_at a j)\<rparr> else nd a j)
     [0..<length (nodes a)]\<rparr>"

lemma leveled_fields [simp]:
  "length (nodes (leveled a)) = length (nodes a)" "index (leveled a) = index a"
  "free_list (leveled a) = free_list a" "root (leveled a) = root a"
  by (simp_all add: leveled_def)

lemma nd_leveled: "nd (leveled a) j = (if live a j then (nd a j)\<lparr>depth := of_nat (level_at a j)\<rparr> else nd a j)"
  using live_bound [of a j] by (auto simp: leveled_def nd_def)

lemma live_leveled [simp]: "live (leveled a) j \<longleftrightarrow> live a j"
  by (simp add: live_def nd_leveled)

text \<open>Everything the invariant asks but the depths.\<close>

definition linked_wf :: "arena \<Rightarrow> bool" where
  "linked_wf a \<longleftrightarrow> index_wf a \<and> links_wf parent children a \<and> links_wf sponsor sponsored a \<and> tombs_wf a \<and>
     free_wf a \<and> root_wf a \<and> chains_wf a \<and> (\<forall>j. live a j \<longrightarrow> ends (par a) j)"

lemma linked_wfD:
  assumes "linked_wf a"
  shows "index_wf a" "links_wf parent children a" "links_wf sponsor sponsored a" "tombs_wf a" "free_wf a"
    "root_wf a" "chains_wf a" "\<And>j. live a j \<Longrightarrow> ends (par a) j"
  using assms by (simp_all add: linked_wf_def)

interpretation linked: link_forest linked_wf live_set par kds "\<lambda>a j. LEAST n. upn (par a) n j = None"
proof (unfold_locales, goal_cases)
  case (6 a x y)
  then show ?case using least_end [OF linked_wfD(8), of a x y] by simp
qed (auto dest!: linked_wfD(2) simp: links_wf_def)

lemma level_at_step:
  assumes "linked_wf a" "live a j"
  shows "level_at a j = (case par a j of None \<Rightarrow> 0 | Some p \<Rightarrow> Suc (level_at a p))"
proof (cases "par a j")
  case None
  then have "(LEAST n. upn (par a) n j = None) \<le> 1" by (intro Least_le) simp
  with None show ?thesis by (simp add: level_at_def)
next
  case (Some p)
  have "\<exists>n. upn (par a) n p = None" using linked.up_live [OF assms(1)] linked_wfD(8) [OF assms(1), of p] assms(2) Some
    by (auto simp: ends_def)
  then have "upn (par a) (LEAST n. upn (par a) n p = None) p = None" by (rule LeastI_ex)
  then have "(LEAST n. upn (par a) n p = None) \<noteq> 0" by (metis option.distinct(1) upn.simps(1))
  with Some least_end [OF linked_wfD(8) [OF assms] Some] show ?thesis by (simp add: level_at_def)
qed

lemma level_at_bound:
  assumes "linked_wf a" "live a j"
  shows "level_at a j < card (live_set a)"
proof -
  have "upn (par a) (level_at a j) j \<noteq> None"
  proof
    assume "upn (par a) (level_at a j) j = None"
    then have "(LEAST n. upn (par a) n j = None) \<le> level_at a j" by (rule Least_le)
    then have "(LEAST n. upn (par a) n j = None) = 0" by (simp add: level_at_def)
    moreover have "upn (par a) (LEAST n. upn (par a) n j = None) j = None"
      using linked_wfD(8) [OF assms] by (rule_tac LeastI_ex) (simp add: ends_def)
    ultimately show False by simp
  qed
  then obtain y where "upn (par a) (level_at a j) j = Some y" by auto
  with linked.upn_bound [OF assms(1)] assms(2) show ?thesis by simp
qed

lemma leveled_dep:
  assumes "linked_wf a" "live a j" "length (nodes a) < 2 ^ 32"
  shows "dep (leveled a) j = level_at a j" "level_at a j < 2 ^ 32"
  using level_at_bound [OF assms(1,2)] card_live [of a] assms(2,3) by (simp_all add: nd_leveled unat_of_nat)

lemma leveled_wf:
  assumes wf: "linked_wf a" and fit: "length (nodes a) < 2 ^ 32"
  shows "arena_wf (leveled a)"
proof -
  note D = linked_wfD [OF wf]
  have depth: "depth_wf (leveled a)"
    unfolding depth_wf_def
  proof (intro allI impI)
    fix j assume "live (leveled a) j"
    then have j: "live a j" by simp
    from leveled_dep [OF wf j fit] level_at_step [OF wf j] linked.up_live [OF wf] j leveled_dep [OF wf _ fit]
    show "dep (leveled a) j = (case par (leveled a) j of None \<Rightarrow> 0 | Some p \<Rightarrow> Suc (dep (leveled a) p))"
      by (auto simp: nd_leveled split: option.splits)
  qed
  have same: "parent (nd (leveled a) j) = par a j" "children (nd (leveled a) j) = kds a j"
    "sponsor (nd (leveled a) j) = spn a j" "sponsored (nd (leveled a) j) = spd a j" "user_id (nd (leveled a) j) = uid a j" for j
    by (simp_all add: nd_leveled)
  then have upn: "upn (spn (leveled a)) = upn (spn a)" by presburger
  have "index_wf (leveled a) = index_wf a" "links_wf parent children (leveled a) = links_wf parent children a"
    "links_wf sponsor sponsored (leveled a) = links_wf sponsor sponsored a" "tombs_wf (leveled a) = tombs_wf a"
    "free_wf (leveled a) = free_wf a" "root_wf (leveled a) = root_wf a" "chains_wf (leveled a) = chains_wf a"
    by (simp_all only: index_wf_def links_wf_def tombs_wf_def free_wf_def root_wf_def chains_wf_def upn leveled_fields live_leveled same)
  with D(1-7) depth show ?thesis by (simp only: arena_wf_def)
qed

lemma recalculate_depths_ok:
  assumes wf: "linked_wf a" and fit: "length (nodes a) < 2 ^ 32" and q: "live a q" "par a q = Some p"
    and others: "\<And>j. live a j \<Longrightarrow> (\<And>k. upn (par a) k j \<noteq> Some q) \<Longrightarrow> dep a j = level_at a j"
  shows "recalculate_depths q a = (Ok () :: ('e, unit) result, leveled a)"
proof -
  let ?out = "q # downline (leveled a) q 0" and ?u = "upd_node q (\<lambda>m. m\<lparr>depth := of_nat (level_at a q)\<rparr>) a"
  have p: "live a p" using linked.up_live [OF wf] q by auto
  have above: "upn (par a) k p \<noteq> Some q" for k
  proof
    assume "upn (par a) k p = Some q"
    with q(2) have "upn (par a) (Suc k) q = Some q" by simp
    with linked.upn_rank [OF wf _ this] q(1) show False by simp
  qed
  have lq: "level_at a q = Suc (level_at a p)" using level_at_step [OF wf q(1)] q(2) by simp
  have dp: "dep a p = level_at a p" by (rule others [OF p above])
  have small: "dep a p + unat (1::u32) < 2 ^ 32" using lq dp leveled_dep(2) [OF wf q(1) fit] by simp
  then have "unat (depth (nd a p) + 1) = level_at a q" using lq dp by (simp add: unat_u32_add)
  then have "of_nat (level_at a q) = depth (nd a p) + 1" by (metis of_nat_unat ucast_id)
  with small have add: "u32_add (depth (nd a p)) 1 = (Ok (of_nat (level_at a q)) :: ('e, u32) result)"
    by (simp add: u32_add_no_panic)
  have qb: "q < length (nodes a)" by (rule live_bound [OF q(1)])
  have aw: "arena_wf (leveled a)" by (rule leveled_wf [OF wf fit])
  note sub = subtree_iff [OF aw, of q]
  have fifo: "fifo (kds (leveled a)) [q] ?out" by (rule fifo_subtree [OF aw]) (simp add: q)
  have "\<exists>b'. run_loop depths_body ([q], ?u) = (Ok b' :: ('e, arena) result) \<and> redepth (set ?out) (level_at a) ?u b'"
  proof (rule depths_loop [OF fifo])
    show "\<forall>j \<in> set ?out. live (leveled a) j" using sub q(1) by simp
    show "\<forall>j \<in> set ?out. \<forall>k \<in> set (kds (leveled a) j). level_at a k = Suc (level_at a j) \<and> level_at a k < 2 ^ 32"
    proof (intro ballI)
      fix j k assume j: "j \<in> set ?out" and k: "k \<in> set (kds (leveled a) j)"
      have "live a j" using j sub q(1) by simp
      then have "live a k" "par a k = Some j" using k linked_wfD(2) [OF wf] by (auto simp: nd_leveled links_wf_def)
      then show "level_at a k = Suc (level_at a j) \<and> level_at a k < 2 ^ 32"
        using level_at_step [OF wf, of k] leveled_dep(2) [OF wf _ fit, of k] by simp
    qed
  qed (use qb leveled_dep [OF wf q(1) fit] in \<open>auto simp: nd_leveled unat_of_nat live_def\<close>)
  then obtain b' where b': "run_loop depths_body ([q], ?u) = (Ok b' :: ('e, arena) result)" "redepth (set ?out) (level_at a) ?u b'"
    by blast
  have upn: "upn (par (leveled a)) = upn (par a)"
  proof -
    have "par (leveled a) = par a" by (simp add: nd_leveled fun_eq_iff)
    then show ?thesis by simp
  qed
  have "nd b' j = nd (leveled a) j" for j
  proof (cases "j \<in> set ?out")
    case True
    then have "live a j" using sub q(1) by simp
    with True b'(2) qb show ?thesis by (simp add: redepth_def nd_leveled)
  next
    case False
    then have "nd b' j = nd a j" using b'(2) qb by (simp add: redepth_def)
    moreover have "nd (leveled a) j = nd a j"
    proof (cases "live a j")
      case True
      with False sub [of j] q(1) upn have "dep a j = level_at a j" by (intro others) auto
      then have "of_nat (level_at a j) = depth (nd a j)" by (metis of_nat_unat ucast_id)
      then show ?thesis by (simp add: nd_leveled)
    qed (simp add: nd_leveled)
    ultimately show ?thesis by simp
  qed
  moreover have len: "length (nodes b') = length (nodes a)" using b'(2) by (simp add: redepth_def)
  ultimately have "nodes b' ! i = nodes (leveled a) ! i" if "i < length (nodes a)" for i
    using that by (metis leveled_fields(1) nd_def)
  with len have "nodes b' = nodes (leveled a)" by (intro nth_equalityI) simp_all
  then have "b' = leveled a" using b'(2) by (simp add: redepth_def leveled_def)
  with b'(1) add p q qb show ?thesis
    by (simp add: recalculate_depths_def outcome_simps arena_node_mut_upd loop_sm_def)
qed

end
