(* ===== verification/Matrix_Promote.thy ===== *)
theory Matrix_Promote
  imports Leveling
begin

text \<open>
  Removal by promotion: the earliest enrolled child takes the slot of the removed node, its
  siblings move to the first open slots below it, and the depths below it are recalculated. The
  operation keeps the invariant, and its report lists exactly the members whose placement changed.
\<close>

section \<open>The state between the moves\<close>

text \<open>
  \<open>shuffled a x q rs w b sl\<close>: the nodes of \<open>a\<close> are being moved around in \<open>b\<close> and \<open>sl\<close> before \<open>x\<close>
  is removed. Only parents and children differ from \<open>a\<close>; without \<open>x\<close> the rows form a forest in which
  the nodes \<open>rs\<close>, still to be moved, hang from nothing; the list of children of \<open>q\<close> may be out
  of date.
\<close>

definition hung :: "node_index list \<Rightarrow> arena \<Rightarrow> node_index \<Rightarrow> node_index option" where
  "hung rs b j = (if j \<in> set rs then None else par b j)"

definition shuffled ::
  "arena \<Rightarrow> node_index \<Rightarrow> node_index \<Rightarrow> node_index list \<Rightarrow> nat \<Rightarrow> arena \<Rightarrow> slot_map \<Rightarrow> bool" where
  "shuffled a x q rs w b sl \<longleftrightarrow>
     length (nodes b) = length (nodes a) \<and> index b = index a \<and> free_list b = free_list a \<and> root b = root a \<and>
     (\<forall>j. uid b j = uid a j \<and> spn b j = spn a j \<and> spd b j = spd a j \<and> depth (nd b j) = depth (nd a j) \<and>
        enrolled_at (nd b j) = enrolled_at (nd a j)) \<and>
     (\<forall>j. \<not> live a j \<longrightarrow> nd b j = nd a j) \<and>
     hm_ok sl \<and> (\<forall>j. hm_get sl j \<noteq> None \<longleftrightarrow> live a j) \<and> row_forest w (live_set a - {x}, sl, hung rs b) \<and>
     (\<forall>j. live a j \<longrightarrow> j \<noteq> x \<longrightarrow> j \<noteq> q \<longrightarrow> kds b j = occupied (row_at sl j)) \<and>
     (\<forall>j. live a j \<longrightarrow> j \<noteq> x \<longrightarrow> (hung rs b j = None \<longleftrightarrow> j \<in> set rs \<or> root a = Some j)) \<and>
     (\<exists>k r. root a = Some r \<and> upn (hung rs b) k q = Some r) \<and>
     (\<forall>j. live a j \<longrightarrow> j \<notin> set (kds a x) \<longrightarrow> par b j = par a j) \<and> set rs \<subseteq> set (kds a x) \<and>
     (\<forall>j \<in> set (kds a x). j \<in> set rs \<or> (\<exists>k. upn (hung rs b) k j = Some q)) \<and> par b q = par a x"

lemma shuffledD:
  assumes "shuffled a x q rs w b sl"
  shows "length (nodes b) = length (nodes a)" "index b = index a" "free_list b = free_list a" "root b = root a"
    "\<And>j. uid b j = uid a j \<and> spn b j = spn a j \<and> spd b j = spd a j \<and> depth (nd b j) = depth (nd a j) \<and>
       enrolled_at (nd b j) = enrolled_at (nd a j)" "\<And>j. \<not> live a j \<Longrightarrow> nd b j = nd a j"
    "hm_ok sl" "\<And>j. hm_get sl j \<noteq> None \<longleftrightarrow> live a j" "row_forest w (live_set a - {x}, sl, hung rs b)"
    "\<And>j. live a j \<Longrightarrow> j \<noteq> x \<Longrightarrow> j \<noteq> q \<Longrightarrow> kds b j = occupied (row_at sl j)"
    "\<And>j. live a j \<Longrightarrow> j \<noteq> x \<Longrightarrow> (hung rs b j = None \<longleftrightarrow> j \<in> set rs \<or> root a = Some j)"
    "\<exists>k r. root a = Some r \<and> upn (hung rs b) k q = Some r"
    "\<And>j. live a j \<Longrightarrow> j \<notin> set (kds a x) \<Longrightarrow> par b j = par a j" "set rs \<subseteq> set (kds a x)"
    "\<And>j. j \<in> set (kds a x) \<Longrightarrow> j \<in> set rs \<or> (\<exists>k. upn (hung rs b) k j = Some q)" "par b q = par a x"
  using assms unfolding shuffled_def by blast+

text \<open>Nobody waiting to be moved is above the promoted node.\<close>

lemma chain_top:
  assumes "upn up k i = Some s" "up s = None" "upn up m i = Some t" "up t = None"
  shows "s = t"
proof -
  have "upn up (Suc k) i = None" "upn up (Suc m) i = None" using assms by (simp_all add: upn_Suc_last del: upn.simps)
  then have "m \<le> k" "k \<le> m" using assms(1,3) upn_None_mono [of up "Suc k" i m] upn_None_mono [of up "Suc m" i k]
    by (metis not_less_eq_eq option.distinct(1))+
  with assms(1,3) show ?thesis by simp
qed

lemma shuffled_apart:
  assumes sh: "shuffled a x q rs w b sl" and wf: "arena_wf a" and x: "root a \<noteq> Some x"
    and r: "r \<in> set rs" "root a \<noteq> Some r"
  shows "upn (hung rs b) k q \<noteq> Some r"
proof
  assume k: "upn (hung rs b) k q = Some r"
  obtain m t where m: "root a = Some t" "upn (hung rs b) m q = Some t" using shuffledD(12) [OF sh] by blast
  have "live a t" using m(1) arena_wfD(7) [OF wf] by (auto simp: root_wf_def)
  then have "hung rs b t = None" using shuffledD(11) [OF sh, of t] m(1) x by auto
  moreover have "hung rs b r = None" using r(1) by (simp add: hung_def)
  ultimately have "r = t" using chain_top [OF k _ m(2)] by blast
  with r(2) m(1) show False by simp
qed

text \<open>The fields a write to parents and children leaves alone.\<close>

lemma shuffled_live: "shuffled a x q rs w b sl \<Longrightarrow> live b j \<longleftrightarrow> live a j"
  using shuffledD(5) [of a x q rs w b sl j] by (simp add: live_def)

section \<open>Moving one sibling\<close>

text \<open>Hanging \<open>r\<close> below \<open>q\<close> puts \<open>r\<close> below \<open>q\<close> and leaves there whoever was there.\<close>

lemma reach_hang:
  assumes up: "up r = None" and p: "r \<noteq> q" "p = q \<or> (\<exists>k. upn up k p = Some q)" "\<forall>k. upn up k p \<noteq> Some r"
  shows "j = r \<or> (\<exists>k. upn up k j = Some q) \<Longrightarrow> \<exists>k. upn (up(r := Some p)) k j = Some q"
proof -
  have keep: "\<exists>k. upn (up(r := Some p)) k j = Some q" if k: "upn up k j = Some q" for j k
  proof -
    have "upn up m j \<noteq> Some r" if "m < k" for m
    proof
      assume m: "upn up m j = Some r"
      from that obtain d where "k = m + Suc d" using less_iff_Suc_add by auto
      with k m upn_add [of up m "Suc d" j] have "upn up (Suc d) r = Some q" by (simp del: upn.simps add_Suc_right)
      with up show False by simp
    qed
    then have "upn (up(r := Some p)) k j = upn up k j" by (intro upn_upd) blast
    with k show ?thesis by auto
  qed
  have "\<exists>k. upn up k p = Some q" using p(2) by (metis upn.simps(1))
  then obtain k where "upn (up(r := Some p)) k p = Some q" using keep by blast
  then have "upn (up(r := Some p)) (Suc k) r = Some q" by simp
  then show "j = r \<or> (\<exists>k. upn up k j = Some q) \<Longrightarrow> ?thesis" using keep by blast
qed

lemma shuffled_hang:
  assumes sh: "shuffled a x q (r # rs) w b sl" and wf: "arena_wf a" and x: "root a \<noteq> Some x"
    and r: "live a r" "r \<noteq> x" "r \<notin> set rs" "root a \<noteq> Some r" and p: "live a p" "p \<noteq> x"
      "p = q \<or> (\<exists>k. upn (hung (r # rs) b) k p = Some q)" "r \<noteq> q"
    and pos: "pos < w" "row_at sl p ! pos = None"
    and b': "length (nodes b') = length (nodes b)" "index b' = index b" "free_list b' = free_list b" "root b' = root b"
      "\<And>j. nd b' j = (nd b j)\<lparr>parent := if j = r then Some p else par b j,
         children := if j = p \<and> p \<noteq> q then occupied ((row_at sl p)[pos := Some r]) else kds b j\<rparr>"
  shows "shuffled a x q rs w b' (hm_insert p ((row_at sl p)[pos := Some r]) sl)"
proof -
  note S = shuffledD [OF sh]
  let ?up = "hung (r # rs) b" and ?sl = "hm_insert p ((row_at sl p)[pos := Some r]) sl"
  have up: "hung rs b' = ?up(r := Some p)" using r(3) by (auto simp: hung_def b'(5))
  have rq: "upn ?up k q \<noteq> Some r" for k by (rule shuffled_apart [OF sh wf x _ r(4)]) simp
  have r0: "?up r = None" by (simp add: hung_def)
  have rp: "\<forall>k. upn ?up k p \<noteq> Some r"
  proof (cases "p = q")
    case False
    then obtain k where k: "upn ?up k p = Some q" using p(3) by blast
    show ?thesis
    proof (intro allI notI)
      fix m assume m: "upn ?up m p = Some r"
      show False
      proof (cases "m \<le> k")
        case True
        then obtain d where "k = m + d" by (auto simp: le_iff_add)
        then have "upn ?up d r = Some q" using m k by (simp add: upn_add)
        with r0 p(4) show False by (cases d) auto
      next
        case False
        then obtain d where "m = k + d" using nat_le_linear le_iff_add by metis
        then have "upn ?up d q = Some r" using m k by (simp add: upn_add)
        with rq show False by blast
      qed
    qed
  qed (use rq in simp)
  have "row_forest w (live_set a - {x}, ?sl, ?up(r := Some p))"
    by (rule row_forest_hang [OF S(9) _ r0 _ rp pos]) (use r p in auto)
  moreover have "upn (?up(r := Some p)) k q = upn ?up k q" for k by (rule upn_upd) (use rq in blast)
  moreover have row: "row_at ?sl j = (if j = p then (row_at sl p)[pos := Some r] else row_at sl j)" for j
    by (simp add: row_at_def)
  have "kds b' j = occupied (row_at ?sl j)" if "live a j" "j \<noteq> x" "j \<noteq> q" for j
    using that S(10) [OF that] by (simp add: b'(5) row)
  moreover have "(?up(r := Some p)) j = None \<longleftrightarrow> j \<in> set rs \<or> root a = Some j" if "live a j" "j \<noteq> x" for j
    using S(11) [OF that] r(3,4) by auto
  moreover have "uid b' j = uid a j \<and> spn b' j = spn a j \<and> spd b' j = spd a j \<and> depth (nd b' j) = depth (nd a j) \<and>
      enrolled_at (nd b' j) = enrolled_at (nd a j)" for j
    using S(5) [of j] by (simp add: b'(5))
  moreover have "nd b' j = nd a j" if "\<not> live a j" for j
    using that S(6) [OF that] r(1) p(1) by (auto simp: b'(5))
  moreover have "hm_get ?sl j \<noteq> None \<longleftrightarrow> live a j" for j using S(8) [of j] p(1) by auto
  moreover have "j \<in> set rs \<or> (\<exists>k. upn (?up(r := Some p)) k j = Some q)" if "j \<in> set (kds a x)" for j
    using S(15) [OF that] reach_hang [OF r0 p(4,3) rp, of j] by auto
  moreover have "par b' j = par a j" if "live a j" "j \<notin> set (kds a x)" for j
    using that S(13) [OF that] S(14) by (auto simp: b'(5))
  moreover have "par b' q = par a x" using S(16) p(4) by (simp add: b'(5))
  ultimately show ?thesis
    using S(1-4,7,12,14) b'(1-4) unfolding shuffled_def up by (simp only: hm_ok_insert) simp
qed

text \<open>The rows after a node was hung into the first open slot below \<open>q\<close>, breadth first.\<close>

definition hang_first :: "node_index \<Rightarrow> node_index \<Rightarrow> slot_map \<Rightarrow> slot_map" where
  "hang_first q r sl = (case find_spillover_slot sl q :: (tree_error, (node_index \<times> nat) option) result of
      Ok (Some (p, pos)) \<Rightarrow> hm_insert p ((row_at sl p)[pos := Some r]) sl | _ \<Rightarrow> sl)"

lemma reposition_ok:
  assumes sh: "shuffled a x q (r # rs) w (tr_arena t) (tr_slots t)" and wf: "arena_wf a" "0 < w" and x: "root a \<noteq> Some x"
    and r: "live a r" "r \<noteq> x" "r \<notin> set rs" "root a \<noteq> Some r" "r \<noteq> q" and q: "live a q" "q \<noteq> x"
  obtains b where "reposition q uq r acc t = (Ok (acc @ [uid a r]), t\<lparr>tr_arena := b, tr_slots := hang_first q r (tr_slots t)\<rparr>)"
    "shuffled a x q rs w b (hang_first q r (tr_slots t))"
proof -
  let ?b = "tr_arena t" and ?sl = "tr_slots t" and ?L = "live_set a - {x}"
  note S = shuffledD [OF sh]
  have "q \<in> ?L" using q by simp
  with S(9) wf(2) obtain p pos where f: "find_spillover_slot ?sl q = (Ok (Some (p, pos)) :: (tree_error, (node_index \<times> nat) option) result)"
    "find_map (open_slot ?sl) (q # row_below ?L ?sl q) = Some (p, pos)" and p: "p \<in> ?L" "pos < w" "row_at ?sl p ! pos = None"
    "p = q \<or> (\<exists>k. upn (hung (r # rs) ?b) k p = Some q)" by (rule spillover_found)
  have rows: "hm_get ?sl q = Some (row_at ?sl q)" "hm_get ?sl p = Some (row_at ?sl p)" "pos < length (row_at ?sl p)"
    using row_forestD(2,3) [OF S(9)] p(1,2) \<open>q \<in> ?L\<close> by auto
  have hf: "hang_first q r ?sl = hm_insert p ((row_at ?sl p)[pos := Some r]) ?sl" by (simp add: hang_first_def f(1))
  have live: "live ?b p" "live ?b r" "live ?b q" using p(1) r(1) q(1) by (auto simp: shuffled_live [OF sh])
  have pr: "p \<noteq> r"
  proof
    assume "p = r"
    then obtain k where "upn (hung (r # rs) ?b) k r = Some q" using p(4) r(5) by auto
    with r(5) show False by (cases k) (auto simp: hung_def)
  qed
  have uid: "uid ?b r = uid a r" using S(5) by simp
  show ?thesis
  proof (cases "position (\<lambda>s. s = None) (row_at ?sl q)")
    case (Some pos')
    then have pq: "p = q" "pos = pos'" using f(2) rows(1) by (simp_all add: open_slot_def)
    let ?b' = "upd_node r (\<lambda>n. n\<lparr>parent := Some q\<rparr>) ?b"
    have "reposition q uq r acc t = (Ok (acc @ [uid a r]), t\<lparr>tr_arena := ?b', tr_slots := hang_first q r ?sl\<rparr>)"
      using rows live pq Some live_bound [OF live(2)] uid
      by (simp add: reposition_def outcome_simps slots_mut_def set_slot_def arena_node_mut_upd hf live_def)
    moreover have "shuffled a x q rs w ?b' (hang_first q r ?sl)"
      unfolding hf by (rule shuffled_hang [OF sh wf(1) x r(1-4) _ _ p(4) r(5) p(2,3)])
        (use p pq live_bound [OF live(2)] in auto)
    ultimately show ?thesis by (rule that)
  next
    case None
    have "None \<in> set (row_at ?sl p)" using p(3) rows(3) by (metis nth_mem)
    then have pq: "p \<noteq> q" using None by (auto simp: position_None_iff)
    let ?u = "upd_node p (\<lambda>n. n\<lparr>children := occupied ((row_at ?sl p)[pos := Some r])\<rparr>) ?b"
    let ?b' = "upd_node r (\<lambda>n. n\<lparr>parent := Some p\<rparr>) ?u"
    have lu: "live ?u r" "r < length (nodes ?u)" using live live_bound [OF live(1)] live_bound [OF live(2)] pr by (auto simp: live_def)
    have "reposition q uq r acc t = (Ok (acc @ [uid a r]), t\<lparr>tr_arena := ?b', tr_slots := hang_first q r ?sl\<rparr>)"
      using rows live pq None lu uid f(1) pr live_bound [OF live(1)]
      by (simp add: reposition_def outcome_simps slots_mut_def set_slot_def arena_node_mut_upd hf rebuild_children_def live_def)
    moreover have "shuffled a x q rs w ?b' (hang_first q r ?sl)"
      unfolding hf by (rule shuffled_hang [OF sh wf(1) x r(1-4) _ _ p(4) r(5) p(2,3)])
        (use p pq pr live_bound [OF live(1)] lu in auto)
    ultimately show ?thesis by (rule that)
  qed
qed

text \<open>Whoever hangs below \<open>q\<close> was below \<open>x\<close>, so the siblings go to no row outside.\<close>

lemma shuffled_below:
  assumes sh: "shuffled a x q rs w b sl" and x: "\<And>k. k \<in> set (kds a x) \<longleftrightarrow> live a k \<and> par a k = Some x" "q \<in> set (kds a x)"
    and i: "live a i" "i \<noteq> x" "upn (hung rs b) k i = Some q"
  shows "\<exists>m. upn (par a) m i = Some x"
  using i
proof (induction k arbitrary: i)
  case 0
  with x have "par a i = Some x" by auto
  then show ?case by (intro exI [of _ 1]) simp
next
  case (Suc k)
  note S = shuffledD [OF sh]
  show ?case
  proof (cases "i \<in> set (kds a x)")
    case True
    with x show ?thesis by (intro exI [of _ 1]) simp
  next
    case False
    from Suc.prems(3) obtain m where m: "hung rs b i = Some m" "upn (hung rs b) k m = Some q" by (auto split: option.splits)
    have "hung rs b i = par b i" using m(1) by (simp add: hung_def split: if_splits)
    with S(13) [OF Suc.prems(1) False] m(1) have p: "par a i = Some m" by simp
    from rows.up_live [OF S(9), of i m] m(1) Suc.prems(1,2) have "live a m" "m \<noteq> x" by auto
    with Suc.IH [OF _ _ m(2)] obtain n where "upn (par a) n m = Some x" by blast
    with p show ?thesis by (intro exI [of _ "Suc n"]) simp
  qed
qed

lemma hang_first_apart:
  assumes sh: "shuffled a x q (r # rs) w b sl" and w: "0 < w" and x: "\<And>k. k \<in> set (kds a x) \<longleftrightarrow> live a k \<and> par a k = Some x"
    and q: "q \<in> set (kds a x)" "q \<noteq> x" and j: "\<And>m. upn (par a) m j \<noteq> Some x"
  shows "hm_get (hang_first q r sl) j = hm_get sl j"
proof -
  note S = shuffledD [OF sh]
  have "q \<in> live_set a - {x}" using q x by simp
  with S(9) w obtain p pos where f: "find_spillover_slot sl q = (Ok (Some (p, pos)) :: (tree_error, (node_index \<times> nat) option) result)"
    and p: "p \<in> live_set a - {x}" "p = q \<or> (\<exists>k. upn (hung (r # rs) b) k p = Some q)" by (rule spillover_found)
  obtain k where "upn (hung (r # rs) b) k p = Some q" using p(2) by (metis upn.simps(1))
  then have "\<exists>m. upn (par a) m p = Some x" using shuffled_below [OF sh x q(1)] p(1) by simp
  with j have "p \<noteq> j" by blast
  then show ?thesis by (simp add: hang_first_def f)
qed

lemma repositions_ok:
  assumes wf: "arena_wf a" "0 < w" and x: "root a \<noteq> Some x" and q: "live a q" "q \<noteq> x"
    and kids: "\<And>k. k \<in> set (kds a x) \<longleftrightarrow> live a k \<and> par a k = Some x" "q \<in> set (kds a x)"
    and sh: "shuffled a x q rs w (tr_arena t) (tr_slots t)" and rs: "distinct rs"
      "\<forall>r \<in> set rs. live a r \<and> r \<noteq> x \<and> root a \<noteq> Some r \<and> r \<noteq> q"
  shows "\<exists>b. sfold (reposition q uq) rs acc t = (Ok (acc @ map (uid a) rs),
       t\<lparr>tr_arena := b, tr_slots := fold (hang_first q) rs (tr_slots t)\<rparr>) \<and>
     shuffled a x q [] w b (fold (hang_first q) rs (tr_slots t)) \<and>
     (\<forall>j. (\<forall>m. upn (par a) m j \<noteq> Some x) \<longrightarrow> hm_get (fold (hang_first q) rs (tr_slots t)) j = hm_get (tr_slots t) j)"
  using sh rs
proof (induction rs arbitrary: t acc)
  case Nil
  then show ?case by (intro exI [of _ "tr_arena t"]) (simp add: sret_apply)
next
  case (Cons r rs)
  obtain b where b: "reposition q uq r acc t = (Ok (acc @ [uid a r]), t\<lparr>tr_arena := b, tr_slots := hang_first q r (tr_slots t)\<rparr>)"
    "shuffled a x q rs w b (hang_first q r (tr_slots t))"
    by (rule reposition_ok [OF Cons.prems(1) wf x _ _ _ _ _ q]) (use Cons.prems in auto)
  let ?t = "t\<lparr>tr_arena := b, tr_slots := hang_first q r (tr_slots t)\<rparr>"
  have "\<exists>b'. sfold (reposition q uq) rs (acc @ [uid a r]) ?t = (Ok ((acc @ [uid a r]) @ map (uid a) rs),
       ?t\<lparr>tr_arena := b', tr_slots := fold (hang_first q) rs (tr_slots ?t)\<rparr>) \<and>
     shuffled a x q [] w b' (fold (hang_first q) rs (tr_slots ?t)) \<and>
     (\<forall>j. (\<forall>m. upn (par a) m j \<noteq> Some x) \<longrightarrow> hm_get (fold (hang_first q) rs (tr_slots ?t)) j = hm_get (tr_slots ?t) j)"
    by (rule Cons.IH) (use Cons.prems b(2) in auto)
  moreover have "hm_get (hang_first q r (tr_slots t)) j = hm_get (tr_slots t) j" if "\<And>m. upn (par a) m j \<noteq> Some x" for j
    by (rule hang_first_apart [OF Cons.prems(1) wf(2) kids q(2) that])
  ultimately show ?case using b(1) by (auto simp: outcome_simps)
qed

section \<open>The promoted child takes the slot\<close>

lemma occupied_replace:
  assumes "pos < length row" "row ! pos = Some x" "distinct (occupied row)" "q \<notin> set (occupied row)"
  shows "distinct (occupied (row[pos := Some q]))" "set (occupied (row[pos := Some q])) = insert q (set (occupied row) - {x})"
proof -
  let ?l = "occupied (take pos row)" and ?r = "occupied (drop (Suc pos) row)"
  have "occupied row = ?l @ x # ?r"
    by (subst row_split [OF assms(1)], simp only: occupied_append assms(2) occupied.simps)
  moreover have "occupied (row[pos := Some q]) = ?l @ q # ?r"
    by (simp add: upd_conv_take_nth_drop [OF assms(1)])
  ultimately show "distinct (occupied (row[pos := Some q]))"
    "set (occupied (row[pos := Some q])) = insert q (set (occupied row) - {x})"
    using assms(3,4) by auto
qed

lemma ends_top: "ends up i \<Longrightarrow> \<exists>k t. upn up k i = Some t \<and> up t = None"
proof -
  assume "ends up i"
  then have ex: "\<exists>n. upn up n i = None" by (simp add: ends_def)
  define n where "n = (LEAST n. upn up n i = None)"
  have n: "upn up n i = None" unfolding n_def using ex by (rule LeastI_ex)
  then obtain m where m: "n = Suc m" by (cases n) auto
  have "upn up m i \<noteq> None" using not_less_Least [of m "\<lambda>n. upn up n i = None"] m n_def by simp
  then obtain t where t: "upn up m i = Some t" by auto
  with n m have "up t = None" by (simp add: upn_Suc_last del: upn.simps)
  with t show ?thesis by blast
qed

lemma upn_falls:
  fixes r :: "nat \<Rightarrow> nat"
  assumes "\<And>i j. i \<in> D \<Longrightarrow> up i = Some j \<Longrightarrow> j \<in> D \<and> r j < r i" "i \<in> D" "upn up k i = Some j"
  shows "j \<in> D \<and> r j \<le> r i"
  using assms(2,3)
proof (induction k arbitrary: i)
  case (Suc k)
  then obtain m where m: "up i = Some m" "upn up k m = Some j" by (auto split: option.splits)
  from assms(1) [OF Suc.prems(1) m(1)] Suc.IH [OF _ m(2)] show ?case by auto
qed simp

lemma promoted_shuffled:
  assumes wf: "slotted_wf w t" and x: "live (tr_arena t) x" "par (tr_arena t) x = Some p"
    and q: "q \<in> set (kds (tr_arena t) x)" and pos: "position (\<lambda>s. s = Some x) (slot_row_of t p) = Some pos"
  defines "row \<equiv> (slot_row_of t p)[pos := Some q]"
  shows "shuffled (tr_arena t) x q (filter (\<lambda>c. c \<noteq> q) (kds (tr_arena t) x)) w
     (upd_node q (\<lambda>n. n\<lparr>parent := Some p\<rparr>) (upd_node p (\<lambda>n. n\<lparr>children := occupied row\<rparr>) (tr_arena t)))
     (hm_insert p row (hm_insert x xrow (tr_slots t)))"
proof -
  let ?a = "tr_arena t" and ?rs = "filter (\<lambda>c. c \<noteq> q) (kds (tr_arena t) x)" and ?L = "live_set (tr_arena t) - {x}"
  let ?sl = "hm_insert p row (hm_insert x xrow (tr_slots t))"
  let ?b = "upd_node q (\<lambda>n. n\<lparr>parent := Some p\<rparr>) (upd_node p (\<lambda>n. n\<lparr>children := occupied row\<rparr>) ?a)"
  have aw: "arena_wf ?a" and sw: "slots_wf w ?a (tr_slots t)" using wf by simp_all
  note lp = par_live [OF aw x]
  have up: "k \<in> set (kds ?a j) \<longleftrightarrow> live ?a k \<and> par ?a k = Some j" if "live ?a j" for j k
    using arena_wfD(2) [OF aw] that by (auto simp: links_wf_def)
  have lq: "live ?a q" "par ?a q = Some x" using up [OF x(1)] q by simp_all
  have dep: "dep ?a k = Suc (dep ?a j)" if "live ?a k" "par ?a k = Some j" for j k
    using arena_wfD(4) [OF aw] that by (simp add: depth_wf_def)
  have ne: "p \<noteq> x" "q \<noteq> x" "p \<noteq> q" using dep [OF x] dep [OF lq] by auto
  note R = slot_row_live [OF wf]
  have pos': "pos < length (slot_row_of t p)" "slot_row_of t p ! pos = Some x" using pos by (simp_all add: position_Some_iff)
  have dist: "distinct (kds ?a j)" if "live ?a j" for j using placement.down_distinct [OF aw] that by simp
  have "q \<notin> set (kds ?a p)" using up [OF lp] lq(2) ne by simp
  note rep = occupied_replace [OF pos', unfolded R(3) [OF lp], OF dist [OF lp] this, folded row_def]
  have ndb: "nd ?b j = (nd ?a j)\<lparr>parent := if j = q then Some p else par ?a j,
      children := if j = p then occupied row else kds ?a j\<rparr>" for j
    using live_bound [OF lp] live_bound [OF lq(1)] ne by auto
  have hung: "hung ?rs ?b j = (if j = q then Some p else if j \<in> set (kds ?a x) then None else par ?a j)" for j
    by (simp add: hung_def ndb)
  have rowat: "row_at ?sl j = (if j = p then row else slot_row_of t j)" if "live ?a j" "j \<noteq> x" for j
    using that by (simp add: row_at_def slot_row_of_def)
  have falls: "j \<in> ?L \<and> dep ?a j < dep ?a i" if "i \<in> ?L" "hung ?rs ?b i = Some j" for i j
    using that ne lp dep [OF x] dep [OF lq] dep [of i j] par_live [OF aw, of i j] up [OF x(1), of i]
    by (auto simp: hung split: if_splits)
  have ends: "ends (hung ?rs ?b) i" if "i \<in> ?L" for i by (rule rank_ends [of ?L _ "dep ?a", OF falls that])
  have links: "j \<in> set (occupied (row_at ?sl i)) \<longleftrightarrow> j \<in> ?L \<and> hung ?rs ?b j = Some i" if "i \<in> ?L" for i j
  proof -
    have i: "live ?a i" "i \<noteq> x" using that by auto
    have lhs: "j \<in> set (occupied (row_at ?sl i)) \<longleftrightarrow> (if i = p then j = q \<or> j \<in> set (kds ?a p) \<and> j \<noteq> x else j \<in> set (kds ?a i))"
      using rowat [OF i] rep(2) R(3) [OF i(1)] by simp
    have ji: "j \<in> set (kds ?a i) \<longleftrightarrow> live ?a j \<and> par ?a j = Some i" by (rule up [OF i(1)])
    show ?thesis
    proof (cases "j = q")
      case True
      then show ?thesis unfolding lhs hung using lq ne i ji by auto
    next
      case False
      have jx: "j \<in> set (kds ?a x) \<longleftrightarrow> live ?a j \<and> par ?a j = Some x" by (rule up [OF x(1)])
      show ?thesis unfolding lhs hung using False jx ji i x by (cases "i = p") auto
    qed
  qed
  have rows: "hm_get ?sl i \<noteq> None \<and> length (row_at ?sl i) = w \<and> distinct (occupied (row_at ?sl i))" if "i \<in> ?L" for i
  proof -
    have i: "live ?a i" "i \<noteq> x" using that by auto
    show ?thesis using rowat [OF i] rep(1) R(1,2,3) [OF i(1)] R(2) [OF lp] dist [OF i(1)] i(2) by (simp add: row_def)
  qed
  have "row_forest w (?L, ?sl, hung ?rs ?b)"
    unfolding row_forest_def prod.case using live_set_finite [of ?a] links ends falls rows by blast
  moreover have "hm_ok ?sl" "hm_get ?sl j \<noteq> None \<longleftrightarrow> live ?a j" for j
    using sw lp x(1) by (auto simp: slots_wf_def)
  moreover have "kds ?b j = occupied (row_at ?sl j)" if "live ?a j" "j \<noteq> x" "j \<noteq> q" for j
    using that R(3) [of j] by (simp add: ndb rowat)
  moreover obtain r where r: "root ?a = Some r" using live_root_exists [OF aw x(1)] by blast
  have rw: "live ?a r" "par ?a r = None" "\<forall>i. live ?a i \<longrightarrow> par ?a i = None \<longrightarrow> i = r"
    using arena_wfD(7) [OF aw] r by (auto simp: root_wf_def)
  have tops: "hung ?rs ?b j = None \<longleftrightarrow> j \<in> set ?rs \<or> root ?a = Some j" if "live ?a j" "j \<noteq> x" for j
  proof -
    have "par ?a j = None \<longleftrightarrow> root ?a = Some j" 
    proof
      assume "par ?a j = None"
      with rw(3) that(1) have "j = r" by blast
      with r show "root ?a = Some j" by simp
    next
      assume "root ?a = Some j"
      with r rw(2) show "par ?a j = None" by simp
    qed
    with up [OF x(1), of j] that lq show ?thesis unfolding hung by auto
  qed
  moreover have "\<exists>k. upn (hung ?rs ?b) k q = Some r"
  proof -
    obtain k s where k: "upn (hung ?rs ?b) k q = Some s" "hung ?rs ?b s = None" using ends_top [OF ends [of q]] lq ne by auto
    have "hung ?rs ?b q = Some p" by (simp add: hung)
    with k obtain m where m: "upn (hung ?rs ?b) m p = Some s" by (cases k) auto
    have s: "s \<in> ?L \<and> dep ?a s \<le> dep ?a p" by (rule upn_falls [of ?L _ "dep ?a", OF falls _ m]) (use lp ne in auto)
    have "s \<notin> set ?rs" using s dep [OF x] dep [of s x] up [OF x(1), of s] by auto
    with tops [of s] s k(2) r show ?thesis using k(1) by auto
  qed
  moreover have "j \<in> set ?rs \<or> (\<exists>k. upn (hung ?rs ?b) k j = Some q)" if "j \<in> set (kds ?a x)" for j
    using that by (cases "j = q") (auto intro: exI [of _ 0])
  moreover have "par ?b j = par ?a j" if "j \<notin> set (kds ?a x)" for j
    using that q by (auto simp: ndb)
  ultimately show ?thesis
    unfolding shuffled_def using r lp lq(1) x(2) by (auto simp: ndb)
qed

end
