(* ===== verification/Relocations.thy ===== *)
theory Relocations
  imports Matrix_Tank
begin

text \<open>
  The report of a removal by promotion: the placement every member below the removed one had, the
  members whose placement differs afterwards, in breadth-first order, and the choice of the child
  that is promoted.
\<close>

section \<open>Placements\<close>

definition placement_at :: "matrix_tree \<Rightarrow> node_index \<Rightarrow> uuid \<times> u8 \<times> u32" where
  "placement_at t j = (uid (tr_arena t) (the (par (tr_arena t) j)),
     of_nat (the (position (\<lambda>s. s = Some j) (slot_row_of t (the (par (tr_arena t) j))))), depth (nd (tr_arena t) j))"

definition relocation_at :: "matrix_tree \<Rightarrow> node_index \<Rightarrow> relocation" where
  "relocation_at t j = (case placement_at t j of (p, pos, d) \<Rightarrow>
     \<lparr>rl_user_id = uid (tr_arena t) j, rl_parent_id = p, rl_position = pos, rl_depth = d\<rparr>)"

lemma slot_position_found:
  assumes wf: "slotted_wf w t" and j: "live (tr_arena t) j" "par (tr_arena t) j = Some p"
  obtains pos where "position (\<lambda>s. s = Some j) (slot_row_of t p) = Some pos"
    "find_slot_position (tr_slots t) p j = (Ok pos :: ('e, nat) result)"
proof -
  note p = in_parent_row [OF wf j]
  have "position (\<lambda>s. s = Some j) (slot_row_of t p) \<noteq> None" using p(1) unfolding position_None_iff by blast
  then obtain pos where "position (\<lambda>s. s = Some j) (slot_row_of t p) = Some pos" by blast
  with slot_row_live(1) [OF wf p(2)] show ?thesis by (intro that) (simp_all add: find_slot_position_def)
qed

lemma placement_of_eq:
  assumes wf: "slotted_wf w t" and j: "live (tr_arena t) j" "par (tr_arena t) j \<noteq> None"
  shows "placement_of t j = Ok (placement_at t j)"
proof -
  obtain p where p: "par (tr_arena t) j = Some p" using j(2) by blast
  obtain pos where "position (\<lambda>s. s = Some j) (slot_row_of t p) = Some pos"
    "find_slot_position (tr_slots t) p j = (Ok pos :: ('a, nat) result)" by (rule slot_position_found [OF wf j(1) p])
  with p j(1) in_parent_row(2) [OF wf j(1) p] show ?thesis by (simp add: placement_of_def placement_at_def)
qed

lemma subtree_parents:
  assumes "arena_wf a" "live a i" "j \<in> set (downline a i 0)"
  shows "live a j" "par a j \<noteq> None"
proof -
  from assms have "live a j \<and> (\<exists>k \<in> {1..length (nodes a)}. upn (par a) k j = Some i)"
    using placement.in_level_order [OF assms(1), of i j "length (nodes a)"] by (auto simp: downline_def)
  then obtain k where k: "live a j" "1 \<le> k" "upn (par a) k j = Some i" by auto
  then show "live a j" "par a j \<noteq> None" by (cases k; auto split: option.splits)+
qed

lemma hm_get_inserts:
  "hm_get (fold (\<lambda>(n, p). hm_insert n p) (map (\<lambda>n. (n, f n)) ns) m) j = (if j \<in> set ns then Some (f j) else hm_get m j)"
  by (induction ns arbitrary: m) auto

lemma placements_before_eq:
  assumes wf: "slotted_wf w t" and x: "live (tr_arena t) x"
  obtains before where "placements_before t x = (Ok before :: ('e, (node_index, uuid \<times> u8 \<times> u32) hmap) result)"
    "\<And>j. hm_get before j = (if j \<in> set (downline (tr_arena t) x 0) then Some (placement_at t j) else None)"
proof -
  let ?ds = "downline (tr_arena t) x 0"
  have aw: "arena_wf (tr_arena t)" using wf by simp
  have "map_res (\<lambda>n. bnd (placement_of t n) (\<lambda>p. Ok (n, p))) ?ds = (Ok (map (\<lambda>n. (n, placement_at t n)) ?ds)
      :: ('e, (node_index \<times> uuid \<times> u8 \<times> u32) list) result)"
    by (rule map_res_Ok) (simp add: placement_of_eq [OF wf] subtree_parents [OF aw x])
  then have "placements_before t x = (Ok (fold (\<lambda>(n, p). hm_insert n p) (map (\<lambda>n. (n, placement_at t n)) ?ds) [])
      :: ('e, (node_index, uuid \<times> u8 \<times> u32) hmap) result)"
    by (simp add: placements_before_def descendants_eq [OF aw x])
  then show ?thesis by (rule that) (simp add: hm_get_inserts)
qed

lemma fold_report:
  "fold (\<lambda>j acc. if P j then acc @ [f j] else acc) xs acc = acc @ map f (filter P xs)"
  by (induction xs arbitrary: acc) auto

lemma relocations_from_eq:
  assumes wf: "slotted_wf w t" and q: "live (tr_arena t) q" "par (tr_arena t) q \<noteq> None"
  shows "relocations_from t q before = Ok (map (relocation_at t)
     (filter (\<lambda>j. hm_get before j \<noteq> Some (placement_at t j)) (subtree (tr_arena t) q)))"
proof -
  let ?a = "tr_arena t"
  let ?visit = "\<lambda>j acc. if hm_get before j \<noteq> Some (placement_at t j) then acc @ [relocation_at t j] else acc"
  have aw: "arena_wf ?a" using wf by simp
  have "relocations_body t before (j # rest, acc) = Ok (Inl (rest @ kds ?a j, ?visit j acc))" if "j \<in> set (subtree ?a q)" for j rest acc
  proof -
    have j: "live ?a j" "par ?a j \<noteq> None" using that q subtree_parents [OF aw q(1), of j] by auto
    obtain p pos d where pl: "placement_at t j = (p, pos, d)" by (cases "placement_at t j")
    show ?thesis
      using slot_row_live(1,3) [OF wf j(1)] j(1)
      by (simp add: relocations_body_def placement_of_eq [OF wf j] pl relocation_at_def)
  qed
  with fifo_subtree [OF aw q(1)]
  have "run_loop (relocations_body t before) ([q], []) = Ok (id (fold ?visit (subtree ?a q) []))"
    by (rule fifo_loop) (simp_all add: relocations_body_def)
  then show ?thesis by (simp only: relocations_from_def fold_report id_apply append_Nil)
qed

section \<open>The child that is promoted\<close>

lemma min_by_key_zip:
  "min_by_key (\<lambda>(c, n). key n) (zip cs (map f cs)) = map_option (\<lambda>c. (c, f c)) (min_by_key (\<lambda>c. key (f c)) cs)"
proof (cases cs)
  case (Cons c cs')
  have "fold (\<lambda>y best. if (case y of (c, n) \<Rightarrow> key n) < (case best of (c, n) \<Rightarrow> key n) then y else best) (zip ds (map f ds)) (c, f c) =
      (\<lambda>c. (c, f c)) (fold (\<lambda>y best. if key (f y) < key (f best) then y else best) ds c)" for ds c
    by (induction ds arbitrary: c) auto
  with Cons show ?thesis by simp
qed simp

lemma earliest_child_eq:
  assumes "\<forall>c \<in> set cs. live a c" "cs \<noteq> []"
  obtains q where "min_by_key (\<lambda>c. enrolled_at (nd a c)) cs = Some q" "earliest_child a cs = (Ok q :: ('e, node_index) result)"
    "q \<in> set cs"
proof -
  obtain q where q: "min_by_key (\<lambda>c. enrolled_at (nd a c)) cs = Some q" using assms(2) by (cases cs) auto
  have "map_res (arena_node a) cs = (Ok (map (nd a) cs) :: ('e, node list) result)" using assms(1) by (intro map_res_Ok) simp
  with q have "earliest_child a cs = (Ok q :: ('e, node_index) result)"
    by (simp add: earliest_child_def min_by_key_zip [where key = enrolled_at and f = "nd a"])
  with q min_by_key_Some [OF q] show ?thesis by (intro that) auto
qed

end
