(* ===== verification/Matrix_Remove.thy ===== *)
theory Matrix_Remove
  imports Matrix_Promote Relocations
begin

text \<open>
  Removal from the matrix tree, whole: the last steps of a promotion, the removal of a leaf, and
  the checks in front of both ways to remove.
\<close>

section \<open>After the moves\<close>

text \<open>
  \<open>settled a x q w sl a1\<close>: every sibling has been moved and \<open>x\<close> is gone; only the depths below \<open>q\<close>
  are still those of \<open>a\<close>.
\<close>

definition settled :: "arena \<Rightarrow> node_index \<Rightarrow> node_index \<Rightarrow> nat \<Rightarrow> slot_map \<Rightarrow> arena \<Rightarrow> bool" where
  "settled a x q w sl a1 \<longleftrightarrow> (\<exists>b. shuffled a x q [] w b sl \<and> unsponsored a a1 [x] \<and> root a1 = root a \<and>
     (\<forall>j. j \<noteq> x \<longrightarrow> par a1 j = par b j \<and> depth (nd a1 j) = depth (nd a j) \<and>
        enrolled_at (nd a1 j) = enrolled_at (nd a j) \<and> (live a j \<longrightarrow> kds a1 j = occupied (row_at sl j))))"

lemma settledE:
  assumes "settled a x q w sl a1"
  obtains b where "shuffled a x q [] w b sl" "unsponsored a a1 [x]" "root a1 = root a"
    "\<And>j. j \<noteq> x \<Longrightarrow> par a1 j = par b j" "\<And>j. j \<noteq> x \<Longrightarrow> depth (nd a1 j) = depth (nd a j)"
    "\<And>j. j \<noteq> x \<Longrightarrow> enrolled_at (nd a1 j) = enrolled_at (nd a j)"
    "\<And>j. live a j \<Longrightarrow> j \<noteq> x \<Longrightarrow> kds a1 j = occupied (row_at sl j)" "hung [] b = par b"
    "\<And>j. live a1 j \<longleftrightarrow> live a j \<and> j \<noteq> x"
proof -
  from assms obtain b where b: "shuffled a x q [] w b sl" "unsponsored a a1 [x]" "root a1 = root a"
    "\<forall>j. j \<noteq> x \<longrightarrow> par a1 j = par b j \<and> depth (nd a1 j) = depth (nd a j) \<and>
        enrolled_at (nd a1 j) = enrolled_at (nd a j) \<and> (live a j \<longrightarrow> kds a1 j = occupied (row_at sl j))"
    by (auto simp: settled_def)
  show ?thesis by (rule that [OF b(1-3)]) (use b(4) unsponsored_live [OF b(2)] in \<open>auto simp: hung_def\<close>)
qed

lemma root_wfI:
  assumes "root a = Some r" "live a r" "par a r = None" "spn a r = None" "\<And>i. live a i \<Longrightarrow> par a i = None \<Longrightarrow> i = r"
  shows "root_wf a"
  unfolding root_wf_def assms(1) option.case using assms(2-5) by blast

lemma settled_linked:
  assumes se: "settled a x q w sl a1" and wf: "arena_wf a" and x: "root a \<noteq> Some x"
  shows "linked_wf a1"
proof -
  obtain b where sh: "shuffled a x q [] w b sl" and un: "unsponsored a a1 [x]" and r: "root a1 = root a"
    and pl: "\<And>j. j \<noteq> x \<Longrightarrow> par a1 j = par b j" and dp: "\<And>j. j \<noteq> x \<Longrightarrow> depth (nd a1 j) = depth (nd a j)"
    and en: "\<And>j. j \<noteq> x \<Longrightarrow> enrolled_at (nd a1 j) = enrolled_at (nd a j)"
    and kd: "\<And>j. live a j \<Longrightarrow> j \<noteq> x \<Longrightarrow> kds a1 j = occupied (row_at sl j)"
    and hung: "hung [] b = par b" and L: "\<And>j. live a1 j \<longleftrightarrow> live a j \<and> j \<noteq> x"
    by (rule settledE [OF se]) blast
  note S = shuffledD [OF sh, unfolded hung]
  note F = row_forestD [OF S(9), simplified]
  have links: "links_wf parent children a1"
    unfolding links_wf_def
  proof (intro allI impI)
    fix i assume i: "live a1 i"
    then have i': "live a i" "i \<noteq> x" by (simp_all add: L)
    have "j \<in> set (kds a1 i) \<longleftrightarrow> live a1 j \<and> par a1 j = Some i" for j
      using F(5) [of i j] i' kd [OF i'] pl [of j] by (auto simp: L)
    moreover have "live a1 j" if "par a1 i = Some j" for j
      using F(6) [of i j] i' that pl [OF i'(2)] by (auto simp: L)
    ultimately show "distinct (kds a1 i) \<and> (\<forall>j. j \<in> set (kds a1 i) \<longleftrightarrow> live a1 j \<and> par a1 j = Some i) \<and>
        (\<forall>j. par a1 i = Some j \<longrightarrow> live a1 j)"
      using F(4) [of i] i' kd [OF i'] by auto
  qed
  have tops: "par a1 j = None \<longleftrightarrow> root a = Some j" if "live a j" "j \<noteq> x" for j
    using S(11) [OF that] pl [OF that(2)] by simp
  have roots: "root_wf a1"
  proof (cases "root a")
    case None
    then have "\<not> live a j" for j using arena_wfD(7) [OF wf] by (simp add: root_wf_def)
    with None r show ?thesis by (simp add: root_wf_def L)
  next
    case (Some t)
    then have t: "live a t" "spn a t = None" "t \<noteq> x" using arena_wfD(7) [OF wf] x by (auto simp: root_wf_def)
    have "spn a1 t = None" using unsponsoredD(8) [OF un _ t(1)] heir_unfold [OF wf t(1)] t(2,3) by simp
    moreover have "j = t" if "live a1 j" "par a1 j = None" for j
      using tops [of j] that Some by (auto simp: L)
    moreover have "live a1 t" "par a1 t = None" using tops [OF t(1,3)] Some t by (simp_all add: L)
    moreover have "root a1 = Some t" using r Some by simp
    ultimately show ?thesis by (intro root_wfI)
  qed
  have "ends (par a1) i" if i: "live a1 i" for i
  proof -
    have i': "live a i" "i \<noteq> x" using i by (simp_all add: L)
    then obtain n where "upn (par b) n i = None" using F(7) by (auto simp: ends_def)
    moreover have "upn (par a1) n i = upn (par b) n i"
      using i'
    proof (induction n arbitrary: i)
      case (Suc n)
      with F(6) [of i] pl [of i] show ?case by (auto split: option.split)
    qed simp
    ultimately show ?thesis by (auto simp: ends_def)
  qed
  with links roots unsponsored_index [OF wf un] unsponsored_links [OF wf un] unsponsored_tombs [OF wf un]
    unsponsored_free [OF wf un] unsponsored_chains [OF wf un]
  show ?thesis by (simp add: linked_wf_def)
qed

text \<open>Whoever was below \<open>x\<close> is below \<open>q\<close> now, and nobody else is.\<close>

lemma settled_below:
  assumes se: "settled a x q w sl a1" and wf: "arena_wf a" and x: "live a x" "q \<in> set (kds a x)" and j: "live a1 j"
  shows "(\<exists>k. upn (par a1) k j = Some q) \<longleftrightarrow> (\<exists>k. upn (par a) k j = Some x)"
proof -
  obtain b where sh: "shuffled a x q [] w b sl" and un: "unsponsored a a1 [x]" and r: "root a1 = root a"
    and pl: "\<And>j. j \<noteq> x \<Longrightarrow> par a1 j = par b j" and dp: "\<And>j. j \<noteq> x \<Longrightarrow> depth (nd a1 j) = depth (nd a j)"
    and en: "\<And>j. j \<noteq> x \<Longrightarrow> enrolled_at (nd a1 j) = enrolled_at (nd a j)"
    and kd: "\<And>j. live a j \<Longrightarrow> j \<noteq> x \<Longrightarrow> kds a1 j = occupied (row_at sl j)"
    and hung: "hung [] b = par b" and L: "\<And>j. live a1 j \<longleftrightarrow> live a j \<and> j \<noteq> x"
    by (rule settledE [OF se]) blast
  note S = shuffledD [OF sh, unfolded hung]
  note F = row_forestD [OF S(9), simplified]
  have kids: "k \<in> set (kds a x) \<longleftrightarrow> live a k \<and> par a k = Some x" for k
    using arena_wfD(2) [OF wf] x(1) by (auto simp: links_wf_def)
  have same: "upn (par a1) n i = upn (par b) n i" if "live a i" "i \<noteq> x" for n i
    using that
  proof (induction n arbitrary: i)
    case (Suc n)
    with F(6) [of i] pl [of i] show ?case by (auto split: option.split)
  qed simp
  have down: "\<exists>m. upn (par a) m i = Some x" if "live a i" "i \<noteq> x" "upn (par b) k i = Some q" for i k
    using shuffled_below [OF sh kids x(2) that(1,2)] that(3) by (simp add: hung)
  have up: "\<exists>m. upn (par b) m i = Some q" if "live a i" "i \<noteq> x" "upn (par a) k i = Some x" for i k
    using that
  proof (induction k arbitrary: i)
    case (Suc k)
    show ?case
    proof (cases "i \<in> set (kds a x)")
      case True
      with S(15) show ?thesis by simp
    next
      case False
      with S(13) [OF Suc.prems(1)] have p: "par b i = par a i" by blast
      from Suc.prems(3) obtain m where m: "par a i = Some m" "upn (par a) k m = Some x" by (auto split: option.splits)
      with False kids Suc.prems(1) have "m \<noteq> x" by auto
      with m Suc.IH [of m] par_live [OF wf Suc.prems(1) m(1)] obtain n where "upn (par b) n m = Some q" by auto
      with m(1) p show ?thesis by (intro exI [of _ "Suc n"]) simp
    qed
  qed simp
  from j have "live a j" "j \<noteq> x" by (simp_all add: L)
  with same down up show ?thesis by metis
qed

lemma settled_levels:
  assumes se: "settled a x q w sl a1" and wf: "arena_wf a" and x: "live a x" "root a \<noteq> Some x" "q \<in> set (kds a x)"
    and j: "live a1 j" "\<And>k. upn (par a1) k j \<noteq> Some q"
  shows "dep a1 j = level_at a1 j"
proof -
  obtain b where sh: "shuffled a x q [] w b sl" and un: "unsponsored a a1 [x]" and r: "root a1 = root a"
    and pl: "\<And>j. j \<noteq> x \<Longrightarrow> par a1 j = par b j" and dp: "\<And>j. j \<noteq> x \<Longrightarrow> depth (nd a1 j) = depth (nd a j)"
    and en: "\<And>j. j \<noteq> x \<Longrightarrow> enrolled_at (nd a1 j) = enrolled_at (nd a j)"
    and kd: "\<And>j. live a j \<Longrightarrow> j \<noteq> x \<Longrightarrow> kds a1 j = occupied (row_at sl j)"
    and hung: "hung [] b = par b" and L: "\<And>j. live a1 j \<longleftrightarrow> live a j \<and> j \<noteq> x"
    by (rule settledE [OF se]) blast
  note li = settled_linked [OF se wf x(2)]
  show ?thesis using j
  proof (induction "level_at a1 j" arbitrary: j rule: less_induct)
    case less
    then have j: "live a j" "j \<noteq> x" by (simp_all add: L)
    have kids: "k \<in> set (kds a x) \<longleftrightarrow> live a k \<and> par a k = Some x" for k
      using arena_wfD(2) [OF wf] x(1) by (auto simp: links_wf_def)
    have "\<not> (\<exists>k. upn (par a) k j = Some x)" using settled_below [OF se wf x(1,3) less.prems(1)] less.prems(2) by simp
    then have "par a j \<noteq> Some x" by (metis One_nat_def option.simps(5) upn.simps)
    then have p: "par a1 j = par a j" using shuffledD(13) [OF sh j(1)] kids pl [OF j(2)] by simp
    have step: "dep a j = (case par a j of None \<Rightarrow> 0 | Some p \<Rightarrow> Suc (dep a p))"
      using arena_wfD(4) [OF wf] j(1) by (simp add: depth_wf_def)
    show ?case
    proof (cases "par a1 j")
      case None
      with level_at_step [OF li less.prems(1)] step p dp [OF j(2)] show ?thesis by simp
    next
      case (Some m)
      have lv: "level_at a1 j = Suc (level_at a1 m)" using level_at_step [OF li less.prems(1)] Some by simp
      have m: "live a1 m" using linked.up_live [OF li, of j m] less.prems(1) Some by simp
      have "upn (par a1) k m \<noteq> Some q" for k using less.prems(2) [of "Suc k"] Some by simp
      with less.hyps [of m] lv m have "dep a1 m = level_at a1 m" by simp
      moreover have "par a j = Some m" using p Some by simp
      ultimately show ?thesis using lv step dp [OF j(2)] dp [of m] m by (simp add: L)
    qed
  qed
qed

lemma settled_slots:
  assumes se: "settled a x q w sl a1"
  shows "slots_wf w (leveled a1) (hm_remove x sl)"
proof -
  obtain b where sh: "shuffled a x q [] w b sl" and un: "unsponsored a a1 [x]" and r: "root a1 = root a"
    and pl: "\<And>j. j \<noteq> x \<Longrightarrow> par a1 j = par b j" and dp: "\<And>j. j \<noteq> x \<Longrightarrow> depth (nd a1 j) = depth (nd a j)"
    and en: "\<And>j. j \<noteq> x \<Longrightarrow> enrolled_at (nd a1 j) = enrolled_at (nd a j)"
    and kd: "\<And>j. live a j \<Longrightarrow> j \<noteq> x \<Longrightarrow> kds a1 j = occupied (row_at sl j)"
    and hung: "hung [] b = par b" and L: "\<And>j. live a1 j \<longleftrightarrow> live a j \<and> j \<noteq> x"
    by (rule settledE [OF se]) blast
  note S = shuffledD [OF sh] and F = row_forestD [OF shuffledD(9) [OF sh], simplified]
  have get: "hm_get (hm_remove x sl) j = (if j = x then None else hm_get sl j)" for j using S(7) by simp
  have "length row = w \<and> occupied row = kds (leveled a1) j" if "hm_get (hm_remove x sl) j = Some row" for j row
  proof -
    have j: "j \<noteq> x" "hm_get sl j = Some row" using that by (simp_all add: get split: if_splits)
    then have "live a j" using S(8) [of j] by simp
    moreover have "row_at sl j = row" using j by (simp add: row_at_def)
    ultimately show ?thesis using F(3) [of j] kd [of j] j(1) by (simp add: nd_leveled)
  qed
  then show ?thesis using S(7,8) by (simp add: slots_wf_def get L)
qed

lemma promotion_steps:
  assumes wf: "arena_wf a" and x: "live a x" "removable a {x}" and sh: "shuffled a x q [] w b sl" and q: "live a q" "q \<noteq> x"
  defines "b3 \<equiv> upd_node q (\<lambda>n. n\<lparr>children := occupied (row_at sl q)\<rparr>) b"
  obtains b4 b5 a1 where "live b3 x" "spn b3 x = spn a x"
    "retain_sponsored (spn a x) x b3 = (Ok () :: (tree_error, unit) result, b4)"
    "reparent_sponsored [x] b4 = (Ok (handovers a [x]), b5)"
    "tombstone x (b5\<lparr>index := hm_remove (uid a x) (index b5)\<rparr>) = (Ok () :: (tree_error, unit) result, a1)"
    "settled a x q w sl a1"
proof -
  note S = shuffledD [OF sh]
  have qb: "q < length (nodes b)" using live_bound [OF q(1)] S(1) by simp
  have nd3: "nd b3 j = (nd b j)\<lparr>children := if j = q then occupied (row_at sl q) else kds b j\<rparr>" for j
    using qb by (simp add: b3_def)
  have f3: "length (nodes b3) = length (nodes a)" "index b3 = index a" "free_list b3 = free_list a" "root b3 = root a"
    using S(1-4) by (simp_all add: b3_def)
  have v3: "spd b3 j = spd a j" "uid b3 j = uid a j" "spn b3 j = spn a j" for j
    using S(5) [of j] by (simp_all add: nd3)
  obtain b4 where b4: "retain_sponsored (spn a x) x b3 = (Ok () :: (tree_error, unit) result, b4)"
    "length (nodes b4) = length (nodes b3)" "index b4 = index b3" "free_list b4 = free_list b3" "root b4 = root b3"
    "\<And>j. nd b4 j = (nd b3 j)\<lparr>sponsored := filter (\<lambda>c. c \<noteq> x) (spd a j)\<rparr>"
    by (rule retain_sponsored_steps [OF wf x(1) f3(1) v3(1,2)]) blast
  have tomb: "nd b4 j = nd a j" if "\<not> live a j" for j
  proof -
    have "spd a j = []" "j \<noteq> q" using arena_wfD(5) [OF wf] that q(1) by (auto simp: tombs_wf_def)
    then show ?thesis using S(6) [OF that] by (simp add: b4(6) nd3)
  qed
  obtain b5 a1 where b5: "reparent_sponsored [x] b4 = (Ok (handovers a [x]), b5)"
    "tombstone x (b5\<lparr>index := hm_remove (user_id (nd a x)) (index b5)\<rparr>) = (Ok () :: (tree_error, unit) result, a1)"
    "unsponsored a a1 [x]" "root a1 = root b4"
    "\<And>j. j \<noteq> x \<Longrightarrow> par a1 j = par b4 j \<and> kds a1 j = kds b4 j \<and>
       depth (nd a1 j) = depth (nd b4 j) \<and> enrolled_at (nd a1 j) = enrolled_at (nd b4 j)"
    by (rule unsponsor_one [OF wf x, of b4]) (use b4 f3 v3 tomb in auto)
  have "kds a1 j = occupied (row_at sl j)" if "j \<noteq> x" "live a j" for j
    using b5(5) [OF that(1)] S(10) [OF that(2,1)] by (simp add: b4(6) nd3)
  then have "settled a x q w sl a1"
    unfolding settled_def using sh b5(3,4,5) b4(5) f3(4) S(5) by (intro exI [of _ b]) (simp add: b4(6) nd3)
  then show ?thesis by (intro that [OF _ _ b4(1) b5(1,2)]) (use v3 x(1) in \<open>auto simp: live_def\<close>)
qed

text \<open>The tank is untouched: the removed member leaves the index, nobody enters it.\<close>

lemma unsponsored_tank: "tank_wf tank a \<Longrightarrow> unsponsored a a' R \<Longrightarrow> tank_wf tank a'"
  using unsponsoredD(5) [of a a' R] by (auto simp: tank_wf_def)

section \<open>Promotion\<close>

definition promoted_rows :: "matrix_tree \<Rightarrow> node_index \<Rightarrow> node_index \<Rightarrow> slot_map" where
  "promoted_rows t x q = (let p = the (par (tr_arena t) x); xrow = slot_row_of t x; prow = slot_row_of t p in
     hm_remove x (fold (hang_first q) (filter (\<lambda>c. c \<noteq> q) (kds (tr_arena t) x))
       (hm_insert p (prow[the (position (\<lambda>s. s = Some x) prow) := Some q])
         (hm_insert x (xrow[the (position (\<lambda>s. s = Some q) xrow) := None]) (tr_slots t)))))"

definition promoted :: "matrix_tree \<Rightarrow> matrix_tree \<Rightarrow> node_index \<Rightarrow> node_index \<Rightarrow> bool" where
  "promoted t t' x q \<longleftrightarrow> (let a = tr_arena t; a' = tr_arena t' in
     min_by_key (\<lambda>c. enrolled_at (nd a c)) (kds a x) = Some q \<and> unsponsored a a' [x] \<and> root a' = root a \<and>
     par a' q = par a x \<and> (\<forall>j. live a j \<longrightarrow> j \<noteq> x \<longrightarrow> j \<notin> set (kds a x) \<longrightarrow> par a' j = par a j) \<and>
     set (subtree a' q) = set (downline a x 0) \<and> (\<forall>j. j \<noteq> x \<longrightarrow> enrolled_at (nd a' j) = enrolled_at (nd a j)) \<and>
     mt_width t' = mt_width t \<and> mt_spillover t' = mt_spillover t \<and> mt_tank t' = mt_tank t \<and>
     tr_slots t' = promoted_rows t x q \<and>
     (\<forall>p pos. par a x = Some p \<longrightarrow> position (\<lambda>s. s = Some x) (slot_row_of t p) = Some pos \<longrightarrow>
        slot_row_of t' p = (slot_row_of t p)[pos := Some q]) \<and>
     (\<forall>j. (\<forall>m. upn (par a) m j \<noteq> Some x) \<longrightarrow> par a x \<noteq> Some j \<longrightarrow> slot_row_of t' j = slot_row_of t j))"

definition promotion_report :: "matrix_tree \<Rightarrow> matrix_tree \<Rightarrow> node_index \<Rightarrow> node_index \<Rightarrow> removal_result" where
  "promotion_report t t' x q = (let a = tr_arena t in
     \<lparr>rr_removed = uid a x, rr_promoted = Some (uid a q),
      rr_repositioned = map (uid a) (filter (\<lambda>c. c \<noteq> q) (kds a x)), rr_moved_to_tank = [],
      rr_relocated = map (relocation_at t') (filter (\<lambda>j. placement_at t' j \<noteq> placement_at t j) (subtree (tr_arena t') q)),
      rr_responsored = handovers a [x]\<rparr>)"

lemma settled_promoted:
  assumes wf: "matrix_wf t" and fit: "length (nodes (tr_arena t)) < 2 ^ 32" and x: "live (tr_arena t) x" "root (tr_arena t) \<noteq> Some x"
    and q: "min_by_key (\<lambda>c. enrolled_at (nd (tr_arena t) c)) (kds (tr_arena t) x) = Some q"
    and se: "settled (tr_arena t) x q (usize_width t) sl a1" and sl: "hm_remove x sl = promoted_rows t x q"
    and prow: "\<forall>p pos. par (tr_arena t) x = Some p \<longrightarrow> position (\<lambda>s. s = Some x) (slot_row_of t p) = Some pos \<longrightarrow>
      hm_get (hm_remove x sl) p = Some ((slot_row_of t p)[pos := Some q])"
    and outside: "\<forall>j. (\<forall>m. upn (par (tr_arena t)) m j \<noteq> Some x) \<longrightarrow> par (tr_arena t) x \<noteq> Some j \<longrightarrow>
      hm_get (hm_remove x sl) j = hm_get (tr_slots t) j"
  defines "t' \<equiv> t\<lparr>tr_arena := leveled a1, tr_slots := hm_remove x sl\<rparr>"
  shows "matrix_wf t'" "promoted t t' x q"
proof -
  let ?a = "tr_arena t"
  note M = matrix_wfD [OF wf]
  have qx: "q \<in> set (kds ?a x)" using min_by_key_Some [OF q] by blast
  obtain b where sh: "shuffled ?a x q [] (usize_width t) b sl" and un: "unsponsored ?a a1 [x]" and r: "root a1 = root ?a"
    and pl: "\<And>j. j \<noteq> x \<Longrightarrow> par a1 j = par b j" and dp: "\<And>j. j \<noteq> x \<Longrightarrow> depth (nd a1 j) = depth (nd ?a j)"
    and en: "\<And>j. j \<noteq> x \<Longrightarrow> enrolled_at (nd a1 j) = enrolled_at (nd ?a j)"
    and kd: "\<And>j. live ?a j \<Longrightarrow> j \<noteq> x \<Longrightarrow> kds a1 j = occupied (row_at sl j)"
    and hung: "hung [] b = par b" and L: "\<And>j. live a1 j \<longleftrightarrow> live ?a j \<and> j \<noteq> x"
    by (rule settledE [OF se]) blast
  note S = shuffledD [OF sh]
  have aw: "arena_wf (leveled a1)"
    by (rule leveled_wf [OF settled_linked [OF se M(4) x(2)]]) (use fit unsponsoredD(13) [OF un] in simp)
  have un': "unsponsored ?a (leveled a1) [x]"
    using un L x(1) by (simp add: unsponsored_def nd_leveled)
  show "matrix_wf t'"
    using wf aw settled_slots [OF se] unsponsored_tank [OF M(6) un'] by (simp add: matrix_wf_def t'_def)
  have lq: "live ?a q" "par ?a q = Some x" using qx arena_wfD(2) [OF M(4)] x(1) by (auto simp: links_wf_def)
  have qne: "q \<noteq> x" using lq placement.up_rank [OF M(4), of q x] by auto
  have par: "par (leveled a1) j = par a1 j" for j by (simp add: nd_leveled)
  then have upn: "upn (par (leveled a1)) = upn (par a1)" by presburger
  have "j \<in> set (subtree (leveled a1) q) \<longleftrightarrow> j \<in> set (downline ?a x 0)" for j
  proof -
    have "j \<in> set (subtree (leveled a1) q) \<longleftrightarrow> live a1 j \<and> (\<exists>k. upn (par a1) k j = Some q)"
      using subtree_iff [OF aw, of q j] lq(1) qne by (simp add: upn L)
    also have "\<dots> \<longleftrightarrow> live a1 j \<and> (\<exists>k. upn (par ?a) k j = Some x)"
      using settled_below [OF se M(4) x(1) qx, of j] by blast
    also have "\<dots> \<longleftrightarrow> j \<in> set (downline ?a x 0)"
      using subtree_iff [OF M(4) x(1), of j] subtree_distinct [OF M(4) x(1)] by (auto simp: L)
    finally show ?thesis .
  qed
  moreover have "par a1 q = par ?a x" using pl [OF qne] S(16) by simp
  moreover have "par a1 j = par ?a j" if "live ?a j" "j \<noteq> x" "j \<notin> set (kds ?a x)" for j
    using S(13) [OF that(1,3)] pl [OF that(2)] by simp
  moreover have "slot_row_of t' p = (slot_row_of t p)[pos := Some q]"
    if "par ?a x = Some p" "position (\<lambda>s. s = Some x) (slot_row_of t p) = Some pos" for p pos
    using prow that by (simp add: slot_row_of_def t'_def)
  moreover have "slot_row_of t' j = slot_row_of t j" if "\<forall>m. upn (par ?a) m j \<noteq> Some x" "par ?a x \<noteq> Some j" for j
    using outside that by (simp add: slot_row_of_def t'_def)
  ultimately show "promoted t t' x q"
    using q un' r en sl by (simp add: promoted_def t'_def par Let_def set_eq_iff) (simp add: nd_leveled)
qed

text \<open>The operation step by step, over the outcomes of its parts.\<close>

lemma promote_eval:
  fixes t :: matrix_tree
  assumes x: "live (tr_arena t) x" "par (tr_arena t) x = Some p" "find_slot_position (tr_slots t) p x = (Ok pos :: (tree_error, nat) result)"
      "hm_get (tr_slots t) x = Some xrow" "occupied xrow \<noteq> []"
    and q: "earliest_child (tr_arena t) (occupied xrow) = (Ok q :: (tree_error, node_index) result)" "live (tr_arena t) q"
      "find_slot_position (tr_slots t) x q = (Ok qpos :: (tree_error, nat) result)" "qpos < length xrow" "p \<noteq> x" "q \<noteq> p"
    and p: "hm_get (tr_slots t) p = Some prow" "pos < length prow" "live (tr_arena t) p"
    and before: "placements_before t x = (Ok before :: (tree_error, (node_index, uuid \<times> u8 \<times> u32) hmap) result)"
    and b1: "b1 = upd_node q (\<lambda>n. n\<lparr>parent := Some p\<rparr>) (upd_node p (\<lambda>n. n\<lparr>children := occupied (prow[pos := Some q])\<rparr>) (tr_arena t))"
    and moves: "sfold (reposition q (uid (tr_arena t) q)) (filter (\<lambda>c. c \<noteq> q) (occupied xrow)) []
       (t\<lparr>tr_arena := b1, tr_slots := hm_insert p (prow[pos := Some q]) (hm_insert x (xrow[qpos := None]) (tr_slots t))\<rparr>) =
       (Ok ids, t\<lparr>tr_arena := b2, tr_slots := sl\<rparr>)"
    and b3: "hm_get sl q = Some qrow" "live b2 q" "b3 = upd_node q (\<lambda>n. n\<lparr>children := occupied qrow\<rparr>) b2" "live b3 x" "spn b3 x = so"
    and rest: "retain_sponsored so x b3 = (Ok () :: (tree_error, unit) result, b4)" "reparent_sponsored [x] b4 = (Ok resp, b5)"
      "tombstone x (b5\<lparr>index := hm_remove user (index b5)\<rparr>) = (Ok () :: (tree_error, unit) result, a1)"
      "recalculate_depths q a1 = (Ok () :: (tree_error, unit) result, a2)"
      "relocations_from (t\<lparr>tr_arena := a2, tr_slots := hm_remove x sl\<rparr>) q before = (Ok rel :: (tree_error, relocation list) result)"
  shows "remove_promote_earliest x user t = (Ok \<lparr>rr_removed = user, rr_promoted = Some (uid (tr_arena t) q),
       rr_repositioned = ids, rr_moved_to_tank = [], rr_relocated = rel, rr_responsored = resp\<rparr>,
     t\<lparr>tr_arena := a2, tr_slots := hm_remove x sl\<rparr>)"
proof -
  have "live (upd_node p (\<lambda>n. n\<lparr>children := occupied (prow[pos := Some q])\<rparr>) (tr_arena t)) q"
    using q(2) live_bound [OF p(3)] by simp
  note up = arena_node_mut_upd [OF this] arena_node_mut_upd [OF p(3)] arena_node_mut_upd [OF b3(2)]
  have swap: "t\<lparr>tr_slots := m, tr_arena := a\<rparr> = t\<lparr>tr_arena := a, tr_slots := m\<rparr>" for m a by simp
  show ?thesis
    using x q p before moves b3(1,4,5) rest b1 b3(3)
    by (simp add: remove_promote_earliest_def outcome_simps slots_mut_def set_slot_def rebuild_children_def Let_def up swap)
qed

lemma remove_promote_ok:
  assumes wf: "matrix_wf t" and fit: "length (nodes (tr_arena t)) < 2 ^ 32" and x: "live (tr_arena t) x" "par (tr_arena t) x = Some p"
    and user: "user = uid (tr_arena t) x" and rem: "removable (tr_arena t) {x}" and kids: "kds (tr_arena t) x \<noteq> []"
  obtains q t' where "remove_promote_earliest x user t = (Ok (promotion_report t t' x q), t')" "matrix_wf t'" "promoted t t' x q"
proof -
  let ?a = "tr_arena t" and ?w = "usize_width t"
  note M = matrix_wfD [OF wf]
  note aw = M(4)
  have kid: "k \<in> set (kds ?a x) \<longleftrightarrow> live ?a k \<and> par ?a k = Some x" for k
    using arena_wfD(2) [OF aw] x(1) by (auto simp: links_wf_def)
  obtain q where q: "min_by_key (\<lambda>c. enrolled_at (nd ?a c)) (kds ?a x) = Some q"
    "earliest_child ?a (kds ?a x) = (Ok q :: (tree_error, node_index) result)" "q \<in> set (kds ?a x)"
    by (rule earliest_child_eq [OF _ kids, of ?a]) (use kid in auto)
  have lq: "live ?a q" "par ?a q = Some x" using q(3) kid by simp_all
  have lp: "live ?a p" by (rule par_live [OF aw x])
  have ne: "q \<noteq> x" "p \<noteq> x" "p \<noteq> q" using lq placement.up_rank [OF aw, of q x] placement.up_rank [OF aw, of x p] x by auto
  have rx: "root ?a \<noteq> Some x" using arena_wfD(7) [OF aw] x(2) by (auto simp: root_wf_def)
  obtain before where before: "placements_before t x = (Ok before :: (tree_error, (node_index, uuid \<times> u8 \<times> u32) hmap) result)"
    "\<And>j. hm_get before j = (if j \<in> set (downline ?a x 0) then Some (placement_at t j) else None)"
    by (rule placements_before_eq [OF M(3) x(1)]) blast
  obtain pos where pos: "position (\<lambda>s. s = Some x) (slot_row_of t p) = Some pos"
    "find_slot_position (tr_slots t) p x = (Ok pos :: (tree_error, nat) result)" by (rule slot_position_found [OF M(3) x])
  obtain qpos where qpos: "position (\<lambda>s. s = Some q) (slot_row_of t x) = Some qpos"
    "find_slot_position (tr_slots t) x q = (Ok qpos :: (tree_error, nat) result)" by (rule slot_position_found [OF M(3) lq])
  note rowx = slot_row_live [OF M(3) x(1)] and rowp = slot_row_live [OF M(3) lp]
  let ?prow = "(slot_row_of t p)[pos := Some q]" and ?rs = "filter (\<lambda>c. c \<noteq> q) (kds ?a x)"
  let ?sl1 = "hm_insert p ?prow (hm_insert x ((slot_row_of t x)[qpos := None]) (tr_slots t))"
  let ?b1 = "upd_node q (\<lambda>n. n\<lparr>parent := Some p\<rparr>) (upd_node p (\<lambda>n. n\<lparr>children := occupied ?prow\<rparr>) ?a)"
  let ?sl = "fold (hang_first q) ?rs ?sl1" and ?t1 = "t\<lparr>tr_arena := ?b1, tr_slots := ?sl1\<rparr>"
  have sh: "shuffled ?a x q ?rs ?w (tr_arena ?t1) (tr_slots ?t1)"
    using promoted_shuffled [OF M(3) x q(3) pos(1)] by simp
  have rs: "\<forall>r \<in> set ?rs. live ?a r \<and> r \<noteq> x \<and> root ?a \<noteq> Some r \<and> r \<noteq> q"
    using kid placement.up_rank [OF aw] x(1) arena_wfD(7) [OF aw] by (fastforce simp: root_wf_def)
  have "distinct ?rs" "0 < ?w" using placement.down_distinct [OF aw, of x] x(1) M(1) by simp_all
  note moves = repositions_ok [OF aw this(2) rx lq(1) ne(1) kid q(3) sh this(1) rs, of "uid ?a q" "[]"]
  have slt: "tr_slots ?t1 = ?sl1" by simp
  obtain b2 where
    b2: "sfold (reposition q (uid ?a q)) ?rs [] ?t1 = (Ok (map (uid ?a) ?rs), ?t1\<lparr>tr_arena := b2, tr_slots := ?sl\<rparr>)"
    "shuffled ?a x q [] ?w b2 ?sl" and apart: "\<And>j. (\<And>m. upn (par ?a) m j \<noteq> Some x) \<Longrightarrow> hm_get ?sl j = hm_get ?sl1 j"
    using moves unfolding slt append_Nil by blast
  have "upn (par ?a) m p \<noteq> Some x" for m
    using placement.upn_rank [OF aw, of x "Suc m" x] x by auto
  then have prow: "hm_get ?sl p = hm_get ?sl1 p" by (rule apart)
  let ?b3 = "upd_node q (\<lambda>n. n\<lparr>children := occupied (row_at ?sl q)\<rparr>) b2"
  obtain b4 b5 a1 where b5: "live ?b3 x" "spn ?b3 x = spn ?a x"
    "retain_sponsored (spn ?a x) x ?b3 = (Ok () :: (tree_error, unit) result, b4)"
    "reparent_sponsored [x] b4 = (Ok (handovers ?a [x]), b5)"
    "tombstone x (b5\<lparr>index := hm_remove (uid ?a x) (index b5)\<rparr>) = (Ok () :: (tree_error, unit) result, a1)"
    and se: "settled ?a x q ?w ?sl a1" by (rule promotion_steps [OF aw x(1) rem b2(2) lq(1) ne(1)])
  have rows: "hm_remove x ?sl = promoted_rows t x q" by (simp add: promoted_rows_def Let_def x(2) pos(1) qpos(1))
  let ?t' = "t\<lparr>tr_arena := leveled a1, tr_slots := hm_remove x ?sl\<rparr>"
  have "hm_get (hm_remove x ?sl) p = Some ?prow" using prow ne(2) shuffledD(7) [OF b2(2)] by simp
  then have newp: "\<forall>p' pos'. par ?a x = Some p' \<longrightarrow> position (\<lambda>s. s = Some x) (slot_row_of t p') = Some pos' \<longrightarrow>
      hm_get (hm_remove x ?sl) p' = Some ((slot_row_of t p')[pos' := Some q])" using x(2) pos(1) by simp
  have outside: "\<forall>j. (\<forall>m. upn (par ?a) m j \<noteq> Some x) \<longrightarrow> par ?a x \<noteq> Some j \<longrightarrow> hm_get (hm_remove x ?sl) j = hm_get (tr_slots t) j"
  proof (intro allI impI)
    fix j assume j: "\<forall>m. upn (par ?a) m j \<noteq> Some x" "par ?a x \<noteq> Some j"
    then have "j \<noteq> x" by (metis upn.simps(1))
    with j x(2) apart [of j] shuffledD(7) [OF b2(2)] show "hm_get (hm_remove x ?sl) j = hm_get (tr_slots t) j" by simp
  qed
  note P = settled_promoted [OF wf fit x(1) rx q(1) se rows newp outside]
  have P': "par (leveled a1) q = Some p" "set (subtree (leveled a1) q) = set (downline ?a x 0)" "unsponsored ?a (leveled a1) [x]"
    using P(2) x(2) by (simp_all add: promoted_def Let_def)
  have pq: "par a1 q = Some p" using P'(1) by (simp add: nd_leveled split: if_splits)
  have lq': "live (leveled a1) q" using unsponsored_live [OF P'(3)] lq(1) ne(1) by simp
  have depths: "recalculate_depths q a1 = (Ok () :: (tree_error, unit) result, leveled a1)"
    by (rule recalculate_depths_ok [OF settled_linked [OF se aw rx] _ _ pq settled_levels [OF se aw x(1) rx q(3)]])
      (use fit lq' unsponsoredD(13) [OF P'(3)] in simp_all)
  have same: "filter (\<lambda>j. hm_get before j \<noteq> Some (placement_at ?t' j)) (subtree (leveled a1) q) =
      filter (\<lambda>j. placement_at ?t' j \<noteq> placement_at t j) (subtree (leveled a1) q)"
    by (rule filter_cong [OF refl]) (unfold P'(2) before(2), auto)
  have reloc: "relocations_from ?t' q before = (Ok (map (relocation_at ?t')
      (filter (\<lambda>j. placement_at ?t' j \<noteq> placement_at t j) (subtree (leveled a1) q))) :: (tree_error, relocation list) result)"
    using relocations_from_eq [OF matrix_wfD(3) [OF P(1)], of q before] lq' P'(1) same by simp
  have rowq: "hm_get ?sl q = Some (row_at ?sl q)" "live b2 q"
    using row_forestD(2) [OF shuffledD(9) [OF b2(2)], of q] shuffled_live [OF b2(2)] lq(1) ne(1) by simp_all
  have "remove_promote_earliest x user t = (Ok (promotion_report t ?t' x q), ?t')"
    unfolding promotion_report_def Let_def user
    by (rule promote_eval [OF x pos(2) rowx(1) _ _ lq(1) qpos(2) _ ne(2) _ rowp(1) _ lp before(1) refl _ rowq refl b5 depths])
      (use b2(1) kids rowx(3) q(2) ne(3) reloc pos(1) qpos(1) in \<open>simp_all add: position_Some_iff\<close>)
  then show ?thesis by (rule that) (rule P)+
qed

section \<open>A leaf\<close>

lemma remove_leaf_ok:
  assumes wf: "matrix_wf t" and i: "live (tr_arena t) i" "par (tr_arena t) i = Some p" "kds (tr_arena t) i = []"
    and user: "user = uid (tr_arena t) i" and rem: "removable (tr_arena t) {i}"
  obtains t' where "remove_promote_earliest i user t = (Ok \<lparr>rr_removed = user, rr_promoted = None, rr_repositioned = [],
       rr_moved_to_tank = [], rr_relocated = [], rr_responsored = handovers (tr_arena t) [i]\<rparr>, t')"
    "detached (tr_arena t) (tr_arena t') [i]" "matrix_wf t'" "mt_tank t' = mt_tank t" "mt_width t' = mt_width t"
    "\<forall>j. j \<noteq> i \<longrightarrow> slot_row_of t' j = clear_slot i (slot_row_of t j)"
proof -
  let ?a = "tr_arena t"
  note M = matrix_wfD [OF wf]
  note aw = M(4)
  have lp: "live ?a p" by (rule par_live [OF aw i(1,2)])
  note row = slot_row_live [OF M(3) lp] and rowi = slot_row_live [OF M(3) i(1)]
  obtain pos where pos: "position (\<lambda>s. s = Some i) (slot_row_of t p) = Some pos"
    "find_slot_position (tr_slots t) p i = (Ok pos :: (tree_error, nat) result)" by (rule slot_position_found [OF M(3) i(1,2)])
  note cl = clear_position [OF pos(1), unfolded row(3), OF placement.down_distinct [OF aw, of p]]
  define b1 where "b1 = upd_node p (\<lambda>m. m\<lparr>children := filter (\<lambda>c. c \<noteq> i) (children m)\<rparr>) ?a"
  have b1: "nd b1 j = (nd ?a j)\<lparr>children := filter (\<lambda>c. c \<noteq> i) (kds ?a j)\<rparr>" for j
    by (rule leave_parent [OF aw i(1)]) (simp add: i(2) b1_def)
  have "occupied (clear_slot i (slot_row_of t p)) = filter (\<lambda>c. c \<noteq> i) (kds ?a p)"
    by (simp add: occupied_clear row(3))
  then have up: "upd_node p (\<lambda>n. n\<lparr>children := occupied (clear_slot i (slot_row_of t p))\<rparr>) ?a = b1"
    by (simp add: b1_def upd_node_def)
  obtain b2 b3 a' where s: "live b1 i" "spn b1 i = spn ?a i"
    "retain_sponsored (spn ?a i) i b1 = (Ok () :: (tree_error, unit) result, b2)" "root b2 = root ?a"
    "reparent_sponsored [i] (if root ?a = Some i then b2\<lparr>root := None\<rparr> else b2) = (Ok (handovers ?a [i]), b3)"
    "tombstone i (b3\<lparr>index := hm_remove (user_id (nd ?a i)) (index b3)\<rparr>) = (Ok () :: (tree_error, unit) result, a')"
    "detached ?a a' [i]"
    by (rule detach_steps [OF aw i(1,3) rem b1]) (simp_all add: b1_def)
  have nr: "root ?a \<noteq> Some i" using arena_wfD(7) [OF aw] i(2) by (auto simp: root_wf_def)
  let ?t' = "t\<lparr>tr_arena := a', tr_slots := hm_remove i (hm_insert p (clear_slot i (slot_row_of t p)) (tr_slots t))\<rparr>"
  have sl: "hm_remove i (hm_insert p (clear_slot i (slot_row_of t p)) (tr_slots t)) =
      hm_remove i (case par ?a i of None \<Rightarrow> tr_slots t | Some p \<Rightarrow> hm_insert p (clear_slot i (the (hm_get (tr_slots t) p))) (tr_slots t))"
    by (simp add: i(2) row(1))
  note left = slots_leaf_left [OF aw M(5) s(7) sl]
  have swap: "t\<lparr>tr_slots := m, tr_arena := a\<rparr> = t\<lparr>tr_arena := a, tr_slots := m\<rparr>" for m a by simp
  show ?thesis
  proof (rule that)
    show "remove_promote_earliest i user t = (Ok \<lparr>rr_removed = user, rr_promoted = None, rr_repositioned = [],
       rr_moved_to_tank = [], rr_relocated = [], rr_responsored = handovers ?a [i]\<rparr>, ?t')"
      using i row(1) rowi(1,3) pos(2) cl s nr user lp
      by (simp add: remove_promote_earliest_def detach_and_tombstone_def outcome_simps slots_mut_def set_slot_def
          rebuild_children_def Let_def arena_node_mut_upd [OF lp] up swap)
    show "matrix_wf ?t'"
      using wf detached_wf [OF aw s(7)] left(1) unsponsored_tank [OF M(6) detachedD(1) [OF s(7)]] by (simp add: matrix_wf_def)
    show "\<forall>j. j \<noteq> i \<longrightarrow> slot_row_of ?t' j = clear_slot i (slot_row_of t j)"
      using left(2) by (simp add: slot_row_of_def split: option.split)
  qed (use s(7) in simp_all)
qed

section \<open>The checks and the operation\<close>

definition leavers :: "arena \<Rightarrow> node_index \<Rightarrow> pruning_mode \<Rightarrow> node_index list" where
  "leavers a i mode = (case mode of PromoteEarliest \<Rightarrow> [i] | HoldingTank \<Rightarrow> subtree a i)"

lemma leavers_live: "arena_wf a \<Longrightarrow> live a i \<Longrightarrow> \<forall>j \<in> set (leavers a i mode). live a j"
  using subtree_iff [of a i] by (auto simp: leavers_def split: pruning_mode.splits)

lemma removal_set_eq: "arena_wf a \<Longrightarrow> live a i \<Longrightarrow> removal_set a i mode = Ok (leavers a i mode)"
  by (cases mode) (simp_all add: leavers_def removal_set_tank, simp add: removal_set_def)

lemma matrix_check_remove_ok:
  assumes "matrix_wf t"
  shows "matrix_check_remove_node t user mode = Ok () \<longleftrightarrow> (\<exists>i. hm_get (index (tr_arena t)) user = Some i \<and>
     root (tr_arena t) \<noteq> Some i \<and> removable (tr_arena t) (set (leavers (tr_arena t) i mode)))"
    "decided (matrix_check_remove_node t user mode)"
proof -
  let ?a = "tr_arena t"
  have wf: "arena_wf ?a" by (rule matrix_wfD(4) [OF assms])
  have "(matrix_check_remove_node t user mode = Ok () \<longleftrightarrow> (\<exists>i. hm_get (index ?a) user = Some i \<and>
     root ?a \<noteq> Some i \<and> removable ?a (set (leavers ?a i mode)))) \<and> decided (matrix_check_remove_node t user mode)"
  proof (cases "hm_get (index ?a) user")
    case (Some i)
    note li = index_live(1) [OF wf Some]
    note lv = leavers_live [OF wf li, of mode]
    have "decided (check_sponsored_removable ?a (leavers ?a i mode))"
      using lv by (auto simp: check_sponsored_removable_def check_removable_one_eq [OF wf] intro!: decided_for_each)
    then show ?thesis using Some check_sponsored_removable_ok [OF wf lv]
      by (simp add: matrix_check_remove_node_def resolve_def removal_set_eq [OF wf li])
  qed (simp add: matrix_check_remove_node_def resolve_def)
  then show "matrix_check_remove_node t user mode = Ok () \<longleftrightarrow> (\<exists>i. hm_get (index (tr_arena t)) user = Some i \<and>
     root (tr_arena t) \<noteq> Some i \<and> removable (tr_arena t) (set (leavers (tr_arena t) i mode)))"
    "decided (matrix_check_remove_node t user mode)" by blast+
qed

lemma nonroot_parent:
  assumes "arena_wf a" "live a i" "root a \<noteq> Some i"
  obtains p where "par a i = Some p"
proof (cases "par a i")
  case None
  obtain r where r: "root a = Some r" using live_root_exists [OF assms(1,2)] by blast
  then have "\<forall>j. live a j \<longrightarrow> par a j = None \<longrightarrow> j = r" using arena_wfD(7) [OF assms(1)] by (simp add: root_wf_def)
  with None assms(2) have "i = r" by blast
  with r assms(3) show ?thesis by simp
qed (rule that)

lemma matrix_remove_node_ok:
  assumes wf: "matrix_wf t" and ok: "matrix_check_remove_node t user mode = Ok ()" and fit: "length (nodes (tr_arena t)) < 2 ^ 32"
  obtains r t' where "matrix_remove_node user mode t = (Ok r, t')" "matrix_wf t'" "length (nodes (tr_arena t')) = length (nodes (tr_arena t))"
proof -
  let ?a = "tr_arena t"
  note M = matrix_wfD [OF wf]
  obtain i where ix: "hm_get (index ?a) user = Some i" and nr: "root ?a \<noteq> Some i" and rem: "removable ?a (set (leavers ?a i mode))"
    using ok by (auto simp: matrix_check_remove_ok(1) [OF wf])
  note i = index_live [OF M(4) ix]
  obtain p where p: "par ?a i = Some p" by (rule nonroot_parent [OF M(4) i(1) nr])
  have run: "matrix_remove_node user mode t = (case mode of PromoteEarliest \<Rightarrow> remove_promote_earliest i user
      | HoldingTank \<Rightarrow> remove_to_holding_tank i user) t"
    using ok ix by (simp add: matrix_remove_node_def outcome_simps resolve_def)
  show ?thesis
  proof (cases mode)
    case HoldingTank
    with rem have "removable ?a (set (subtree ?a i))" by (simp add: leavers_def)
    from remove_to_holding_tank_ok [OF wf i(1) p i(2) [symmetric] this] run HoldingTank show ?thesis
      using unsponsoredD(13) detachedD(1) by (metis (no_types, lifting) pruning_mode.case(2) that)
  next
    case PromoteEarliest
    with rem have rem: "removable ?a {i}" by (simp add: leavers_def)
    show ?thesis
    proof (cases "kds ?a i")
      case Nil
      from remove_leaf_ok [OF wf i(1) p Nil i(2) [symmetric] rem] run PromoteEarliest show ?thesis
        using unsponsoredD(13) detachedD(1) by (metis (no_types, lifting) pruning_mode.case(1) that)
    next
      case (Cons c cs)
      obtain q t' where "remove_promote_earliest i user t = (Ok (promotion_report t t' i q), t')" "matrix_wf t'" "promoted t t' i q"
        by (rule remove_promote_ok [OF wf fit i(1) p i(2) [symmetric] rem]) (simp_all add: Cons)
      with run PromoteEarliest show ?thesis
        by (intro that [of _ t']) (auto simp: promoted_def Let_def dest: unsponsoredD(13))
    qed
  qed
qed

end
