(* ===== verification/Matrix_Contract.thy ===== *)
theory Matrix_Contract
  imports Matrix_Remove
begin

text \<open>
  The contract of the matrix tree's operations: a check decides, a refused call changes nothing, an
  accepted one keeps the invariant and takes at most one new slot. Any session of calls from a new
  tree is safe.
\<close>

section \<open>Operations that grow the arena by at most one slot\<close>

locale sized_guarded = guarded inv fits chk run
  for inv :: "'s \<Rightarrow> bool" and fits :: "'i \<Rightarrow> 's \<Rightarrow> bool"
    and chk :: "'i \<Rightarrow> 's \<Rightarrow> ('e, unit) result" and run :: "'i \<Rightarrow> ('s, 'e, 'a) sm" +
  fixes size_of :: "'s \<Rightarrow> nat"
  assumes grows: "inv s \<Longrightarrow> fits i s \<Longrightarrow> chk i s = Ok () \<Longrightarrow> run i s = (Ok x, s') \<Longrightarrow> size_of s' \<le> Suc (size_of s)"
begin

lemma run_settles:
  assumes "inv s" "fits i s"
  shows "\<exists>r s'. sbind (run i) (\<lambda>_. sret ()) s = (r, s') \<and> ((\<exists>x. r = Ok x) \<or> (\<exists>e. r = Err e)) \<and>
     inv s' \<and> size_of s' \<le> Suc (size_of s)"
proof (rule run_cases [OF assms])
  fix e assume "run i s = (Err e, s)"
  then show ?thesis using assms(1) by (simp add: sbind_def)
next
  fix x s' assume run: "chk i s = Ok ()" "run i s = (Ok x, s')" "inv s'"
  from grows [OF assms run(1,2)] run show ?thesis by (simp add: sbind_def sret_apply)
qed

end

section \<open>The operations\<close>

definition matrix_fits :: "matrix_tree \<Rightarrow> bool" where
  "matrix_fits t \<longleftrightarrow> length (nodes (tr_arena t)) < 2 ^ 32"

abbreviation matrix_size :: "matrix_tree \<Rightarrow> nat" where
  "matrix_size t \<equiv> length (nodes (tr_arena t))"

interpretation matrix_root_op: sized_guarded matrix_wf "\<lambda>_ _. True"
  "\<lambda>(user, at) t. matrix_check_add_root t user" "\<lambda>(user, at). matrix_add_root user at" matrix_size
proof (unfold_locales, goal_cases)
  case (1 t i)
  then show ?case using decided_unit [OF matrix_check_add_root_ok(2), of t] by (cases i) auto
next
  case (2 t i e)
  then show ?case by (cases i) (simp add: matrix_add_root_def outcome_simps)
next
  case (3 t i)
  obtain user at where i: "i = (user, at)" by (cases i)
  with 3 have "matrix_check_add_root t user = Ok ()" by simp
  from matrix_add_root_ok [OF 3(1) this, of at] i show ?case by (metis (no_types, lifting) case_prod_conv)
next
  case (4 t i x t')
  obtain user at where i: "i = (user, at)" by (cases i)
  with 4 have "matrix_check_add_root t user = Ok ()" by simp
  from matrix_add_root_ok [OF 4(1) this, of at] i 4(4) attachedD(15) show ?case by (metis (no_types, lifting) case_prod_conv prod.inject)
qed

interpretation matrix_node_at_op: sized_guarded matrix_wf "\<lambda>_. matrix_fits"
  "\<lambda>(user, s, p, pos, at) t. matrix_check_add_node_at t user s p pos"
  "\<lambda>(user, s, p, pos, at). matrix_add_node_at user s p pos at" matrix_size
proof (unfold_locales, goal_cases)
  case (1 t i)
  obtain user s p pos at where "i = (user, s, p, pos, at)" by (cases i) auto
  then show ?case using decided_unit [OF matrix_check_add_node_at_ok(2) [OF 1, of user s p pos]] by auto
next
  case (2 t i e)
  then show ?case by (cases i) (simp add: matrix_add_node_at_def outcome_simps)
next
  case (3 t i)
  obtain user s p pos at where i: "i = (user, s, p, pos, at)" by (cases i) auto
  with 3 have "matrix_check_add_node_at t user s p pos = Ok ()" "matrix_size t < 2 ^ 32" by (simp_all add: matrix_fits_def)
  from matrix_add_node_at_ok [OF 3(1) this, of at] i show ?case by (metis (no_types, lifting) case_prod_conv)
next
  case (4 t i x t')
  obtain user s p pos at where i: "i = (user, s, p, pos, at)" by (cases i) auto
  with 4 have "matrix_check_add_node_at t user s p pos = Ok ()" "matrix_size t < 2 ^ 32" by (simp_all add: matrix_fits_def)
  from matrix_add_node_at_ok [OF 4(1) this, of at] i 4(4) attachedD(15) show ?case
    by (metis (no_types, lifting) case_prod_conv prod.inject)
qed

definition matrix_check_add_node :: "matrix_tree \<Rightarrow> uuid \<Rightarrow> uuid \<Rightarrow> (tree_error, unit) result" where
  "matrix_check_add_node t user s = bnd (check_new_member t user) (\<lambda>_. bnd (resolve_sponsor (tr_arena t) s) (\<lambda>_. Ok ()))"

lemma matrix_check_add_node_ok:
  "matrix_check_add_node t user s = Ok () \<longleftrightarrow> check_new_member t user = Ok () \<and> (\<exists>si. hm_get (index (tr_arena t)) s = Some si)"
  "decided (matrix_check_add_node t user s)"
  using check_new_member_ok(2) [of t user]
  by (cases "hm_get (index (tr_arena t)) s";
      auto simp: matrix_check_add_node_def resolve_sponsor_def resolve_def intro!: decided_bnd)+

interpretation matrix_node_op: sized_guarded matrix_wf "\<lambda>_. matrix_fits"
  "\<lambda>(user, s, at) t. matrix_check_add_node t user s" "\<lambda>(user, s, at). matrix_add_node user s at" matrix_size
proof (unfold_locales, goal_cases)
  case (1 t i)
  then show ?case using decided_unit [OF matrix_check_add_node_ok(2), of t] by (cases i) auto
next
  case (2 t i e)
  obtain user s at where i: "i = (user, s, at)" by (cases i) auto
  with 2 show ?case
    by (cases "check_new_member t user"; cases "resolve_sponsor (tr_arena t) s")
      (simp_all add: matrix_check_add_node_def matrix_add_node_def outcome_simps)
next
  case (3 t i)
  obtain user s at where i: "i = (user, s, at)" by (cases i) auto
  with 3 obtain si where "check_new_member t user = Ok ()" "hm_get (index (tr_arena t)) s = Some si" "matrix_size t < 2 ^ 32"
    by (auto simp: matrix_fits_def matrix_check_add_node_ok(1))
  from matrix_add_node_ok [OF 3(1) this, of at] i show ?case by (metis (no_types, lifting) case_prod_conv)
next
  case (4 t i x t')
  obtain user s at where i: "i = (user, s, at)" by (cases i) auto
  with 4 obtain si where "check_new_member t user = Ok ()" "hm_get (index (tr_arena t)) s = Some si" "matrix_size t < 2 ^ 32"
    by (auto simp: matrix_fits_def matrix_check_add_node_ok(1))
  from matrix_add_node_ok [OF 4(1) this, of at] i 4(4) attachedD(15) show ?case
    by (metis (no_types, lifting) case_prod_conv prod.inject)
qed

interpretation matrix_tank_op: sized_guarded matrix_wf "\<lambda>_. matrix_fits"
  "\<lambda>(user, p, pos) t. bnd (check_place_from_tank t user p pos) (\<lambda>_. Ok ())"
  "\<lambda>(user, p, pos). place_from_tank user p pos" matrix_size
proof (unfold_locales, goal_cases)
  case (1 t i)
  obtain user p pos where "i = (user, p, pos)" by (cases i) auto
  then show ?case using check_place_from_tank_ok(2) [OF 1, of user p pos] by (cases "check_place_from_tank t user p pos") auto
next
  case (2 t i e)
  obtain user p pos where i: "i = (user, p, pos)" by (cases i) auto
  with 2 show ?case by (cases "check_place_from_tank t user p pos") (simp_all add: place_from_tank_def outcome_simps)
next
  case (3 t i)
  obtain user p pos where i: "i = (user, p, pos)" by (cases i) auto
  with 3 obtain pi k where "check_place_from_tank t user p pos = Ok (pi, k)" "matrix_size t < 2 ^ 32"
    by (auto simp: matrix_fits_def)
  from place_from_tank_ok [OF 3(1) this] i show ?case by (metis (no_types, lifting) case_prod_conv)
next
  case (4 t i x t')
  obtain user p pos where i: "i = (user, p, pos)" by (cases i) auto
  with 4 obtain pi k where "check_place_from_tank t user p pos = Ok (pi, k)" "matrix_size t < 2 ^ 32"
    by (auto simp: matrix_fits_def)
  from place_from_tank_ok [OF 4(1) this] i 4(4) attachedD(15) show ?case
    by (metis (no_types, lifting) case_prod_conv prod.inject)
qed

interpretation matrix_remove_op: sized_guarded matrix_wf "\<lambda>_. matrix_fits"
  "\<lambda>(user, mode) t. matrix_check_remove_node t user mode" "\<lambda>(user, mode). matrix_remove_node user mode" matrix_size
proof (unfold_locales, goal_cases)
  case (1 t i)
  then show ?case using decided_unit [OF matrix_check_remove_ok(2) [OF 1]] by (cases i) auto
next
  case (2 t i e)
  then show ?case by (cases i) (simp add: matrix_remove_node_def outcome_simps)
next
  case (3 t i)
  obtain user mode where i: "i = (user, mode)" by (cases i)
  with 3 have "matrix_check_remove_node t user mode = Ok ()" "matrix_size t < 2 ^ 32" by (simp_all add: matrix_fits_def)
  from matrix_remove_node_ok [OF 3(1) this] i show ?case by (metis (no_types, lifting) case_prod_conv)
next
  case (4 t i x t')
  obtain user mode where i: "i = (user, mode)" by (cases i)
  with 4 have "matrix_check_remove_node t user mode = Ok ()" "matrix_size t < 2 ^ 32" by (simp_all add: matrix_fits_def)
  from matrix_remove_node_ok [OF 4(1) this] i 4(4) show ?case
    by (metis (no_types, lifting) case_prod_conv prod.inject le_Suc_eq order_refl)
qed

section \<open>Sessions\<close>

datatype matrix_call = MxAddRoot uuid i64 | MxAddNode uuid uuid i64 | MxAddNodeAt uuid uuid uuid u8 i64
  | MxRemove uuid pruning_mode | MxPlace uuid uuid u8

fun matrix_exec :: "matrix_call \<Rightarrow> (matrix_tree, tree_error, unit) sm" where
  "matrix_exec (MxAddRoot user at) = sbind (matrix_add_root user at) (\<lambda>_. sret ())"
| "matrix_exec (MxAddNode user s at) = sbind (matrix_add_node user s at) (\<lambda>_. sret ())"
| "matrix_exec (MxAddNodeAt user s p pos at) = sbind (matrix_add_node_at user s p pos at) (\<lambda>_. sret ())"
| "matrix_exec (MxRemove user mode) = sbind (matrix_remove_node user mode) (\<lambda>_. sret ())"
| "matrix_exec (MxPlace user p pos) = sbind (place_from_tank user p pos) (\<lambda>_. sret ())"

lemma matrix_exec_step:
  assumes wf: "matrix_wf t" and fit: "matrix_size t < 2 ^ 32"
  shows "\<exists>r t'. matrix_exec c t = (r, t') \<and> ((\<exists>x. r = Ok x) \<or> (\<exists>e. r = Err e)) \<and>
     matrix_wf t' \<and> matrix_size t' \<le> Suc (matrix_size t)"
proof -
  have fit': "matrix_fits t" using fit by (simp add: matrix_fits_def)
  show ?thesis
    using matrix_root_op.run_settles [OF wf TrueI] matrix_node_op.run_settles [OF wf fit']
      matrix_node_at_op.run_settles [OF wf fit'] matrix_remove_op.run_settles [OF wf fit']
      matrix_tank_op.run_settles [OF wf fit']
    by (cases c) auto
qed

lemma matrix_new_wf: "matrix_new w dir = Ok t \<Longrightarrow> matrix_wf t"
  using arena_new_wf
  by (auto simp: matrix_new_def matrix_wf_def slots_wf_def tank_wf_def live_def nd_def arena_new_def
      split: if_splits spillover_direction.splits) (cases dir; auto)

lemma matrix_session_wf:
  assumes "matrix_new w dir = Ok t0" "length calls \<le> 2 ^ 32"
  shows "\<exists>t. sfor (\<lambda>c. settle (matrix_exec c)) calls t0 = (Ok (), t) \<and> matrix_wf t"
proof (rule session_safe [where size_of = matrix_size and n = "2 ^ 32"])
  show "matrix_wf t0" by (rule matrix_new_wf [OF assms(1)])
  show "matrix_size t0 + length calls \<le> 2 ^ 32" using assms by (auto simp: matrix_new_def arena_new_def split: if_splits)
qed (use matrix_exec_step in auto)

end
