(* ===== verification/Matrix_View.thy ===== *)
theory Matrix_View
  imports Matrix_Contract
begin

text \<open>
  The matrix tree seen by its members: sponsors that take over when a whole subtree leaves, the
  placement of a member, and what the two ways to remove a member do to the genealogy.
\<close>

section \<open>Heirs\<close>

definition g_heir :: "genealogy \<Rightarrow> uuid set \<Rightarrow> uuid \<Rightarrow> uuid option" where
  "g_heir g R u = find (\<lambda>s. s \<notin> R) (chain (g_sponsor g) (card (g_members g)) u)"

lemma find_rename: "find P (map f xs) = map_option f (find (\<lambda>x. P (f x)) xs)"
  by (induction xs) auto

lemma heir_uid:
  assumes wf: "arena_wf a" and i: "live a i" and R: "\<forall>j \<in> set R. live a j"
  shows "g_heir (genealogy_of a) (uid a ` set R) (uid a i) = map_option (uid a) (heir a (set R) i)"
proof -
  have full: "chain (spn a) (card (live_set a)) i = chain (spn a) (length (nodes a)) i"
    using sponsorship.chain_full [OF wf, of i "length (nodes a)"] card_live [of a] i by simp
  have "find (\<lambda>x. uid a x \<notin> uid a ` set R) (chain (spn a) (length (nodes a)) i) =
      find (\<lambda>x. x \<notin> set R) (chain (spn a) (length (nodes a)) i)"
  proof (rule find_cong [OF refl])
    fix j assume "j \<in> set (chain (spn a) (length (nodes a)) i)"
    then have "live a j" using sponsorship.chain_in_live [OF wf] i by fastforce
    then show "(uid a j \<notin> uid a ` set R) = (j \<notin> set R)" by (simp add: uid_listed [OF wf])
  qed
  then show ?thesis
    by (simp add: g_heir_def heir_def card_members [OF wf] sponsor_chain_uid [OF wf i] full find_rename)
qed

text \<open>The members that stay, after \<open>R\<close> has left with everybody below.\<close>

lemma detached_members:
  assumes wf: "arena_wf a" and un: "unsponsored a a' R"
  shows "g_members (genealogy_of a') = g_members (genealogy_of a) - uid a ` set R"
  using unsponsoredD(5) [OF un] by (auto simp: genealogy_of_def split: if_splits)

lemma stays:
  assumes wf: "arena_wf a" and un: "unsponsored a a' R" and v: "v \<in> g_members (genealogy_of a')"
  obtains j where "v = uid a j" "v = uid a' j" "live a j" "j \<notin> set R" "live a' j"
proof -
  have wf': "v \<in> g_members (genealogy_of a)" "v \<notin> uid a ` set R" using v detached_members [OF wf un] by auto
  obtain j where j: "live a j" "uid a j = v" by (rule member_slot [OF wf wf'(1)])
  then have "j \<notin> set R" using wf'(2) by blast
  with j unsponsored_live [OF un, of j] unsponsoredD(7) [OF un, of j] show ?thesis by (intro that) auto
qed

lemma uid_stays: "unsponsored a a' R \<Longrightarrow> live a' j \<Longrightarrow> uid a' j = uid a j"
  using unsponsored_live [of a a' R j] unsponsoredD(7) [of a a' R j] by blast

lemma unsponsored_sponsor:
  assumes wf: "arena_wf a" and wf': "arena_wf a'" and un: "unsponsored a a' R" and v: "v \<in> g_members (genealogy_of a')"
  shows "g_sponsor (genealogy_of a') v = g_heir (genealogy_of a) (uid a ` set R) v"
proof -
  obtain j where j: "v = uid a j" "v = uid a' j" "live a j" "j \<notin> set R" "live a' j" by (rule stays [OF wf un v])
  have "spn a' j = heir a (set R) j" by (rule unsponsoredD(8) [OF un j(4,3)])
  moreover have "map_option (uid a') (heir a (set R) j) = map_option (uid a) (heir a (set R) j)"
    using heir_Some [OF wf j(3)] unsponsored_live [OF un] uid_stays [OF un] by (cases "heir a (set R) j") auto
  ultimately show ?thesis
    using g_sponsor_uid [OF wf' j(5)] heir_uid [OF wf j(3) unsponsoredD(2) [OF un]] j(1,2) by simp
qed

lemma detached_stays:
  assumes wf: "arena_wf a" and de: "detached a a' R" and v: "v \<in> g_members (genealogy_of a')"
  shows "g_parent (genealogy_of a') v = g_parent (genealogy_of a) v"
    "g_children (genealogy_of a') v = filter (\<lambda>c. c \<notin> uid a ` set R) (g_children (genealogy_of a) v)"
    "g_depth (genealogy_of a') v = g_depth (genealogy_of a) v"
    "g_enrolled (genealogy_of a') v = g_enrolled (genealogy_of a) v"
proof -
  note D = detachedD [OF de] and wf' = detached_wf [OF wf de]
  note un = D(1)
  obtain j where j: "v = uid a j" "v = uid a' j" "live a j" "j \<notin> set R" "live a' j" by (rule stays [OF wf un v])
  have "map_option (uid a') (par a' j) = map_option (uid a) (par a j)"
    using D(3) [OF j(4)] par_live [OF wf' j(5)] uid_stays [OF un] by (cases "par a j") auto
  then show "g_parent (genealogy_of a') v = g_parent (genealogy_of a) v"
    using g_parent_uid [OF wf' j(5)] g_parent_uid [OF wf j(3)] j(1,2) by simp
  have "map (uid a') (kds a' j) = map (uid a) (kds a' j)"
    by (rule map_cong [OF refl], rule uid_stays [OF un], rule kds_live [OF wf' j(5)])
  moreover have "filter (\<lambda>k. k \<notin> set R) (kds a j) = filter (\<lambda>k. uid a k \<notin> uid a ` set R) (kds a j)"
    by (rule filter_cong [OF refl]) (simp add: uid_listed [OF wf] kds_live [OF wf j(3)])
  then have "map (uid a) (filter (\<lambda>k. k \<notin> set R) (kds a j)) = filter (\<lambda>c. c \<notin> uid a ` set R) (map (uid a) (kds a j))"
    by (simp add: filter_map o_def)
  ultimately show "g_children (genealogy_of a') v = filter (\<lambda>c. c \<notin> uid a ` set R) (g_children (genealogy_of a) v)"
    using g_children_uid [OF wf' j(5)] g_children_uid [OF wf j(3)] j(1,2) D(5) [OF j(4)] by simp
  show "g_depth (genealogy_of a') v = g_depth (genealogy_of a) v"
    using g_depth_uid [OF wf' j(5)] g_depth_uid [OF wf j(3)] j(1,2) D(4) [OF j(4)] by simp
  show "g_enrolled (genealogy_of a') v = g_enrolled (genealogy_of a) v"
    using j D(7) [OF j(4)] node_at_uid [OF wf' j(5)] node_at_uid [OF wf j(3)] by (simp add: genealogy_of_def)
qed

lemma detached_rows:
  assumes wf: "slotted_wf w t" and de: "detached (tr_arena t) (tr_arena t') R" and v: "v \<in> g_members (genealogy_of (tr_arena t'))"
    and sl: "\<And>j. j \<notin> set R \<Longrightarrow> slot_row_of t' j = clear_slot i (slot_row_of t j)" and i: "i \<in> set R"
    and tops: "\<And>k. k \<in> set R \<Longrightarrow> k \<noteq> i \<Longrightarrow> par (tr_arena t) k \<noteq> None \<and> the (par (tr_arena t) k) \<in> set R"
  shows "member_rows t' v = map (\<lambda>s. if s = Some (uid (tr_arena t) i) then None else s) (member_rows t v)"
proof -
  let ?a = "tr_arena t" and ?a' = "tr_arena t'"
  have aw: "arena_wf ?a" using wf by simp
  note un = detachedD(1) [OF de]
  note U = unsponsoredD [OF un]
  obtain j where j: "v = uid ?a j" "v = uid ?a' j" "live ?a j" "j \<notin> set R" "live ?a' j" by (rule stays [OF aw un v])
  have get: "hm_get (index ?a) v = Some j" "hm_get (index ?a') v = Some j"
    using live_indexed [OF aw j(3)] live_indexed [OF detached_wf [OF aw de] j(5)] j(1,2) by simp_all
  have li: "live ?a i" using U(2) i by blast
  have "map_option (uid ?a') (if s = Some i then None else s) =
      (if map_option (uid ?a) s = Some (uid ?a i) then None else map_option (uid ?a) s)" if "s \<in> set (slot_row_of t j)" for s
  proof (cases s)
    case (Some c)
    have lc: "live ?a c" using slot_row_live(4) [OF wf j(3)] that Some by blast
    have "par ?a c = Some j" using Some that slot_row_live(3) [OF wf j(3)] lc aw
      by (metis arena_wfD(2) j(3) links_wf_def occupied_set)
    then have "c \<notin> set R" if "c \<noteq> i" using tops [of c] that j(4) by auto
    then show ?thesis using Some U(7) [of c] uid_eq_iff [OF aw li, of c] by (auto dest: sym)
  qed simp
  then have "map (map_option (uid ?a')) (clear_slot i (slot_row_of t j)) =
      map (\<lambda>s. if s = Some (uid ?a i) then None else s) (map (map_option (uid ?a)) (slot_row_of t j))"
    unfolding map_map o_def by (intro map_cong refl)
  then show ?thesis by (simp only: member_rows_def get option.case sl [OF j(4)])
qed

section \<open>Placements\<close>

definition m_placement :: "matrix_tree \<Rightarrow> uuid \<Rightarrow> uuid \<times> u8 \<times> u32" where
  "m_placement t v = (let g = genealogy_of (tr_arena t); p = the (g_parent g v) in
     (p, of_nat (the (position (\<lambda>s. s = Some v) (member_rows t p))), of_nat (g_depth g v)))"

definition m_relocation :: "matrix_tree \<Rightarrow> uuid \<Rightarrow> relocation" where
  "m_relocation t v = (case m_placement t v of (p, pos, d) \<Rightarrow>
     \<lparr>rl_user_id = v, rl_parent_id = p, rl_position = pos, rl_depth = d\<rparr>)"

lemma position_rename:
  assumes "inj_on f (insert x {c. Some c \<in> set row})"
  shows "position (\<lambda>s. s = Some (f x)) (map (map_option f) row) = position (\<lambda>s. s = Some x) row"
  using assms
proof (induction row)
  case (Cons s row)
  have "inj_on f (insert x {c. Some c \<in> set row})" by (rule inj_on_subset [OF Cons.prems]) auto
  moreover have "map_option f s = Some (f x) \<longleftrightarrow> s = Some x"
    using Cons.prems by (cases s) (auto simp: inj_on_def)
  ultimately show ?case using Cons.IH by simp
qed simp

lemma placement_uid:
  assumes wf: "slotted_wf w t" and j: "live (tr_arena t) j" "par (tr_arena t) j \<noteq> None"
  shows "placement_at t j = m_placement t (uid (tr_arena t) j)"
proof -
  let ?a = "tr_arena t"
  have aw: "arena_wf ?a" using wf by simp
  obtain p where p: "par ?a j = Some p" using j(2) by blast
  note lp = par_live [OF aw j(1) p]
  have "inj_on (uid ?a) (insert j {c. Some c \<in> set (slot_row_of t p)})"
    using slot_row_live(4) [OF wf lp] j(1) by (intro inj_onI) (auto simp: uid_eq_iff [OF aw])
  from position_rename [OF this] show ?thesis
    using p by (simp add: placement_at_def m_placement_def Let_def g_parent_uid [OF aw j(1)] g_depth_uid [OF aw j(1)]
        member_rows_uid [OF wf lp])
qed

end
