(* ===== verification/Matrix_Props.thy ===== *)
theory Matrix_Props
  imports Matrix_View
begin

text \<open>
  The properties of the matrix tree, over members: safety of sessions, the validator, placement
  by spillover, by hand and from the tank, the two ways to remove a member, and the queries.
\<close>

section \<open>Sessions and validation\<close>

lemma matrix_wf_validates: "matrix_wf t \<Longrightarrow> matrix_validate_restored t = Ok ()"
  using matrix_validate_wf [of t] matrix_wfD(4,5) [of t] arena_wfD(1) [of "tr_arena t"]
  by (auto simp: index_wf_def slots_wf_def)

text \<open>
  C13. Sessions from a new matrix tree are safe: after any sequence of at most \<open>2 ^ 32\<close> calls
  (placements by spillover, by hand and from the tank, removals of either kind), each of which may
  be refused, no call has panicked or looped, the tree is well formed, and a snapshot of it passes
  the validator.
\<close>

theorem matrix_session_safe:
  assumes "matrix_new w dir = Ok t0" "length calls \<le> 2 ^ 32"
  shows "\<exists>t. sfor (\<lambda>c. settle (matrix_exec c)) calls t0 = (Ok (), t) \<and> matrix_wf t \<and> matrix_validate_restored t = Ok ()"
  using matrix_session_wf [OF assms] matrix_wf_validates by blast

text \<open>
  C14. The validator of a restored matrix tree comes to a verdict on every snapshot, and accepts
  exactly the well-formed trees, the tank and its sponsor chains included.
\<close>

theorem matrix_validate_exact:
  assumes "hm_ok (index (tr_arena t))" "hm_ok (tr_slots t)"
  shows "decided (matrix_validate_restored t) \<and> (matrix_validate_restored t = Ok () \<longleftrightarrow> matrix_wf t)"
  using matrix_validate_wf [OF assms] matrix_validate_decided by blast

section \<open>Placements\<close>

definition m_open :: "matrix_tree \<Rightarrow> uuid \<Rightarrow> (uuid \<times> nat) option" where
  "m_open t v = map_option (Pair v) (position (\<lambda>s. s = None) (member_rows t v))"

lemma position_map: "position P (map f xs) = position (\<lambda>x. P (f x)) xs"
  by (induction xs) auto

lemma m_open_uid:
  assumes "slotted_wf w t" "live (tr_arena t) i"
  shows "m_open t (uid (tr_arena t) i) = map_option (\<lambda>(j, pos). (uid (tr_arena t) j, pos)) (open_slot (tr_slots t) i)"
  using slot_row_live(1) [OF assms] member_rows_uid [OF assms]
  by (simp add: m_open_def open_slot_def position_map option.map_comp o_def)

lemma find_map_rename:
  "(\<And>x. x \<in> set xs \<Longrightarrow> f (r x) = map_option h (g x)) \<Longrightarrow> find_map f (map r xs) = map_option h (find_map g xs)"
  by (induction xs) (auto split: option.split)

lemma matrix_add_node_spills:
  assumes wf: "matrix_wf t" and fit: "matrix_fits t" and run: "matrix_add_node user s at t = (Ok i, t')"
  obtains p pos where "find_map (m_open t) (s # g_downline (genealogy_of (tr_arena t)) s 0) = Some (p, pos)"
    "genealogy_of (tr_arena t') = g_join user (Some p) (occupied ((member_rows t p)[pos := Some user])) (Some s) at
       (genealogy_of (tr_arena t))"
    "member_rows t' = (member_rows t)(user := replicate (usize_width t) None, p := (member_rows t p)[pos := Some user])"
    "mt_tank t' = mt_tank t"
proof -
  let ?a = "tr_arena t"
  note M = matrix_wfD [OF wf]
  have "matrix_check_add_node t user s = Ok ()"
    using matrix_node_op.run_checked [OF wf, of "(user, s, at)"] run by simp
  then obtain si where ok: "check_new_member t user = Ok ()" and si: "hm_get (index ?a) s = Some si"
    by (auto simp: matrix_check_add_node_ok(1))
  have room: "length (nodes ?a) < 2 ^ 32" using fit by (simp add: matrix_fits_def)
  obtain t'' pi pos where r: "matrix_add_node user s at t = (Ok (next_slot ?a), t'')"
    and f: "find_map (open_slot (tr_slots t)) (si # downline ?a si 0) = Some (pi, pos)"
    and pi: "live ?a pi" and pos: "pos < usize_width t" "slot_row_of t pi ! pos = None"
    and att: "attached ?a (tr_arena t'') (next_slot ?a) (child_node user pi (Some si) (depth (nd ?a pi) + 1) at)
       (occupied ((slot_row_of t pi)[pos := Some (next_slot ?a)]))"
    and sl: "tr_slots t'' = row_placed (usize_width t) pi (slot_row_of t pi) pos (next_slot ?a) (tr_slots t)"
    and tank: "mt_tank t'' = mt_tank t"
    by (rule matrix_add_node_ok [OF wf ok si room])
  have t'': "t'' = t'" using r run by simp
  note ls = index_live [OF M(4) si]
  note ref = slotted_placed_refines [OF M(3) pi att [unfolded t''] sl [unfolded t'']]
  have live: "live ?a x" if "x \<in> set (si # downline ?a si 0)" for x
    using that subtree_iff [OF M(4) ls(1), of x] by blast
  have "find_map (m_open t) (map (uid ?a) (si # downline ?a si 0)) =
      map_option (\<lambda>(j, pos). (uid ?a j, pos)) (find_map (open_slot (tr_slots t)) (si # downline ?a si 0))"
    by (rule find_map_rename) (rule m_open_uid [OF M(3) live])
  then have "find_map (m_open t) (s # g_downline (genealogy_of ?a) s 0) = Some (uid ?a pi, pos)"
    using f downline_uid [OF M(4) ls(1), of 0] ls(2) by simp
  then show ?thesis by (rule that) (use ref ls(2) tank t'' in simp_all)
qed

text \<open>
  C15. Automatic placement fills the first open position of the sponsor and its downline, breadth
  first and left to right, and refines the abstract join there: the new member gets a row of open
  positions, the tank and everything else stay as they were.
\<close>

theorem matrix_add_node_first_open:
  assumes "matrix_wf t" "matrix_fits t" "matrix_add_node user s at t = (Ok i, t')"
  shows "let g = genealogy_of (tr_arena t) in \<exists>p pos.
     find_map (m_open t) (s # g_downline g s 0) = Some (p, pos) \<and>
     genealogy_of (tr_arena t') = g_join user (Some p) (occupied ((member_rows t p)[pos := Some user])) (Some s) at g \<and>
     member_rows t' = (member_rows t)(user := replicate (usize_width t) None, p := (member_rows t p)[pos := Some user]) \<and>
     mt_tank t' = mt_tank t"
  unfolding Let_def by (rule matrix_add_node_spills [OF assms]) blast


text \<open>
  C19. Placement by hand refines the abstract join at the named position: it was inside the row
  and open, and nothing but that position, the new row and the sponsor's recruits changes.
\<close>

theorem matrix_add_node_at_refines:
  assumes "matrix_wf t" "matrix_fits t" "matrix_add_node_at user s p pos at t = (Ok i, t')"
  shows "let g = genealogy_of (tr_arena t); row = (member_rows t p)[unat pos := Some user] in
     unat pos < length (member_rows t p) \<and> member_rows t p ! unat pos = None \<and> user \<notin> g_members g \<and> \<not> in_tank t user \<and>
     genealogy_of (tr_arena t') = g_join user (Some p) (occupied row) (Some s) at g \<and>
     member_rows t' = (member_rows t)(user := replicate (usize_width t) None, p := row) \<and> mt_tank t' = mt_tank t"
proof -
  let ?a = "tr_arena t"
  note M = matrix_wfD [OF assms(1)]
  have ok: "matrix_check_add_node_at t user s p pos = Ok ()"
    using matrix_node_at_op.run_checked [OF assms(1), of "(user, s, p, pos, at)"] assms(3) by simp
  have room: "length (nodes ?a) < 2 ^ 32" using assms(2) by (simp add: matrix_fits_def)
  obtain t'' pi si where r: "matrix_add_node_at user s p pos at t = (Ok (next_slot ?a), t'')"
    and ix: "hm_get (index ?a) p = Some pi" "hm_get (index ?a) s = Some si"
    and att: "attached ?a (tr_arena t'') (next_slot ?a) (child_node user pi (Some si) (depth (nd ?a pi) + 1) at)
       (occupied ((slot_row_of t pi)[unat pos := Some (next_slot ?a)]))"
    and sl: "tr_slots t'' = row_placed (usize_width t) pi (slot_row_of t pi) (unat pos) (next_slot ?a) (tr_slots t)"
    and tank: "mt_tank t'' = mt_tank t"
    by (rule matrix_add_node_at_ok [OF assms(1) ok room])
  have t'': "t'' = t'" using r assms(3) by simp
  note pi = index_live [OF M(4) ix(1)] and si = index_live [OF M(4) ix(2)]
  note ref = slotted_placed_refines [OF M(3) pi(1) att [unfolded t''] sl [unfolded t'']]
  have mr: "member_rows t p = map (map_option (uid ?a)) (slot_row_of t pi)"
    using member_rows_uid [OF M(3) pi(1)] pi(2) by simp
  have "unat pos < usize_width t" "slot_row_of t pi ! unat pos = None" "hm_get (index ?a) user = None" "user \<notin> ht_user_id ` set (mt_tank t)"
    using ok ix by (auto simp: matrix_check_add_node_at_ok(1) [OF assms(1)])
  then show ?thesis
    using ref pi(2) si(2) tank t'' slot_row_live(2) [OF M(3) pi(1)] in_tank_iff [of user t]
    by (simp add: Let_def mr) (simp add: genealogy_of_def)
qed

section \<open>The holding tank\<close>

text \<open>
  C18. Placement from the tank takes exactly the member's entry out of it and refines the abstract
  join at the named open position, with the recorded enrolment; its sponsor is the recorded one if
  that member is placed, and nobody otherwise.
\<close>

theorem matrix_place_from_tank_refines:
  assumes "matrix_wf t" "matrix_fits t" "place_from_tank user p pos t = (Ok (), t')"
  shows "let g = genealogy_of (tr_arena t); row = (member_rows t p)[unat pos := Some user] in
     \<exists>xs e ys. mt_tank t = xs @ e # ys \<and> mt_tank t' = xs @ ys \<and> ht_user_id e = user \<and>
       unat pos < length (member_rows t p) \<and> member_rows t p ! unat pos = None \<and>
       genealogy_of (tr_arena t') = g_join user (Some p) (occupied row)
         (case ht_sponsor_user_id e of None \<Rightarrow> None | Some s \<Rightarrow> if s \<in> g_members g then Some s else None) (ht_enrolled_at e) g \<and>
       member_rows t' = (member_rows t)(user := replicate (usize_width t) None, p := row)"
proof -
  let ?a = "tr_arena t"
  note M = matrix_wfD [OF assms(1)]
  have "bnd (check_place_from_tank t user p pos) (\<lambda>_. Ok ()) = Ok ()"
    using matrix_tank_op.run_checked [OF assms(1), of "(user, p, pos)"] assms(3) by simp
  then obtain pi k where ok: "check_place_from_tank t user p pos = Ok (pi, k)" by auto
  note C = ok [unfolded check_place_from_tank_ok(1) [OF assms(1)]]
  have room: "length (nodes ?a) < 2 ^ 32" using assms(2) by (simp add: matrix_fits_def)
  let ?e = "mt_tank t ! k"
  let ?so = "case ht_sponsor_user_id ?e of None \<Rightarrow> None | Some s \<Rightarrow> hm_get (index ?a) s"
  obtain t'' where r: "place_from_tank user p pos t = (Ok (), t'')"
    and att: "attached ?a (tr_arena t'') (next_slot ?a) (child_node user pi ?so (depth (nd ?a pi) + 1) (ht_enrolled_at ?e))
       (occupied ((slot_row_of t pi)[unat pos := Some (next_slot ?a)]))"
    and sl: "tr_slots t'' = row_placed (usize_width t) pi (slot_row_of t pi) (unat pos) (next_slot ?a) (tr_slots t)"
    and tank: "mt_tank t'' = take k (mt_tank t) @ drop (Suc k) (mt_tank t)"
    by (rule place_from_tank_ok [OF assms(1) ok room])
  have t'': "t'' = t'" using r assms(3) by simp
  have pi: "live ?a pi" "uid ?a pi = p" using C index_live [OF M(4)] by blast+
  note ref = slotted_placed_refines [OF M(3) pi(1) att [unfolded t''] sl [unfolded t'']]
  have so: "map_option (uid ?a) ?so = (case ht_sponsor_user_id ?e of None \<Rightarrow> None
      | Some s \<Rightarrow> if s \<in> g_members (genealogy_of ?a) then Some s else None)"
    using index_live(2) [OF M(4)] by (auto simp: genealogy_of_def split: option.split)
  have mr: "member_rows t p = map (map_option (uid ?a)) (slot_row_of t pi)"
    using member_rows_uid [OF M(3) pi(1)] pi(2) by simp
  have split: "mt_tank t = take k (mt_tank t) @ ?e # drop (Suc k) (mt_tank t)" by (rule id_take_nth_drop) (use C in blast)
  show ?thesis
    unfolding Let_def
    by (rule exI [of _ "take k (mt_tank t)"], rule exI [of _ ?e], rule exI [of _ "drop (Suc k) (mt_tank t)"])
      (use split tank t'' C ref pi(2) so slot_row_live(2) [OF M(3) pi(1)] in \<open>simp add: mr\<close>)
qed

text \<open>
  C17. Removal into the tank takes out the member and its whole downline: they queue up in the tank
  in breadth-first order, the removed member last, with their sponsors and enrolments; every member
  that stays keeps its parent, depth and enrolment, loses them from its children and its row, and
  is sponsored by its nearest sponsor that stays.
\<close>

theorem matrix_tank_removal:
  assumes "matrix_wf t" "matrix_fits t" "matrix_remove_node user HoldingTank t = (Ok r, t')"
  shows "let g = genealogy_of (tr_arena t); g' = genealogy_of (tr_arena t'); gone = g_downline g user 0 @ [user] in
     rr_moved_to_tank r = gone \<and> g_members g' = g_members g - set gone \<and>
     mt_tank t' = mt_tank t @ map (\<lambda>u. \<lparr>ht_user_id = u, ht_sponsor_user_id = g_sponsor g u, ht_enrolled_at = g_enrolled g u\<rparr>) gone \<and>
     (\<forall>v \<in> g_members g'. g_parent g' v = g_parent g v \<and> g_children g' v = filter (\<lambda>c. c \<notin> set gone) (g_children g v) \<and>
        g_depth g' v = g_depth g v \<and> g_enrolled g' v = g_enrolled g v \<and> g_sponsor g' v = g_heir g (set gone) v \<and>
        member_rows t' v = map (\<lambda>s. if s = Some user then None else s) (member_rows t v))"
proof -
  let ?a = "tr_arena t"
  note M = matrix_wfD [OF assms(1)]
  have ok: "matrix_check_remove_node t user HoldingTank = Ok ()"
    using matrix_remove_op.run_checked [OF assms(1), of "(user, HoldingTank)"] assms(3) by simp
  then obtain i where ix: "hm_get (index ?a) user = Some i" and nr: "root ?a \<noteq> Some i" and rem: "removable ?a (set (subtree ?a i))"
    by (auto simp: matrix_check_remove_ok(1) [OF assms(1)] leavers_def)
  note i = index_live [OF M(4) ix]
  obtain p where p: "par ?a i = Some p" by (rule nonroot_parent [OF M(4) i(1) nr])
  have run: "matrix_remove_node user HoldingTank t = remove_to_holding_tank i user t"
    using ok ix by (simp add: matrix_remove_node_def outcome_simps resolve_def)
  let ?D = "downline ?a i 0"
  obtain t'' where res: "remove_to_holding_tank i user t = (Ok \<lparr>rr_removed = user, rr_promoted = None, rr_repositioned = [],
       rr_moved_to_tank = map (uid ?a) (?D @ [i]), rr_relocated = [], rr_responsored = handovers ?a (subtree ?a i)\<rparr>, t'')"
    and de: "detached ?a (tr_arena t'') (subtree ?a i)"
    and tank: "mt_tank t'' = mt_tank t @ map (tank_record ?a) (?D @ [i])"
    and rows: "\<forall>j. j \<notin> set (subtree ?a i) \<longrightarrow> slot_row_of t'' j = clear_slot i (slot_row_of t j)"
    by (rule remove_to_holding_tank_ok [OF assms(1) i(1) p i(2) [symmetric] rem])
  have t'': "t'' = t'" using res run assms(3) by simp
  have gone: "g_downline (genealogy_of ?a) user 0 @ [user] = map (uid ?a) (?D @ [i])" "uid ?a ` set (subtree ?a i) = set (map (uid ?a) (?D @ [i]))"
    using downline_uid [OF M(4) i(1), of 0] i(2) by auto
  have live: "live ?a j" if "j \<in> set (?D @ [i])" for j using that subtree_iff [OF M(4) i(1), of j] by auto
  have "map (tank_record ?a) (?D @ [i]) = map (\<lambda>u. \<lparr>ht_user_id = u, ht_sponsor_user_id = g_sponsor (genealogy_of ?a) u,
      ht_enrolled_at = g_enrolled (genealogy_of ?a) u\<rparr>) (map (uid ?a) (?D @ [i]))"
    unfolding map_map o_def
    by (rule map_cong [OF refl]) (simp add: tank_record_def g_sponsor_uid [OF M(4) live], simp add: genealogy_of_def node_at_uid [OF M(4) live])
  moreover have tops: "par ?a k \<noteq> None \<and> the (par ?a k) \<in> set (subtree ?a i)" if k: "k \<in> set (subtree ?a i)" "k \<noteq> i" for k
  proof -
    have kd: "k \<in> set ?D" using k by simp
    obtain m where m: "par ?a k = Some m" using subtree_parents(2) [OF M(4) i(1) kd] by blast
    with subtree_parent [OF M(4) i(1) subtree_parents(1) [OF M(4) i(1) kd] k(2) m] k(1) show ?thesis by simp
  qed
  have "member_rows t' v = map (\<lambda>s. if s = Some user then None else s) (member_rows t v)"
    if "v \<in> g_members (genealogy_of (tr_arena t'))" for v
    by (rule detached_rows [OF M(3) de [unfolded t''] that _ _ tops, of i, unfolded i(2)]) (use rows [unfolded t''] in auto)
  moreover note detached_stays [OF M(4) de [unfolded t'']]
    unsponsored_sponsor [OF M(4) detached_wf [OF M(4) de] detachedD(1) [OF de], unfolded t'']
    detached_members [OF M(4) detachedD(1) [OF de], unfolded t'']
  ultimately show ?thesis
    using res run assms(3) tank t'' unfolding Let_def gone by simp
qed

section \<open>Promotion\<close>

lemma promote_run:
  assumes wf: "matrix_wf t" and fit: "matrix_fits t" and run: "matrix_remove_node user PromoteEarliest t = (Ok r, t')"
  obtains i p where "hm_get (index (tr_arena t)) user = Some i" "live (tr_arena t) i" "uid (tr_arena t) i = user"
    "par (tr_arena t) i = Some p" "removable (tr_arena t) {i}" "remove_promote_earliest i user t = (Ok r, t')"
proof -
  let ?a = "tr_arena t"
  note M = matrix_wfD [OF wf]
  have ok: "matrix_check_remove_node t user PromoteEarliest = Ok ()"
    using matrix_remove_op.run_checked [OF wf, of "(user, PromoteEarliest)"] run by simp
  then obtain i where ix: "hm_get (index ?a) user = Some i" and nr: "root ?a \<noteq> Some i" and rem: "removable ?a {i}"
    by (auto simp: matrix_check_remove_ok(1) [OF wf] leavers_def)
  note i = index_live [OF M(4) ix]
  obtain p where p: "par ?a i = Some p" by (rule nonroot_parent [OF M(4) i(1) nr])
  have "matrix_remove_node user PromoteEarliest t = remove_promote_earliest i user t"
    using ok ix by (simp add: matrix_remove_node_def outcome_simps resolve_def)
  with run i p ix rem show ?thesis by (intro that) auto
qed

lemma min_by_key_rename:
  "(\<And>c. c \<in> set cs \<Longrightarrow> key' (f c) = key c) \<Longrightarrow> min_by_key key' (map f cs) = map_option f (min_by_key key cs)"
proof (cases cs)
  case (Cons c ds)
  assume same: "\<And>c. c \<in> set cs \<Longrightarrow> key' (f c) = key c"
  have fold: "fold (\<lambda>y best. if key' y < key' best then y else best) (map f ds) (f c) =
      f (fold (\<lambda>y best. if key y < key best then y else best) ds c)" if "set (c # ds) \<subseteq> set cs" for ds c
    using that by (induction ds arbitrary: c) (auto simp: same)
  have "set (c # ds) \<subseteq> set cs" using Cons by simp
  from fold [OF this] Cons show ?thesis by simp
qed simp

text \<open>What a promotion means for members.\<close>

lemma promoted_members:
  assumes wf: "matrix_wf t" and wf': "matrix_wf t'" and x: "live (tr_arena t) x" "par (tr_arena t) x = Some p"
    and pr: "promoted t t' x q"
  defines "g \<equiv> genealogy_of (tr_arena t)" and "g' \<equiv> genealogy_of (tr_arena t')" and "u \<equiv> uid (tr_arena t)"
  shows "min_by_key (g_enrolled g) (g_children g (u x)) = Some (u q)" "live (tr_arena t) q" "live (tr_arena t') q" "uid (tr_arena t') q = u q"
    "g_parent g' (u q) = g_parent g (u x)" "set (u q # g_downline g' (u q) 0) = set (g_downline g (u x) 0)"
    "\<And>v. v \<in> g_members g' \<Longrightarrow> v \<notin> set (g_children g (u x)) \<Longrightarrow> g_parent g' v = g_parent g v"
    "\<And>v. v \<in> g_members g' \<Longrightarrow> g_enrolled g' v = g_enrolled g v"
proof -
  let ?a = "tr_arena t" and ?a' = "tr_arena t'"
  have aw: "arena_wf ?a" "arena_wf ?a'" using matrix_wfD(4) wf wf' by blast+
  have P: "min_by_key (\<lambda>c. enrolled_at (nd ?a c)) (kds ?a x) = Some q" "unsponsored ?a ?a' [x]" "par ?a' q = par ?a x"
    "\<And>j. live ?a j \<Longrightarrow> j \<noteq> x \<Longrightarrow> j \<notin> set (kds ?a x) \<Longrightarrow> par ?a' j = par ?a j"
    "set (subtree ?a' q) = set (downline ?a x 0)" "\<And>j. j \<noteq> x \<Longrightarrow> enrolled_at (nd ?a' j) = enrolled_at (nd ?a j)"
    using pr by (auto simp: promoted_def Let_def)
  have qx: "q \<in> set (kds ?a x)" using min_by_key_Some [OF P(1)] by blast
  have lk: "live ?a c" if "c \<in> set (kds ?a x)" for c by (rule kds_live [OF aw(1) x(1) that])
  show lq: "live ?a q" by (rule lk [OF qx])
  have "q \<noteq> x" using qx placement.down_up [OF aw(1), of x q] placement.up_rank [OF aw(1), of q x] lq x(1) by auto
  then show lq': "live ?a' q" using unsponsored_live [OF P(2)] lq by simp
  then show uq: "uid ?a' q = u q" unfolding u_def by (rule uid_stays [OF P(2)])
  have enr: "g_enrolled g (u c) = enrolled_at (nd ?a c)" if "live ?a c" for c
    using node_at_uid [OF aw(1) that] by (simp add: g_def u_def genealogy_of_def)
  have "min_by_key (g_enrolled g) (map u (kds ?a x)) = map_option u (min_by_key (\<lambda>c. enrolled_at (nd ?a c)) (kds ?a x))"
    by (rule min_by_key_rename) (rule enr [OF lk])
  then show "min_by_key (g_enrolled g) (g_children g (u x)) = Some (u q)"
    using P(1) g_children_uid [OF aw(1) x(1)] by (simp add: g_def u_def)
  have lp: "live ?a' p" using P(3) x(2) par_live [OF aw(2) lq'] by simp
  then have up: "uid ?a' p = u p" unfolding u_def by (rule uid_stays [OF P(2)])
  then show "g_parent g' (u q) = g_parent g (u x)"
    using g_parent_uid [OF aw(2) lq'] g_parent_uid [OF aw(1) x(1)] P(3) x(2) uq by (simp add: g_def g'_def u_def)
  have sub: "u q # g_downline g' (u q) 0 = map (uid ?a') (subtree ?a' q)"
    using downline_uid [OF aw(2) lq', of 0] uq by (simp add: g'_def)
  have "uid ?a' ` set (subtree ?a' q) = u ` set (subtree ?a' q)"
    unfolding u_def by (rule image_cong [OF refl], rule uid_stays [OF P(2)]) (use subtree_iff [OF aw(2) lq'] in blast)
  then show "set (u q # g_downline g' (u q) 0) = set (g_downline g (u x) 0)"
    unfolding sub set_map P(5) using downline_uid [OF aw(1) x(1), of 0] by (simp only: g_def u_def set_map)
  fix v assume v: "v \<in> g_members g'"
  obtain j where j: "v = uid ?a j" "v = uid ?a' j" "live ?a j" "j \<notin> set [x]" "live ?a' j" by (rule stays [OF aw(1) P(2) v [unfolded g'_def]])
  show "g_enrolled g' v = g_enrolled g v"
    using P(6) [of j] j node_at_uid [OF aw(1) j(3)] node_at_uid [OF aw(2) j(5)] by (simp add: g_def g'_def genealogy_of_def)
  assume "v \<notin> set (g_children g (u x))"
  then have "j \<notin> set (kds ?a x)" using g_children_uid [OF aw(1) x(1)] j(1) by (auto simp: g_def u_def)
  then have "par ?a' j = par ?a j" using P(4) [OF j(3)] j(4) by simp
  moreover have "map_option (uid ?a') (par ?a' j) = map_option (uid ?a) (par ?a' j)"
    using par_live [OF aw(2) j(5)] uid_stays [OF P(2)] by (cases "par ?a' j") auto
  ultimately show "g_parent g' v = g_parent g v"
    using g_parent_uid [OF aw(2) j(5)] g_parent_uid [OF aw(1) j(3)] j(1,2) by (simp add: g_def g'_def)
qed

lemma promoted_report:
  assumes wf: "matrix_wf t" and wf': "matrix_wf t'" and x: "live (tr_arena t) x" "par (tr_arena t) x = Some p"
    and pr: "promoted t t' x q"
  defines "u \<equiv> uid (tr_arena t)"
  shows "map (relocation_at t') (filter (\<lambda>j. placement_at t' j \<noteq> placement_at t j) (subtree (tr_arena t') q)) =
     map (m_relocation t') (filter (\<lambda>v. m_placement t' v \<noteq> m_placement t v) (u q # g_downline (genealogy_of (tr_arena t')) (u q) 0))"
proof -
  let ?a = "tr_arena t" and ?a' = "tr_arena t'"
  note M = matrix_wfD [OF wf] and M' = matrix_wfD [OF wf']
  have P: "unsponsored ?a ?a' [x]" "par ?a' q = par ?a x" "set (subtree ?a' q) = set (downline ?a x 0)"
    using pr by (auto simp: promoted_def Let_def)
  note pm = promoted_members [OF wf wf' x pr]
  have j: "placement_at t' j = m_placement t' (u j)" "placement_at t j = m_placement t (u j)" "relocation_at t' j = m_relocation t' (u j)" "uid ?a' j = u j"
    if "j \<in> set (subtree ?a' q)" for j
  proof -
    have l: "live ?a j" "par ?a j \<noteq> None" using that P(3) subtree_parents [OF M(4) x(1)] by blast+
    have l': "live ?a' j" "par ?a' j \<noteq> None"
      using that pm(3) P(2) x(2) subtree_parents [OF M'(4) pm(3), of j] by auto
    show uj: "uid ?a' j = u j" unfolding u_def by (rule uid_stays [OF P(1) l'(1)])
    show "placement_at t' j = m_placement t' (u j)" using placement_uid [OF M'(3) l'] uj by simp
    show "placement_at t j = m_placement t (u j)" using placement_uid [OF M(3) l] by (simp add: u_def)
    show "relocation_at t' j = m_relocation t' (u j)"
      using \<open>placement_at t' j = m_placement t' (u j)\<close> uj by (simp add: relocation_at_def m_relocation_def)
  qed
  have names: "u q # g_downline (genealogy_of ?a') (u q) 0 = map u (subtree ?a' q)"
    using downline_uid [OF M'(4) pm(3), of 0] pm(4) j(4) by (simp add: u_def)
  have "filter (\<lambda>j. placement_at t' j \<noteq> placement_at t j) (subtree ?a' q) =
      filter (\<lambda>j. m_placement t' (u j) \<noteq> m_placement t (u j)) (subtree ?a' q)"
    by (rule filter_cong [OF refl]) (simp only: j(1,2))
  then show ?thesis unfolding names filter_map o_def by (auto simp: j(3) simp del: filter.simps)
qed

text \<open>Whoever is not below the removed node keeps parent, slot and depth, and all rows but its parent's stay.\<close>

lemma position_replace:
  assumes "position (\<lambda>s. s = Some j) row = Some k" "pos < length row" "row ! pos = Some x" "x \<noteq> j" "q \<noteq> j"
  shows "position (\<lambda>s. s = Some j) (row[pos := Some q]) = Some k"
  using assms by (auto simp: position_Some_iff nth_list_update)

lemma promoted_outside:
  assumes wf: "matrix_wf t" and wf': "matrix_wf t'" and x: "live (tr_arena t) x" "par (tr_arena t) x = Some p"
    and pr: "promoted t t' x q" and j: "live (tr_arena t) j" "\<And>m. upn (par (tr_arena t)) m j \<noteq> Some x"
  shows "live (tr_arena t') j" "par (tr_arena t') j = par (tr_arena t) j" "depth (nd (tr_arena t') j) = depth (nd (tr_arena t) j)"
    "j \<noteq> p \<Longrightarrow> slot_row_of t' j = slot_row_of t j" "par (tr_arena t) j \<noteq> None \<Longrightarrow> placement_at t' j = placement_at t j"
proof -
  let ?a = "tr_arena t" and ?a' = "tr_arena t'"
  note M = matrix_wfD [OF wf] and M' = matrix_wfD [OF wf']
  have P: "min_by_key (\<lambda>c. enrolled_at (nd ?a c)) (kds ?a x) = Some q" "unsponsored ?a ?a' [x]"
    "\<And>j. live ?a j \<Longrightarrow> j \<noteq> x \<Longrightarrow> j \<notin> set (kds ?a x) \<Longrightarrow> par ?a' j = par ?a j"
    "\<And>pos. position (\<lambda>s. s = Some x) (slot_row_of t p) = Some pos \<Longrightarrow> slot_row_of t' p = (slot_row_of t p)[pos := Some q]"
    "\<And>j. (\<And>m. upn (par ?a) m j \<noteq> Some x) \<Longrightarrow> j \<noteq> p \<Longrightarrow> slot_row_of t' j = slot_row_of t j"
    using pr x(2) by (auto simp: promoted_def Let_def)
  have kid: "k \<in> set (kds ?a x) \<longleftrightarrow> live ?a k \<and> par ?a k = Some x" for k
    using arena_wfD(2) [OF M(4)] x(1) by (auto simp: links_wf_def)
  have ne: "i \<noteq> x" "par ?a i \<noteq> Some x" if "\<And>m. upn (par ?a) m i \<noteq> Some x" for i
    using that [of 0] that [of 1] by auto
  have up: "par ?a' i = par ?a i" "live ?a' i" if "live ?a i" "\<And>m. upn (par ?a) m i \<noteq> Some x" for i
    using P(3) [OF that(1)] ne [OF that(2)] kid unsponsored_live [OF P(2)] that(1) by simp_all
  show "live ?a' j" "par ?a' j = par ?a j" using up [OF j] by simp_all
  show rows: "j \<noteq> p \<Longrightarrow> slot_row_of t' j = slot_row_of t j" by (rule P(5) [OF j(2)])
  have above: "live ?a i" "\<And>m. upn (par ?a) m i \<noteq> Some x" if "par ?a k = Some i" "live ?a k" "\<And>m. upn (par ?a) m k \<noteq> Some x" for i k
    using that(1,2) par_live [OF M(4)] that(3) [of "Suc m" for m] by auto
  have "dep ?a' j = dep ?a j" using j
  proof (induction "dep ?a j" arbitrary: j rule: less_induct)
    case less
    have d: "dep ?a j = (case par ?a j of None \<Rightarrow> 0 | Some p \<Rightarrow> Suc (dep ?a p))"
      "dep ?a' j = (case par ?a j of None \<Rightarrow> 0 | Some p \<Rightarrow> Suc (dep ?a' p))"
      using arena_wfD(4) [OF M(4)] arena_wfD(4) [OF M'(4)] less.prems(1) up [OF less.prems] by (simp_all add: depth_wf_def)
    show ?case
    proof (cases "par ?a j")
      case (Some i)
      with d less.hyps [of i] above [OF Some less.prems] show ?thesis by simp
    qed (use d in simp)
  qed
  then show dep: "depth (nd ?a' j) = depth (nd ?a j)" by (simp add: word_unat_eq_iff)
  assume "par ?a j \<noteq> None"
  then obtain i where i: "par ?a j = Some i" by blast
  note ai = above [OF i j]
  obtain k where k: "position (\<lambda>s. s = Some j) (slot_row_of t i) = Some k" using slot_position_found [OF M(3) j(1) i] by metis
  have "position (\<lambda>s. s = Some j) (slot_row_of t' i) = Some k"
  proof (cases "i = p")
    case True
    obtain pos where pos: "position (\<lambda>s. s = Some x) (slot_row_of t p) = Some pos" using slot_position_found [OF M(3) x] by metis
    have "q \<noteq> j" using min_by_key_Some [OF P(1)] kid ne(2) [OF j(2)] by auto
    then show ?thesis
      using position_replace [of j "slot_row_of t p" k pos x q] k pos True ne(1) [OF j(2)] P(4) [OF pos] by (simp add: position_Some_iff)
  next
    case False
    then show ?thesis using P(5) [OF ai(2) False] k by simp
  qed
  moreover have "uid ?a' i = uid ?a i" by (rule uid_stays [OF P(2) up(2) [OF ai]])
  ultimately show "placement_at t' j = placement_at t j" using i k up(1) [OF j] dep by (simp add: placement_at_def)
qed

text \<open>The same for members.\<close>

lemma promoted_bystanders:
  assumes wf: "matrix_wf t" and wf': "matrix_wf t'" and x: "live (tr_arena t) x" "par (tr_arena t) x = Some p"
    and pr: "promoted t t' x q" and v: "v \<in> g_members (genealogy_of (tr_arena t'))"
      "v \<notin> set (g_downline (genealogy_of (tr_arena t)) (uid (tr_arena t) x) 0)"
  defines "g \<equiv> genealogy_of (tr_arena t)" and "g' \<equiv> genealogy_of (tr_arena t')"
  shows "g_parent g' v = g_parent g v" "g_depth g' v = g_depth g v" "v \<noteq> uid (tr_arena t) p \<Longrightarrow> member_rows t' v = member_rows t v"
    "g_parent g v \<noteq> None \<Longrightarrow> m_placement t' v = m_placement t v"
proof -
  let ?a = "tr_arena t" and ?a' = "tr_arena t'"
  note M = matrix_wfD [OF wf] and M' = matrix_wfD [OF wf']
  have un: "unsponsored ?a ?a' [x]" using pr by (simp add: promoted_def Let_def)
  obtain j where j: "v = uid ?a j" "v = uid ?a' j" "live ?a j" "j \<notin> set [x]" "live ?a' j" by (rule stays [OF M(4) un v(1)])
  have "j \<notin> set (downline ?a x 0)" using v(2) downline_uid [OF M(4) x(1), of 0] j(1) by auto
  then have apart: "upn (par ?a) m j \<noteq> Some x" for m
    using subtree_iff [OF M(4) x(1), of j] j(3,4) by auto
  note out = promoted_outside [OF wf wf' x pr j(3) apart]
  have names: "map_option (uid ?a') s = map_option (uid ?a) s" if "\<And>c. s = Some c \<Longrightarrow> live ?a' c" for s
    using that uid_stays [OF un] by (cases s) auto
  have "g_parent g' v = map_option (uid ?a') (par ?a' j)" "g_parent g v = map_option (uid ?a) (par ?a j)"
    using g_parent_uid [OF M'(4) j(5)] g_parent_uid [OF M(4) j(3)] j(1,2) by (simp_all add: g_def g'_def)
  then show "g_parent g' v = g_parent g v"
    using names [of "par ?a' j"] par_live [OF M'(4) j(5)] out(2) by simp
  show "g_depth g' v = g_depth g v"
    using g_depth_uid [OF M'(4) j(5)] g_depth_uid [OF M(4) j(3)] j(1,2) out(3) by (simp add: g_def g'_def)
  show "member_rows t' v = member_rows t v" if "v \<noteq> uid ?a p"
  proof -
    have "slot_row_of t' j = slot_row_of t j" using out(4) that j(1) by auto
    moreover have "map (map_option (uid ?a')) (slot_row_of t' j) = map (map_option (uid ?a)) (slot_row_of t' j)"
      using slot_row_live(4) [OF M'(3) j(5)] by (intro map_cong [OF refl] names) auto
    ultimately show ?thesis using member_rows_uid [OF M'(3) j(5)] member_rows_uid [OF M(3) j(3)] j(1,2) by simp
  qed
  assume "g_parent g v \<noteq> None"
  then have par: "par ?a j \<noteq> None" using g_parent_uid [OF M(4) j(3)] j(1) by (simp add: g_def)
  then show "m_placement t' v = m_placement t v"
    using placement_uid [OF M'(3) j(5)] placement_uid [OF M(3) j(3) par] out(2,5) j(1,2) by simp
qed

text \<open>
  C16. Removal by promotion of a member with children: the child enrolled earliest takes the
  member's slot, and its subtree afterwards is exactly the member's former downline; nobody else
  changes parent but the remaining children, which the report names in order. Every member outside
  that downline keeps parent and depth, and its slots too unless it is the member's parent, where
  only the one slot changes. Recruits of the member pass to its sponsor, the tank is untouched, the
  tree stays well formed. The report lists, in breadth-first order below the promoted child and
  with their new placements, members that moved, and it is complete: a member of the tree with a
  parent is in the report exactly if its parent, position or depth changed.
\<close>

theorem matrix_promotion:
  assumes "matrix_wf t" "matrix_fits t" "matrix_remove_node user PromoteEarliest t = (Ok r, t')"
    "g_children (genealogy_of (tr_arena t)) user \<noteq> []"
  shows "let g = genealogy_of (tr_arena t); g' = genealogy_of (tr_arena t') in \<exists>q p pos.
     min_by_key (g_enrolled g) (g_children g user) = Some q \<and> rr_promoted r = Some q \<and>
     rr_repositioned r = filter (\<lambda>c. c \<noteq> q) (g_children g user) \<and>
     g_parent g user = Some p \<and> position (\<lambda>s. s = Some user) (member_rows t p) = Some pos \<and>
     g_parent g' q = Some p \<and> member_rows t' p = (member_rows t p)[pos := Some q] \<and>
     set (q # g_downline g' q 0) = set (g_downline g user 0) \<and> g_members g' = g_members g - {user} \<and>
     (\<forall>v \<in> g_members g'. (v \<notin> set (g_children g user) \<longrightarrow> g_parent g' v = g_parent g v) \<and>
        g_enrolled g' v = g_enrolled g v \<and> g_sponsor g' v = g_heir g {user} v) \<and>
     (\<forall>v \<in> g_members g'. v \<notin> set (g_downline g user 0) \<longrightarrow>
        g_parent g' v = g_parent g v \<and> g_depth g' v = g_depth g v \<and> (v \<noteq> p \<longrightarrow> member_rows t' v = member_rows t v)) \<and>
     rr_relocated r = map (m_relocation t') (filter (\<lambda>v. m_placement t' v \<noteq> m_placement t v) (q # g_downline g' q 0)) \<and>
     (\<forall>v \<in> g_members g'. g_parent g v \<noteq> None \<longrightarrow>
        (v \<in> rl_user_id ` set (rr_relocated r) \<longleftrightarrow> m_placement t' v \<noteq> m_placement t v)) \<and>
     mt_tank t' = mt_tank t \<and> matrix_wf t'"
proof -
  let ?a = "tr_arena t" and ?a' = "tr_arena t'"
  note M = matrix_wfD [OF assms(1)]
  obtain x p where x: "live ?a x" "uid ?a x = user" "par ?a x = Some p" "removable ?a {x}" "remove_promote_earliest x user t = (Ok r, t')"
    by (rule promote_run [OF assms(1,2,3)])
  have kids: "kds ?a x \<noteq> []" using assms(4) g_children_uid [OF M(4) x(1)] x(2) by auto
  have room: "length (nodes ?a) < 2 ^ 32" using assms(2) by (simp add: matrix_fits_def)
  obtain q t'' where res: "remove_promote_earliest x user t = (Ok (promotion_report t t'' x q), t'')" "matrix_wf t''" "promoted t t'' x q"
    by (rule remove_promote_ok [OF assms(1) room x(1,3) x(2) [symmetric] x(4) kids])
  have t'': "t'' = t'" and r: "r = promotion_report t t' x q" using res(1) x(5) by simp_all
  note wf' = res(2) [unfolded t''] and pr = res(3) [unfolded t'']
  have P: "unsponsored ?a ?a' [x]" "mt_tank t' = mt_tank t"
    "\<And>pos. position (\<lambda>s. s = Some x) (slot_row_of t p) = Some pos \<Longrightarrow> slot_row_of t' p = (slot_row_of t p)[pos := Some q]"
    using pr x(3) by (auto simp: promoted_def Let_def)
  note pm = promoted_members [OF assms(1) wf' x(1,3) pr, unfolded x(2)]
  have lp: "live ?a p" by (rule par_live [OF M(4) x(1,3)])
  have lp': "live ?a' p" using par_live [OF matrix_wfD(4) [OF wf'] pm(3), of p] pr x(3) by (simp add: promoted_def Let_def)
  have gp: "g_parent (genealogy_of ?a) user = Some (uid ?a p)" using g_parent_uid [OF M(4) x(1)] x(2,3) by simp
  obtain pos where pos: "position (\<lambda>s. s = Some x) (slot_row_of t p) = Some pos" using slot_position_found [OF M(3) x(1,3)] by metis
  have "inj_on (uid ?a) (insert x {c. Some c \<in> set (slot_row_of t p)})"
    using slot_row_live(4) [OF M(3) lp] x(1) by (intro inj_onI) (auto simp: uid_eq_iff [OF M(4)])
  from position_rename [OF this] pos have mpos: "position (\<lambda>s. s = Some user) (member_rows t (uid ?a p)) = Some pos"
    using member_rows_uid [OF M(3) lp] x(2) by simp
  have "map (map_option (uid ?a')) (slot_row_of t' p) = map (map_option (uid ?a)) (slot_row_of t' p)"
  proof (rule map_cong [OF refl], rule option.map_cong [OF refl])
    fix s c assume "s \<in> set (slot_row_of t' p)" "c \<in> set_option s"
    then have "live ?a' c" using slot_row_live(4) [OF matrix_wfD(3) [OF wf'] lp', of c] by auto
    then show "uid ?a' c = uid ?a c" by (rule uid_stays [OF P(1)])
  qed
  then have rows: "member_rows t' (uid ?a p) = (member_rows t (uid ?a p))[pos := Some (uid ?a q)]"
    using member_rows_uid [OF matrix_wfD(3) [OF wf'] lp'] uid_stays [OF P(1) lp'] member_rows_uid [OF M(3) lp] P(3) [OF pos]
    by (simp add: map_update)
  have rest: "map (uid ?a) (filter (\<lambda>c. c \<noteq> q) (kds ?a x)) = filter (\<lambda>c. c \<noteq> uid ?a q) (g_children (genealogy_of ?a) user)"
    using map_uid_filter [OF M(4) pm(2), of "kds ?a x"] kds_live [OF M(4) x(1)] g_children_uid [OF M(4) x(1)] x(2) by simp
  have sp: "g_sponsor (genealogy_of ?a') v = g_heir (genealogy_of ?a) {user} v" if "v \<in> g_members (genealogy_of ?a')" for v
    using unsponsored_sponsor [OF M(4) matrix_wfD(4) [OF wf'] P(1) that] x(2) by simp
  have mem: "g_members (genealogy_of ?a') = g_members (genealogy_of ?a) - {user}"
    using detached_members [OF M(4) P(1)] x(2) by simp
  note rep = promoted_report [OF assms(1) wf' x(1,3) pr]
  note bys = promoted_bystanders [OF assms(1) wf' x(1,3) pr, unfolded x(2)]
  have rel: "rr_relocated r = map (m_relocation t') (filter (\<lambda>v. m_placement t' v \<noteq> m_placement t v)
      (uid ?a q # g_downline (genealogy_of ?a') (uid ?a q) 0))"
    unfolding r promotion_report_def Let_def using rep by (simp del: filter.simps)
  have all: "v \<in> rl_user_id ` set (rr_relocated r) \<longleftrightarrow> m_placement t' v \<noteq> m_placement t v"
    if "v \<in> g_members (genealogy_of ?a')" "g_parent (genealogy_of ?a) v \<noteq> None" for v
  proof -
    have "rl_user_id (m_relocation t' w) = w" for w by (simp add: m_relocation_def split: prod.split)
    then have "v \<in> rl_user_id ` set (rr_relocated r) \<longleftrightarrow> v \<in> set (g_downline (genealogy_of ?a) user 0) \<and> m_placement t' v \<noteq> m_placement t v"
      unfolding rel using pm(6) by (auto simp del: filter.simps simp: image_iff)
    then show ?thesis using bys(4) [OF that(1) _ that(2)] by blast
  qed
  show ?thesis
    unfolding Let_def
    by (rule exI [of _ "uid ?a q"], rule exI [of _ "uid ?a p"], rule exI [of _ pos])
      (use pm gp mpos rows rest sp mem rel all bys(1-3) P(2) wf' in \<open>simp add: r promotion_report_def Let_def del: filter.simps\<close>)
qed

text \<open>
  C21. Removal by promotion of a member without children is the abstract leave: its position opens,
  its recruits pass to its sponsor, and nobody is promoted, moved or relocated.
\<close>

theorem matrix_leaf_removal:
  assumes "matrix_wf t" "matrix_fits t" "matrix_remove_node user PromoteEarliest t = (Ok r, t')"
    "g_children (genealogy_of (tr_arena t)) user = []"
  shows "genealogy_of (tr_arena t') = g_leave user (genealogy_of (tr_arena t)) \<and>
     member_rows t' = (\<lambda>v. if v = user then [] else map (\<lambda>s. if s = Some user then None else s) (member_rows t v)) \<and>
     mt_tank t' = mt_tank t \<and> rr_promoted r = None \<and> rr_repositioned r = [] \<and> rr_relocated r = [] \<and>
     map rs_user_id (rr_responsored r) = g_recruits (genealogy_of (tr_arena t)) user"
proof -
  let ?a = "tr_arena t"
  note M = matrix_wfD [OF assms(1)]
  obtain x p where x: "live ?a x" "uid ?a x = user" "par ?a x = Some p" "removable ?a {x}" "remove_promote_earliest x user t = (Ok r, t')"
    by (rule promote_run [OF assms(1,2,3)])
  have leaf: "kds ?a x = []" using assms(4) g_children_uid [OF M(4) x(1)] x(2) by simp
  obtain t'' where res: "remove_promote_earliest x user t = (Ok \<lparr>rr_removed = user, rr_promoted = None, rr_repositioned = [],
       rr_moved_to_tank = [], rr_relocated = [], rr_responsored = handovers ?a [x]\<rparr>, t'')"
    and de: "detached ?a (tr_arena t'') [x]" and tank: "mt_tank t'' = mt_tank t"
    and rows: "\<forall>j. j \<noteq> x \<longrightarrow> slot_row_of t'' j = clear_slot x (slot_row_of t j)"
    by (rule remove_leaf_ok [OF assms(1) x(1,3) leaf x(2) [symmetric] x(4)])
  have t'': "t'' = t'" using res x(5) by simp
  have "member_rows t' = (\<lambda>v. if v = user then [] else map (\<lambda>s. if s = Some user then None else s) (member_rows t v))"
    by (rule member_rows_detached [OF M(3) de [unfolded t''], unfolded x(2)]) (use rows t'' in blast)
  then show ?thesis
    using res x(5) tank t'' detached_genealogy [OF M(4) de] handovers_single(1) [OF M(4) x(1,4)] x(2) by auto
qed

section \<open>Queries\<close>


text \<open>
  C23. A branch query of a matrix tree returns the member in the named slot followed by its downline
  in breadth-first order, the count query counts them, an open slot gives none, and a position past
  the width is refused by both.
\<close>

theorem matrix_branches:
  assumes "matrix_wf t" "u \<in> g_members (genealogy_of (tr_arena t))"
  shows "let g = genealogy_of (tr_arena t); w = usize_width t;
       branch = (case member_rows t u ! pos of None \<Rightarrow> [] | Some c \<Rightarrow> c # g_downline g c 0) in
     if pos < w then answers (matrix_get_branch t u pos) branch \<and> matrix_count_branch t u pos = Ok (length branch)
     else matrix_get_branch t u pos = Err (PositionOutOfRange u pos w) \<and>
          matrix_count_branch t u pos = Err (PositionOutOfRange u pos w)"
proof -
  let ?a = "tr_arena t"
  note M = matrix_wfD [OF assms(1)]
  obtain i where i: "resolve ?a u = Ok i" "live ?a i" "uid ?a i = u" by (rule member_slot [OF M(4) assms(2)])
  note row = slot_row_live [OF M(3) i(2)]
  show ?thesis
  proof (cases "pos < usize_width t")
    case True
    have mr: "member_rows t u ! pos = map_option (uid ?a) (slot_row_of t i ! pos)"
      using member_rows_uid [OF M(3) i(2)] i(3) row(2) True by simp
    show ?thesis
    proof (cases "slot_row_of t i ! pos")
      case None
      with i row True mr show ?thesis by (simp add: matrix_get_branch_def matrix_count_branch_def)
    next
      case (Some c)
      have "live ?a c" by (rule row(4)) (use Some True row(2) in \<open>metis nth_mem\<close>)
      with i row True mr Some downline_uid [OF M(4), of c 0] show ?thesis
        by (simp add: matrix_get_branch_def matrix_count_branch_def collect_subtree_eq [OF M(4)] count_subtree_eq [OF M(4)])
    qed
  qed (use i row in \<open>simp add: matrix_get_branch_def matrix_count_branch_def\<close>)
qed

section \<open>Instances\<close>

text \<open>
  A tree of width two: member 1 at the root with 2 and 3 below, 4 and 5 below 2, and 6 below 3.
  Member 3 enrolled before 2, and 5 before 4.
\<close>

definition matrix_sample_calls :: "matrix_call list" where
  "matrix_sample_calls = [MxAddRoot 1 10, MxAddNode 2 1 30, MxAddNode 3 1 20, MxAddNode 4 2 50, MxAddNode 5 2 40,
     MxAddNodeAt 6 4 3 1 60]"

definition matrix_sample :: matrix_tree where
  "matrix_sample = snd (sfor (\<lambda>c. settle (matrix_exec c) :: (matrix_tree, tree_error, unit) sm) matrix_sample_calls
     \<lparr>tr_arena = arena_new, tr_slots = [], mt_width = 2, mt_spillover = BreadthFirst, mt_tank = []\<rparr>)"

lemma matrix_sample_new: "matrix_new 2 BreadthFirst =
    Ok \<lparr>tr_arena = arena_new, tr_slots = [], mt_width = 2, mt_spillover = BreadthFirst, mt_tank = []\<rparr>"
  by (simp add: matrix_new_def)

lemma matrix_sample_wf: "matrix_wf matrix_sample"
  using matrix_session_wf [OF matrix_sample_new, of matrix_sample_calls]
  by (auto simp: matrix_sample_def matrix_sample_calls_def)

lemma matrix_sample_eq: "matrix_sample = \<lparr>tr_arena = \<lparr>
   nodes = [\<lparr>user_id = 1, parent = None, children = [1, 2], sponsor = None, sponsored = [1, 2], depth = 0, enrolled_at = 10\<rparr>,
     \<lparr>user_id = 2, parent = Some 0, children = [3, 4], sponsor = Some 0, sponsored = [3, 4], depth = 1, enrolled_at = 30\<rparr>,
     \<lparr>user_id = 3, parent = Some 0, children = [5], sponsor = Some 0, sponsored = [], depth = 1, enrolled_at = 20\<rparr>,
     \<lparr>user_id = 4, parent = Some 1, children = [], sponsor = Some 1, sponsored = [5], depth = 2, enrolled_at = 50\<rparr>,
     \<lparr>user_id = 5, parent = Some 1, children = [], sponsor = Some 1, sponsored = [], depth = 2, enrolled_at = 40\<rparr>,
     \<lparr>user_id = 6, parent = Some 2, children = [], sponsor = Some 3, sponsored = [], depth = 2, enrolled_at = 60\<rparr>],
   index = [(1, 0), (2, 1), (3, 2), (4, 3), (5, 4), (6, 5)], free_list = [], root = Some 0\<rparr>,
   tr_slots = [(0, [Some 1, Some 2]), (1, [Some 3, Some 4]), (2, [None, Some 5]), (3, [None, None]), (4, [None, None]), (5, [None, None])],
   mt_width = 2, mt_spillover = BreadthFirst, mt_tank = []\<rparr>"
  by code_simp

lemma matrix_sample_fits: "matrix_fits matrix_sample"
  by (simp add: matrix_fits_def matrix_sample_eq)

declare matrix_sample_eq [code]

lemma matrix_sample_members: "2 \<in> g_members (genealogy_of (tr_arena matrix_sample))"
  by (simp add: matrix_sample_eq genealogy_of_def hm_get_def)

lemma matrix_sample_children: "g_children (genealogy_of (tr_arena matrix_sample)) 2 = [4, 5]"
  "g_children (genealogy_of (tr_arena matrix_sample)) 4 = []"
  by (simp_all add: genealogy_of_def node_at_def matrix_sample_eq hm_get_def nd_def)

lemma matrix_sample_downline: "1 # g_downline (genealogy_of (tr_arena matrix_sample)) 1 0 = [1, 2, 3, 4, 5, 6]"
proof -
  let ?a = "tr_arena matrix_sample"
  have "live ?a 0" "uid ?a 0 = 1" by (simp_all add: matrix_sample_eq live_def nd_def)
  with downline_uid [OF matrix_wfD(4) [OF matrix_sample_wf], of 0 0]
  have "g_downline (genealogy_of ?a) 1 0 = map (uid ?a) (downline ?a 0 0)" by simp
  also have "\<dots> = [2, 3, 4, 5, 6]" by code_simp
  finally show ?thesis by simp
qed

definition matrix_tanked :: matrix_tree where
  "matrix_tanked = snd (matrix_remove_node 2 HoldingTank matrix_sample)"

lemma matrix_sample_runs:
  "fst (matrix_add_node 7 1 70 matrix_sample) = Ok 6" "fst (matrix_add_node_at 7 1 3 0 70 matrix_sample) = Ok 6"
  "matrix_add_node 6 1 70 matrix_sample = (Err (UserAlreadyExists 6), matrix_sample)"
  "find_map (m_open matrix_sample) [1, 2, 3, 4, 5, 6] = Some (3, 0)" "member_rows matrix_sample 3 = [None, Some 6]" "member_rows matrix_sample 2 = [Some 4, Some 5]"
  "fst (matrix_remove_node 2 HoldingTank matrix_sample) = Ok \<lparr>rr_removed = 2, rr_promoted = None, rr_repositioned = [],
     rr_moved_to_tank = [4, 5, 2], rr_relocated = [], rr_responsored = [\<lparr>rs_user_id = 6, rs_new_sponsor_id = 1\<rparr>]\<rparr>"
  "fst (matrix_remove_node 2 PromoteEarliest matrix_sample) = Ok \<lparr>rr_removed = 2, rr_promoted = Some 5, rr_repositioned = [4],
     rr_moved_to_tank = [], rr_relocated = [\<lparr>rl_user_id = 5, rl_parent_id = 1, rl_position = 0, rl_depth = 1\<rparr>,
       \<lparr>rl_user_id = 4, rl_parent_id = 5, rl_position = 0, rl_depth = 2\<rparr>],
     rr_responsored = [\<lparr>rs_user_id = 4, rs_new_sponsor_id = 1\<rparr>, \<lparr>rs_user_id = 5, rs_new_sponsor_id = 1\<rparr>]\<rparr>"
  "fst (matrix_remove_node 4 PromoteEarliest matrix_sample) = Ok \<lparr>rr_removed = 4, rr_promoted = None, rr_repositioned = [],
     rr_moved_to_tank = [], rr_relocated = [], rr_responsored = [\<lparr>rs_user_id = 6, rs_new_sponsor_id = 2\<rparr>]\<rparr>"
  by code_simp+

lemma matrix_tanked_run: "matrix_remove_node 2 HoldingTank matrix_sample = (Ok \<lparr>rr_removed = 2, rr_promoted = None, rr_repositioned = [],
     rr_moved_to_tank = [4, 5, 2], rr_relocated = [], rr_responsored = [\<lparr>rs_user_id = 6, rs_new_sponsor_id = 1\<rparr>]\<rparr>, matrix_tanked)"
  by (rule prod_eqI) (simp_all add: matrix_sample_runs matrix_tanked_def)

lemma matrix_tanked_wf: "matrix_wf matrix_tanked" "matrix_fits matrix_tanked"
proof -
  show "matrix_wf matrix_tanked"
    using matrix_remove_op.run_keeps [OF matrix_sample_wf matrix_sample_fits, of "(2, HoldingTank)"] matrix_tanked_run by simp
  have "length (nodes (tr_arena matrix_tanked)) = 6" by code_simp
  then show "matrix_fits matrix_tanked" by (simp add: matrix_fits_def)
qed

lemma matrix_tanked_runs:
  "fst (place_from_tank 2 3 0 matrix_tanked) = Ok ()"
  "mt_tank matrix_tanked = [\<lparr>ht_user_id = 4, ht_sponsor_user_id = Some 2, ht_enrolled_at = 50\<rparr>,
     \<lparr>ht_user_id = 5, ht_sponsor_user_id = Some 2, ht_enrolled_at = 40\<rparr>, \<lparr>ht_user_id = 2, ht_sponsor_user_id = Some 1, ht_enrolled_at = 30\<rparr>]"
  "g_members (genealogy_of (tr_arena matrix_tanked)) = {1, 3, 6}"
proof -
  show "fst (place_from_tank 2 3 0 matrix_tanked) = Ok ()" by code_simp
  show "mt_tank matrix_tanked = [\<lparr>ht_user_id = 4, ht_sponsor_user_id = Some 2, ht_enrolled_at = 50\<rparr>,
     \<lparr>ht_user_id = 5, ht_sponsor_user_id = Some 2, ht_enrolled_at = 40\<rparr>, \<lparr>ht_user_id = 2, ht_sponsor_user_id = Some 1, ht_enrolled_at = 30\<rparr>]"
    by code_simp
  have "index (tr_arena matrix_tanked) = [(1, 0), (3, 2), (6, 5)]" by code_simp
  then show "g_members (genealogy_of (tr_arena matrix_tanked)) = {1, 3, 6}"
    by (auto simp: genealogy_of_def hm_get_def split: if_splits)
qed

theorem matrix_session_safe_witness:
  "\<exists>t. sfor (\<lambda>c. settle (matrix_exec c)) (matrix_sample_calls @ [MxRemove 2 PromoteEarliest, MxRemove 1 HoldingTank])
     \<lparr>tr_arena = arena_new, tr_slots = [], mt_width = 2, mt_spillover = BreadthFirst, mt_tank = []\<rparr> = (Ok (), t) \<and>
     matrix_wf t \<and> matrix_validate_restored t = Ok ()"
  by (rule matrix_session_safe [OF matrix_sample_new]) (simp add: matrix_sample_calls_def)

theorem matrix_validate_exact_witness:
  "matrix_wf matrix_sample \<and> matrix_validate_restored matrix_sample = Ok () \<and>
   \<not> matrix_wf (matrix_sample\<lparr>mt_tank := [\<lparr>ht_user_id = 9, ht_sponsor_user_id = Some 9, ht_enrolled_at = 0\<rparr>]\<rparr>)"
proof -
  let ?t = "matrix_sample\<lparr>mt_tank := [\<lparr>ht_user_id = 9, ht_sponsor_user_id = Some 9, ht_enrolled_at = 0\<rparr>]\<rparr>"
  have "matrix_validate_restored ?t = Err (HoldingTankSponsorChainRevisits 9 9)" by code_simp
  then show ?thesis
    using matrix_validate_exact [of matrix_sample] matrix_validate_exact [of ?t] matrix_sample_wf
    by (simp add: matrix_sample_eq hm_ok_def)
qed

theorem matrix_add_node_first_open_witness:
  "\<exists>t'. matrix_add_node 7 1 70 matrix_sample = (Ok 6, t') \<and> member_rows t' 3 = [Some 7, Some 6] \<and>
     genealogy_of (tr_arena t') = g_join 7 (Some 3) [7, 6] (Some 1) 70 (genealogy_of (tr_arena matrix_sample))"
proof (intro exI conjI)
  let ?t' = "snd (matrix_add_node 7 1 70 matrix_sample)"
  show run: "matrix_add_node 7 1 70 matrix_sample = (Ok 6, ?t')" by (rule prod_eqI) (simp_all add: matrix_sample_runs)
  note ref = matrix_add_node_first_open [OF matrix_sample_wf matrix_sample_fits run, unfolded matrix_sample_downline matrix_sample_runs(4) Let_def]
  show "member_rows ?t' 3 = [Some 7, Some 6]"
    "genealogy_of (tr_arena ?t') = g_join 7 (Some 3) [7, 6] (Some 1) 70 (genealogy_of (tr_arena matrix_sample))"
    using ref by (auto simp: matrix_sample_runs)
qed


theorem matrix_add_node_at_refines_witness:
  "\<exists>t'. matrix_add_node_at 7 1 3 0 70 matrix_sample = (Ok 6, t') \<and> member_rows t' 3 = [Some 7, Some 6] \<and>
     genealogy_of (tr_arena t') = g_join 7 (Some 3) [7, 6] (Some 1) 70 (genealogy_of (tr_arena matrix_sample))"
proof (intro exI conjI)
  let ?t' = "snd (matrix_add_node_at 7 1 3 0 70 matrix_sample)"
  show run: "matrix_add_node_at 7 1 3 0 70 matrix_sample = (Ok 6, ?t')" by (rule prod_eqI) (simp_all add: matrix_sample_runs)
  note ref = matrix_add_node_at_refines [OF matrix_sample_wf matrix_sample_fits run, unfolded Let_def]
  show "member_rows ?t' 3 = [Some 7, Some 6]"
    "genealogy_of (tr_arena ?t') = g_join 7 (Some 3) [7, 6] (Some 1) 70 (genealogy_of (tr_arena matrix_sample))"
    using ref by (simp_all add: matrix_sample_runs)
qed

theorem matrix_place_from_tank_refines_witness:
  "\<exists>t'. place_from_tank 2 3 0 matrix_tanked = (Ok (), t') \<and> map ht_user_id (mt_tank t') = [4, 5] \<and>
     genealogy_of (tr_arena t') = g_join 2 (Some 3) [2, 6] (Some 1) 30 (genealogy_of (tr_arena matrix_tanked))"
proof (intro exI conjI)
  let ?t' = "snd (place_from_tank 2 3 0 matrix_tanked)"
  show run: "place_from_tank 2 3 0 matrix_tanked = (Ok (), ?t')" by (rule prod_eqI) (simp_all add: matrix_tanked_runs)
  have row: "member_rows matrix_tanked 3 = [None, Some 6]" by code_simp
  note ref = matrix_place_from_tank_refines [OF matrix_tanked_wf run, unfolded Let_def matrix_tanked_runs]
  then obtain xs e ys where e: "[\<lparr>ht_user_id = 4, ht_sponsor_user_id = Some 2, ht_enrolled_at = 50\<rparr>,
     \<lparr>ht_user_id = 5, ht_sponsor_user_id = Some 2, ht_enrolled_at = 40\<rparr>, \<lparr>ht_user_id = 2, ht_sponsor_user_id = Some 1, ht_enrolled_at = 30\<rparr>] =
     xs @ e # ys" "mt_tank ?t' = xs @ ys" "ht_user_id e = 2"
    and g: "genealogy_of (tr_arena ?t') = g_join 2 (Some 3) (occupied ((member_rows matrix_tanked 3)[unat (0 :: u8) := Some 2]))
         (case ht_sponsor_user_id e of None \<Rightarrow> None | Some s \<Rightarrow> if s \<in> {1, 3, 6} then Some s else None) (ht_enrolled_at e)
         (genealogy_of (tr_arena matrix_tanked))" by blast
  have "xs = [\<lparr>ht_user_id = 4, ht_sponsor_user_id = Some 2, ht_enrolled_at = 50\<rparr>, \<lparr>ht_user_id = 5, ht_sponsor_user_id = Some 2, ht_enrolled_at = 40\<rparr>] \<and>
      e = \<lparr>ht_user_id = 2, ht_sponsor_user_id = Some 1, ht_enrolled_at = 30\<rparr> \<and> ys = []"
    using e(1,3) by (cases xs; cases "tl xs"; cases "tl (tl xs)") auto
  then show "map ht_user_id (mt_tank ?t') = [4, 5]"
    "genealogy_of (tr_arena ?t') = g_join 2 (Some 3) [2, 6] (Some 1) 30 (genealogy_of (tr_arena matrix_tanked))"
    using e(2) g row by simp_all
qed

theorem matrix_tank_removal_witness:
  "matrix_remove_node 2 HoldingTank matrix_sample = (Ok \<lparr>rr_removed = 2, rr_promoted = None, rr_repositioned = [],
     rr_moved_to_tank = [4, 5, 2], rr_relocated = [], rr_responsored = [\<lparr>rs_user_id = 6, rs_new_sponsor_id = 1\<rparr>]\<rparr>, matrix_tanked) \<and>
   g_downline (genealogy_of (tr_arena matrix_sample)) 2 0 @ [2] = [4, 5, 2] \<and>
   g_members (genealogy_of (tr_arena matrix_tanked)) =
     g_members (genealogy_of (tr_arena matrix_sample)) - set (g_downline (genealogy_of (tr_arena matrix_sample)) 2 0 @ [2])"
  using matrix_tank_removal [OF matrix_sample_wf matrix_sample_fits matrix_tanked_run]
  by (simp add: Let_def matrix_tanked_run)

theorem matrix_promotion_witness:
  "\<exists>r t' p pos. matrix_remove_node 2 PromoteEarliest matrix_sample = (Ok r, t') \<and> rr_promoted r = Some 5 \<and>
     g_parent (genealogy_of (tr_arena t')) 5 = Some p \<and> member_rows t' p = (member_rows matrix_sample p)[pos := Some 5] \<and> matrix_wf t'"
proof -
  let ?r = "\<lparr>rr_removed = 2, rr_promoted = Some 5, rr_repositioned = [4],
     rr_moved_to_tank = [], rr_relocated = [\<lparr>rl_user_id = 5, rl_parent_id = 1, rl_position = 0, rl_depth = 1\<rparr>,
       \<lparr>rl_user_id = 4, rl_parent_id = 5, rl_position = 0, rl_depth = 2\<rparr>],
     rr_responsored = [\<lparr>rs_user_id = 4, rs_new_sponsor_id = 1\<rparr>, \<lparr>rs_user_id = 5, rs_new_sponsor_id = 1\<rparr>]\<rparr>"
  let ?t' = "snd (matrix_remove_node 2 PromoteEarliest matrix_sample)"
  have run: "matrix_remove_node 2 PromoteEarliest matrix_sample = (Ok ?r, ?t')" by (rule prod_eqI) (simp_all add: matrix_sample_runs)
  have "rr_promoted ?r = Some 5" by simp
  with matrix_promotion [OF matrix_sample_wf matrix_sample_fits run] run show ?thesis
    unfolding Let_def matrix_sample_children by (metis (no_types, lifting) list.distinct(1) option.inject)
qed

theorem matrix_leaf_removal_witness:
  "\<exists>r t'. matrix_remove_node 4 PromoteEarliest matrix_sample = (Ok r, t') \<and> rr_responsored r \<noteq> [] \<and>
     genealogy_of (tr_arena t') = g_leave 4 (genealogy_of (tr_arena matrix_sample))"
proof (intro exI conjI)
  let ?r = "\<lparr>rr_removed = 4, rr_promoted = None, rr_repositioned = [],
     rr_moved_to_tank = [], rr_relocated = [], rr_responsored = [\<lparr>rs_user_id = 6, rs_new_sponsor_id = 2\<rparr>]\<rparr>"
  let ?t' = "snd (matrix_remove_node 4 PromoteEarliest matrix_sample)"
  show run: "matrix_remove_node 4 PromoteEarliest matrix_sample = (Ok ?r, ?t')" by (rule prod_eqI) (simp_all add: matrix_sample_runs)
  show "genealogy_of (tr_arena ?t') = g_leave 4 (genealogy_of (tr_arena matrix_sample))"
    using matrix_leaf_removal [OF matrix_sample_wf matrix_sample_fits run matrix_sample_children(2)] by blast
qed simp


theorem matrix_branches_witness:
  "answers (matrix_get_branch matrix_sample 2 1) (5 # g_downline (genealogy_of (tr_arena matrix_sample)) 5 0) \<and>
   matrix_get_branch matrix_sample 2 2 = Err (PositionOutOfRange 2 2 2)"
proof -
  have "usize_width matrix_sample = 2" by (simp add: matrix_sample_eq)
  then show ?thesis
    using matrix_branches [OF matrix_sample_wf matrix_sample_members, of 1]
      matrix_branches [OF matrix_sample_wf matrix_sample_members, of 2]
    by (simp add: matrix_sample_runs Let_def)
qed

end
