(* ===== verification/Board.thy ===== *)
theory Board
  imports Forest Snapshot Rows
begin

text \<open>
  One board of the board plan (\<open>src/board_plan/board.rs\<close>): a complete tree of fixed width and
  height, stored as a flat breadth-first array of positions, with the index arithmetic that
  navigates it and the search that collects a subtree. The arithmetic is on \<open>nat\<close>: the engine
  only runs it behind the checks on the dimensions, which bound the array by 781 positions.
\<close>

section \<open>Boards\<close>

record board =
  bd_id :: uuid
  bd_positions :: "uuid option list"
  bd_created_at :: i64
  bd_seq :: u64
  bd_last_activity_at :: i64
  bd_parent_board_id :: "uuid option"

text \<open>\<open>Uuid::new_v4\<close> draws the identifier from outside; it is the argument \<open>fresh\<close>.\<close>

definition board_new :: "uuid \<Rightarrow> nat \<Rightarrow> i64 \<Rightarrow> uuid option \<Rightarrow> u64 \<Rightarrow> board" where
  "board_new fresh positions timestamp parent_id seq = \<lparr>bd_id = fresh, bd_positions = replicate positions None,
     bd_created_at = timestamp, bd_seq = seq, bd_last_activity_at = timestamp, bd_parent_board_id = parent_id\<rparr>"

definition is_full :: "board \<Rightarrow> bool" where
  "is_full b \<longleftrightarrow> list_all (\<lambda>p. p \<noteq> None) (bd_positions b)"

definition filled_count :: "board \<Rightarrow> nat" where
  "filled_count b = length (filter (\<lambda>p. p \<noteq> None) (bd_positions b))"

definition first_open_position :: "board \<Rightarrow> nat option" where
  "first_open_position b = position (\<lambda>p. p = None) (bd_positions b)"

definition board_members :: "board \<Rightarrow> uuid list" where
  "board_members b = occupied (bd_positions b)"

section \<open>Index arithmetic\<close>

definition total_positions :: "u8 \<Rightarrow> u8 \<Rightarrow> nat" where
  "total_positions width height = fst (fold (\<lambda>_ (sum, level_size). (sum + level_size, level_size * unat width))
     [0..<Suc (unat height)] (0, 1))"

definition parent_index :: "nat \<Rightarrow> u8 \<Rightarrow> nat option" where
  "parent_index i width = (if i = 0 then None else Some ((i - 1) div unat width))"

definition child_indices :: "nat \<Rightarrow> u8 \<Rightarrow> nat list" where
  "child_indices i width = (let w = unat width; first = w * i + 1 in [first..<first + w])"

definition subtree_body ::
  "u8 \<Rightarrow> nat \<Rightarrow> nat list \<times> nat list \<Rightarrow> ('e, (nat list \<times> nat list) + nat list) result" where
  "subtree_body width max_index st = (case st of (queue, found) \<Rightarrow> (case queue of
      [] \<Rightarrow> Ok (Inr found)
    | idx # rest \<Rightarrow> if max_index < idx then Ok (Inl (rest, found))
        else Ok (Inl (rest @ filter (\<lambda>child. child \<le> max_index) (child_indices idx width), found @ [idx]))))"

definition subtree_indices :: "nat \<Rightarrow> u8 \<Rightarrow> nat \<Rightarrow> ('e, nat list) result" where
  "subtree_indices root_index width max_index = run_loop (subtree_body width max_index) ([root_index], [])"

end
