(* ===== verification/Board_Index.thy ===== *)
theory Board_Index
  imports Board
begin

text \<open>
  The index arithmetic of a board: the number of positions as a geometric sum, parents and
  children as inverse maps, and the search below a child of the root as a run per level. The
  subtrees of the root's children split the positions below the root, and each has the shape of a
  board one level lower.
\<close>

section \<open>Level sizes\<close>

definition level_start :: "nat \<Rightarrow> nat \<Rightarrow> nat" where
  "level_start w k = (\<Sum>i<k. w ^ i)"

lemma level_start_0 [simp]: "level_start w 0 = 0"
  by (simp add: level_start_def)

lemma level_start_Suc: "level_start w (Suc k) = level_start w k + w ^ k"
  by (simp add: level_start_def)

lemma level_start_step: "level_start w (Suc k) = w * level_start w k + 1"
proof (induction k)
  case (Suc k)
  have "level_start w (Suc (Suc k)) = level_start w (Suc k) + w * w ^ k" by (simp add: level_start_Suc)
  also have "\<dots> = w * level_start w k + 1 + w * w ^ k" using Suc by simp
  also have "\<dots> = w * level_start w (Suc k) + 1" by (simp add: level_start_Suc algebra_simps)
  finally show ?case .
qed (simp add: level_start_Suc)

lemma level_start_mono: "k \<le> n \<Longrightarrow> level_start w k \<le> level_start w n"
  by (induction n) (auto simp: level_start_Suc le_Suc_eq)

lemma total_fold:
  "fold (\<lambda>_ (sum, size). (sum + size, size * w)) [0..<n] (0, 1) = (level_start w n, w ^ n)"
  by (induction n) (simp_all add: level_start_Suc)

lemma total_positions_eq: "total_positions width height = level_start (unat width) (Suc (unat height))"
  unfolding total_positions_def total_fold by simp

lemma total_positions_Suc:
  "total_positions width height = level_start (unat width) (unat height) + unat width ^ unat height"
  by (simp add: total_positions_eq level_start_Suc)

lemma total_positions_bounds:
  assumes "2 \<le> width" "width \<le> 5" "1 \<le> height" "height \<le> 4"
  shows "3 \<le> total_positions width height" "total_positions width height \<le> 781"
proof -
  define w h where "w = unat width" and "h = unat height"
  have w: "w \<in> {2, 3, 4, 5}" and h: "h \<in> {1, 2, 3, 4}"
    using assms by (auto simp: word_le_nat_alt w_def h_def)
  have "level_start w (Suc (Suc 0)) \<le> level_start w (Suc h)" using h by (intro level_start_mono) auto
  moreover have "3 \<le> level_start w (Suc (Suc 0))" using w by (auto simp: level_start_Suc)
  moreover have "level_start w (Suc h) \<le> level_start w (Suc (Suc (Suc (Suc (Suc 0)))))" using h by (intro level_start_mono) auto
  moreover have "level_start w (Suc (Suc (Suc (Suc (Suc 0))))) \<le> 781" using w by (auto simp: level_start_Suc)
  ultimately have "3 \<le> level_start w (Suc h) \<and> level_start w (Suc h) \<le> 781" by linarith
  then show "3 \<le> total_positions width height" "total_positions width height \<le> 781"
    by (simp_all add: total_positions_eq w_def h_def)
qed

section \<open>Parents and children\<close>

lemma in_child_indices: "c \<in> set (child_indices i width) \<longleftrightarrow> unat width * i < c \<and> c \<le> unat width * i + unat width"
  by (auto simp: child_indices_def Let_def)

lemma parent_child:
  assumes "0 < width"
  shows "parent_index c width = Some i \<longleftrightarrow> c \<in> set (child_indices i width)"
proof -
  have w: "0 < unat width" using assms by (simp add: word_less_nat_alt)
  show ?thesis
  proof (cases c)
    case (Suc d)
    have "d div unat width = i \<longleftrightarrow> unat width * i \<le> d \<and> d < unat width * i + unat width"
      using w by (metis add.commute div_nat_eqI le_add_diff_inverse mult.commute mult_Suc dividend_less_times_div less_eq_div_iff_mult_less_eq order_refl times_div_less_eq_dividend)
    with Suc show ?thesis by (simp add: parent_index_def in_child_indices less_Suc_eq_le Suc_le_eq)
  qed (simp add: parent_index_def in_child_indices)
qed

section \<open>The search below a position\<close>

abbreviation below :: "u8 \<Rightarrow> nat \<Rightarrow> nat \<Rightarrow> nat list" where
  "below width m i \<equiv> filter (\<lambda>c. c \<le> m) (child_indices i width)"

lemma subtree_fifo:
  assumes "fifo (below width m) q out" "\<forall>i \<in> set out. i \<le> m"
  shows "run_loop (subtree_body width m) (q, acc) = (Ok (acc @ out) :: ('e, nat list) result)"
  using assms
proof (induction arbitrary: acc rule: fifo.induct)
  case (fifo_Cons q x out)
  have "run_loop (subtree_body width m) (x # q, acc) =
      (run_loop (subtree_body width m) (q @ below width m x, acc @ [x]) :: ('e, nat list) result)"
    using fifo_Cons.prems by (intro run_loop_next) (simp add: subtree_body_def)
  with fifo_Cons show ?case by simp
qed (simp add: run_loop_done subtree_body_def)

lemma children_run: "concat (map (\<lambda>i. child_indices i width) [s..<s + n]) =
    [unat width * s + 1..<unat width * s + 1 + unat width * n]"
proof (induction n)
  case (Suc n)
  have "[unat width * s + 1..<unat width * s + 1 + unat width * Suc n] =
      [unat width * s + 1..<unat width * s + 1 + unat width * n] @
      [unat width * s + 1 + unat width * n..<unat width * s + 1 + unat width * Suc n]"
    using upt_add_eq_append [of "unat width * s + 1" "unat width * s + 1 + unat width * n" "unat width"]
    by (simp add: algebra_simps)
  with Suc show ?case by (simp add: child_indices_def Let_def algebra_simps)
qed simp

lemma kids_run:
  "kids (below width m) (filter (\<lambda>c. c \<le> m) [s..<s + n]) =
     filter (\<lambda>c. c \<le> m) [unat width * s + 1..<unat width * s + 1 + unat width * n]"
  (is "?lhs = ?rhs")
proof -
  have "below width m i = []" if "\<not> i \<le> m" "0 < unat width" for i
  proof -
    have "i \<le> unat width * i" using that(2) by simp
    with that(1) have "m < unat width * i + 1" by linarith
    then show ?thesis by (auto simp: filter_empty_conv in_child_indices)
  qed
  then have "concat (map (below width m) (filter (\<lambda>c. c \<le> m) xs)) = concat (map (below width m) xs)" for xs
    by (induction xs) (auto simp: child_indices_def Let_def)
  moreover have "concat (map (below width m) xs) = filter (\<lambda>c. c \<le> m) (concat (map (\<lambda>i. child_indices i width) xs))" for xs
    by (induction xs) auto
  ultimately show ?thesis by (simp add: kids_def children_run)
qed


lemma level_run:
  "(kids (below width m) ^^ k) (filter (\<lambda>c. c \<le> m) [c]) =
     filter (\<lambda>c. c \<le> m) [level_start (unat width) k + unat width ^ k * c..<
       level_start (unat width) k + unat width ^ k * c + unat width ^ k]"
proof (induction k)
  case (Suc k)
  let ?w = "unat width" and ?s = "level_start (unat width) k + unat width ^ k * c"
  have start: "?w * ?s + 1 = level_start ?w (Suc k) + ?w ^ Suc k * c"
    by (simp add: level_start_step algebra_simps)
  have "(kids (below width m) ^^ Suc k) (filter (\<lambda>c. c \<le> m) [c]) = kids (below width m) (filter (\<lambda>c. c \<le> m) [?s..<?s + ?w ^ k])"
    using Suc by simp
  then show ?case unfolding kids_run start by simp
qed simp

text \<open>
  Below a child \<open>c\<close> of the root of a board of height \<open>h\<close>, level \<open>k\<close> of the subtree is the run of
  \<open>w ^ k\<close> positions that starts \<open>w ^ k * c\<close> after the start of level \<open>k\<close> of a board.
\<close>

definition split_run :: "nat \<Rightarrow> nat \<Rightarrow> nat \<Rightarrow> nat list" where
  "split_run w c k = [level_start w k + w ^ k * c..<level_start w k + w ^ k * c + w ^ k]"

definition split_indices :: "nat \<Rightarrow> nat \<Rightarrow> nat \<Rightarrow> nat list" where
  "split_indices w h c = concat (map (split_run w c) [0..<h])"

lemma split_run_inside:
  assumes "c \<in> {1..w}" "k < h" "i \<in> set (split_run w c k)"
  shows "0 < i" "i < level_start w (Suc h)"
proof -
  have "w ^ k * c \<le> w ^ k * w" using assms(1) by (intro mult_le_mono2) simp
  moreover have "level_start w (Suc (Suc k)) = level_start w k + w ^ k + w ^ k * w" by (simp add: level_start_Suc)
  moreover have "i < level_start w k + w ^ k * c + w ^ k" using assms(3) by (simp add: split_run_def)
  ultimately have "i < level_start w (Suc (Suc k))" by linarith
  also have "\<dots> \<le> level_start w (Suc h)" by (rule level_start_mono) (use assms(2) in simp)
  finally show "i < level_start w (Suc h)" .
  have "0 < w ^ k * c" using assms(1) by auto
  moreover have "level_start w k + w ^ k * c \<le> i" using assms(3) by (simp add: split_run_def)
  ultimately show "0 < i" by linarith
qed

lemma level_start_ge: "0 < w \<Longrightarrow> k \<le> level_start w k"
proof (induction k)
  case (Suc k)
  moreover have "1 \<le> w ^ k" using Suc.prems by simp
  ultimately show ?case unfolding level_start_Suc by linarith
qed simp

lemma split_run_ge:
  assumes "i \<in> set (split_run w c k)"
  shows "c \<le> i" "k \<le> i"
proof -
  have i: "level_start w k + w ^ k * c \<le> i" "i < level_start w k + w ^ k * c + w ^ k" using assms by (simp_all add: split_run_def)
  then have w: "0 < w ^ k" by linarith
  then have "1 * c \<le> w ^ k * c" by (intro mult_le_mono1) linarith
  with i(1) show "c \<le> i" by linarith
  show "k \<le> i"
  proof (cases "w = 0")
    case True
    with w have "k = 0" by (cases k) auto
    then show ?thesis by simp
  next
    case False
    then have "k \<le> level_start w k" by (intro level_start_ge) simp
    with i(1) show ?thesis by linarith
  qed
qed

text \<open>The search ends on every input, and returns the levels of the subtree that are inside.\<close>

lemma subtree_indices_levels:
  "subtree_indices r width m = (Ok (filter (\<lambda>i. i \<le> m) (concat (map (split_run (unat width) r) [0..<Suc m]))) :: ('e, nat list) result)"
proof (cases "r \<le> m")
  case True
  let ?w = "unat width" and ?lev = "\<lambda>k. filter (\<lambda>i. i \<le> m) (split_run (unat width) r k)"
  have lev: "(kids (below width m) ^^ k) [r] = ?lev k" for k
    using level_run [where width = width and m = m and k = k and c = r] True by (simp add: split_run_def)
  have "?lev (Suc m) = []" using split_run_ge(2) [of _ ?w r "Suc m"] by (fastforce simp: filter_empty_conv)
  then have "(kids (below width m) ^^ Suc m) [r] = []" by (simp only: lev)
  from fifo_levels [where down = "below width m" and n = "Suc m" and q = "[r]", OF this]
  have "fifo (below width m) [r] (concat (map ?lev [0..<Suc m]))" by (simp only: lev)
  moreover have "concat (map ?lev [0..<Suc m]) = filter (\<lambda>i. i \<le> m) (concat (map (split_run ?w r) [0..<Suc m]))"
    by (simp only: filter_concat map_map o_def)
  ultimately have "fifo (below width m) [r] (filter (\<lambda>i. i \<le> m) (concat (map (split_run ?w r) [0..<Suc m])))" by simp
  from subtree_fifo [OF this, where acc = "[]"] show ?thesis by (simp add: subtree_indices_def del: upt_Suc)
next
  case False
  have "run_loop (subtree_body width m) ([r], []) = (run_loop (subtree_body width m) ([], []) :: ('e, nat list) result)"
    using False by (intro run_loop_next) (simp add: subtree_body_def)
  moreover have "filter (\<lambda>i. i \<le> m) (concat (map (split_run (unat width) r) [0..<Suc m])) = []"
    using False split_run_ge(1) [of _ "unat width" r] by (fastforce simp: filter_empty_conv)
  ultimately show ?thesis by (simp add: subtree_indices_def run_loop_done subtree_body_def)
qed

lemma subtree_indices_eq:
  assumes w: "0 < unat width" and c: "c \<in> {1..unat width}" and h: "0 < h"
  shows "subtree_indices c width (level_start (unat width) (Suc h) - 1) = (Ok (split_indices (unat width) h c) :: ('e, nat list) result)"
proof -
  let ?w = "unat width" and ?m = "level_start (unat width) (Suc h) - 1"
  have ge: "Suc h \<le> level_start ?w (Suc h)" by (rule level_start_ge [OF w])
  have inside: "filter (\<lambda>i. i \<le> ?m) (split_run ?w c k) = split_run ?w c k" if "k < h" for k
    using split_run_inside(2) [OF c that] ge by (intro filter_True) force
  have outside: "filter (\<lambda>i. i \<le> ?m) (split_run ?w c k) = []" if "h \<le> k" for k
  proof -
    have "level_start ?w (Suc k) \<le> i" if "i \<in> set (split_run ?w c k)" for i
    proof -
      have "?w ^ k \<le> ?w ^ k * c" "level_start ?w k + ?w ^ k * c \<le> i" using c that by (simp_all add: split_run_def)
      then show ?thesis unfolding level_start_Suc by linarith
    qed
    moreover have "level_start ?w (Suc h) \<le> level_start ?w (Suc k)" using that by (intro level_start_mono) simp
    ultimately show ?thesis using ge by (fastforce simp: filter_empty_conv)
  qed
  have "[0..<Suc ?m] = [0..<h] @ [h..<Suc ?m]" using ge upt_add_eq_append [of 0 h "Suc ?m - h"] by simp
  then have "filter (\<lambda>i. i \<le> ?m) (concat (map (split_run ?w c) [0..<Suc ?m])) =
      concat (map (\<lambda>k. filter (\<lambda>i. i \<le> ?m) (split_run ?w c k)) [0..<h]) @
      concat (map (\<lambda>k. filter (\<lambda>i. i \<le> ?m) (split_run ?w c k)) [h..<Suc ?m])"
    by (simp only: filter_concat map_map o_def map_append concat_append filter_append)
  also have "map (\<lambda>k. filter (\<lambda>i. i \<le> ?m) (split_run ?w c k)) [0..<h] = map (split_run ?w c) [0..<h]"
    by (rule map_cong [OF refl]) (simp only: set_upt atLeastLessThan_iff inside)
  also have "concat (map (\<lambda>k. filter (\<lambda>i. i \<le> ?m) (split_run ?w c k)) [h..<Suc ?m]) = []"
    by (simp only: concat_eq_Nil_conv set_map set_upt) (use outside in fastforce)
  finally have "filter (\<lambda>i. i \<le> ?m) (concat (map (split_run ?w c) [0..<Suc ?m])) = split_indices ?w h c"
    by (simp only: split_indices_def append_Nil2)
  then show ?thesis by (simp only: subtree_indices_levels)
qed

section \<open>The subtrees of the root's children\<close>

lemma split_indices_Suc: "split_indices w (Suc h) c = split_indices w h c @ split_run w c h"
  by (simp add: split_indices_def)

lemma split_indices_length [simp]: "length (split_indices w h c) = level_start w h"
  by (induction h) (simp_all add: split_indices_Suc level_start_Suc, simp_all add: split_indices_def split_run_def)

lemma split_indices_nth:
  assumes "k < h" "d < w ^ k"
  shows "split_indices w h c ! (level_start w k + d) = level_start w k + w ^ k * c + d"
  using assms(1)
proof (induction h)
  case (Suc h)
  show ?case
  proof (cases "k = h")
    case True
    with assms(2) show ?thesis by (simp add: split_indices_Suc nth_append split_run_def)
  next
    case False
    with Suc.prems have "k < h" by simp
    moreover from this have "level_start w k + d < level_start w h"
      using assms(2) level_start_mono [of "Suc k" h w] by (simp add: level_start_Suc)
    ultimately show ?thesis using Suc.IH by (simp add: split_indices_Suc nth_append)
  qed
qed simp

lemma concat_runs: "concat (map (\<lambda>c. [s + n * c..<s + n * c + n]) [a..<a + m]) = [s + n * a..<s + n * (a + m)]"
proof (induction m)
  case (Suc m)
  have "[s + n * a..<s + n * (a + Suc m)] = [s + n * a..<s + n * (a + m)] @ [s + n * (a + m)..<s + n * (a + m) + n]"
    using upt_add_eq_append [of "s + n * a" "s + n * (a + m)" n] by (simp add: algebra_simps)
  with Suc show ?case by simp
qed simp

lemma mset_concat_append: "mset (concat (map (\<lambda>c. f c @ g c) xs)) = mset (concat (map f xs)) + mset (concat (map g xs))"
  by (induction xs) simp_all

lemma split_partition: "mset (concat (map (split_indices w h) [1..<Suc w])) = mset [1..<level_start w (Suc h)]"
proof (induction h)
  case (Suc h)
  have "concat (map (\<lambda>c. split_run w c h) [1..<1 + w]) = [level_start w h + w ^ h * 1..<level_start w h + w ^ h * (1 + w)]"
    unfolding split_run_def by (rule concat_runs)
  also have "\<dots> = [level_start w (Suc h)..<level_start w (Suc (Suc h))]" by (simp add: level_start_Suc algebra_simps)
  finally have runs: "concat (map (\<lambda>c. split_run w c h) [1..<Suc w]) = [level_start w (Suc h)..<level_start w (Suc (Suc h))]"
    by (simp only: plus_1_eq_Suc)
  have "1 \<le> level_start w (Suc h)" by (simp add: level_start_step)
  then have "[1..<level_start w (Suc (Suc h))] = [1..<level_start w (Suc h)] @ [level_start w (Suc h)..<level_start w (Suc (Suc h))]"
    using level_start_mono [of "Suc h" "Suc (Suc h)" w] upt_add_eq_append [of 1 "level_start w (Suc h)" "w ^ Suc h"]
    by (simp add: level_start_Suc)
  then show ?case unfolding split_indices_Suc mset_concat_append runs Suc by (simp only: mset_append)
next
  case 0
  show ?case by (simp add: level_start_def split_indices_def del: upt_Suc)
qed

end
