(* ===== verification/Board_Plan.thy ===== *)
theory Board_Plan
  imports Board "HOL-Library.Product_Lexorder"
begin

text \<open>
  The board plan engine (\<open>src/board_plan/engine.rs\<close>): boards that fill, cycle out their top
  member and split, the re-entry of the cycled member, members displaced from their board, and the
  validation of a restored engine. This theory has the data and all operations.

  Board identifiers come from \<open>Uuid::new_v4\<close>, outside the crate: \<open>gen s\<close> is the identifier drawn
  for the board with sequence number \<open>s\<close>. The engine draws one identifier per sequence number.
\<close>

section \<open>Data\<close>

datatype board_plan_error =
    MemberAlreadyExists uuid
  | MemberAwaitingReassignment uuid
  | BoardSponsorNotFound uuid
  | BoardNotFound uuid
  | MemberNotFound uuid
  | NoBoardsAvailable
  | BoardFull uuid nat nat
  | InvalidDimensions u8 u8 string

datatype re_entry_position = Bottom | SponsorBoard

record 'd board_plan_config =
  bc_cycle_commission :: 'd
  bc_re_entry_enabled :: bool
  bc_re_entry_position :: re_entry_position
  bc_max_cycles_per_period :: u32
  bc_max_cascade_depth :: u32
  bc_stall_threshold_periods :: u32
  bc_inactive_compression :: bool

record cycle_event =
  ce_board_id :: uuid
  ce_cycled_member :: uuid
  ce_new_boards :: "uuid list"
  ce_re_entry_board :: "uuid option"

record add_member_result =
  am_board_id :: uuid
  am_position :: nat
  am_cycle_events :: "cycle_event list"

record remove_member_result =
  rm_compacted :: "uuid list"
  rm_cycle_events :: "cycle_event list"

record stalled_board =
  sb_board_id :: uuid
  sb_last_activity_at :: i64
  sb_filled_positions :: nat
  sb_total_positions :: nat
  sb_members :: "uuid list"

record dissolution_result =
  dr_dissolved_board_id :: uuid
  dr_displaced_members :: "uuid list"
  dr_cycle_events :: "cycle_event list"

record compressed_member =
  cm_user_id :: uuid
  cm_board_id :: uuid

record compression_result =
  cr_compressed :: "compressed_member list"
  cr_cycle_events :: "cycle_event list"

record board_summary =
  bs_id :: uuid
  bs_filled_count :: nat
  bs_total_positions :: nat
  bs_created_at :: i64
  bs_last_activity_at :: i64
  bs_parent_board_id :: "uuid option"

record 'd board_engine =
  be_width :: u8
  be_height :: u8
  be_total_positions :: nat
  be_boards :: "(uuid, board) hmap"
  be_member_boards :: "(uuid, uuid) hmap"
  be_sponsor_map :: "(uuid, uuid) hmap"
  be_displaced_members :: "uuid list"
  be_next_board_seq :: u64
  be_config :: "'d board_plan_config"

section \<open>Construction\<close>

text \<open>The decimal rendering of \<open>{width}\<close> in the error message.\<close>

fun show_nat :: "nat \<Rightarrow> string" where
  "show_nat n = (if n < 10 then [char_of (48 + n)] else show_nat (n div 10) @ [char_of (48 + n mod 10)])"

declare show_nat.simps [simp del]

definition engine_new ::
  "(u64 \<Rightarrow> uuid) \<Rightarrow> u8 \<Rightarrow> u8 \<Rightarrow> 'd board_plan_config \<Rightarrow> i64 \<Rightarrow> (board_plan_error, 'd board_engine) result" where
  "engine_new gen width height config timestamp =
     (if \<not> (2 \<le> width \<and> width \<le> 5)
      then Err (InvalidDimensions width height (''width must be 2-5 (got '' @ show_nat (unat width) @ '')''))
      else if \<not> (1 \<le> height \<and> height \<le> 4)
      then Err (InvalidDimensions width height (''height must be 1-4 (got '' @ show_nat (unat height) @ '')''))
      else (let positions = total_positions width height;
                initial_board = board_new (gen 0) positions timestamp None 0 in
        Ok \<lparr>be_width = width, be_height = height, be_total_positions = positions,
          be_boards = hm_insert (bd_id initial_board) initial_board [], be_member_boards = [], be_sponsor_map = [],
          be_displaced_members = [], be_next_board_seq = 1, be_config = config\<rparr>))"

section \<open>Placement\<close>

abbreviation age :: "board \<Rightarrow> i64 \<times> u64" where
  "age b \<equiv> (bd_created_at b, bd_seq b)"

definition oldest_board_with_opening :: "'d board_engine \<Rightarrow> (board_plan_error, uuid) result" where
  "oldest_board_with_opening e =
     ok_or (map_option bd_id (min_by_key age (filter (\<lambda>b. first_open_position b \<noteq> None) (map snd (be_boards e)))))
       NoBoardsAvailable"

definition find_placement_board :: "'d board_engine \<Rightarrow> uuid \<Rightarrow> (board_plan_error, uuid) result" where
  "find_placement_board e sponsor_id = (case bc_re_entry_position (be_config e) of
      Bottom \<Rightarrow> oldest_board_with_opening e
    | SponsorBoard \<Rightarrow> (case hm_get (be_member_boards e) sponsor_id of
        Some sponsor_board_id \<Rightarrow> (case hm_get (be_boards e) sponsor_board_id of
            Some b \<Rightarrow> if first_open_position b \<noteq> None then Ok sponsor_board_id else oldest_board_with_opening e
          | None \<Rightarrow> oldest_board_with_opening e)
      | None \<Rightarrow> oldest_board_with_opening e))"

text \<open>
  \<open>seat\<close>: the three writes that put a member on an open position of a board the map holds.
\<close>

definition seat :: "uuid \<Rightarrow> board \<Rightarrow> nat \<Rightarrow> uuid \<Rightarrow> i64 \<Rightarrow> 'd board_engine \<Rightarrow> 'd board_engine" where
  "seat board_id b pos member timestamp e =
     e\<lparr>be_boards := hm_insert board_id
         (b\<lparr>bd_positions := (bd_positions b)[pos := Some member], bd_last_activity_at := timestamp\<rparr>) (be_boards e),
       be_member_boards := hm_insert member board_id (be_member_boards e)\<rparr>"

definition displace :: "uuid \<Rightarrow> 'd board_engine \<Rightarrow> 'd board_engine" where
  "displace member e = e\<lparr>be_displaced_members := be_displaced_members e @ [member]\<rparr>"

section \<open>Cycling\<close>

definition u64_add :: "u64 \<Rightarrow> u64 \<Rightarrow> ('e, u64) result" where
  "u64_add a b = (if unat a + unat b < 2 ^ 64 then Ok (a + b) else Panic)"

definition new_board ::
  "(u64 \<Rightarrow> uuid) \<Rightarrow> i64 \<Rightarrow> uuid option \<Rightarrow> ('d board_engine, 'e, board) sm" where
  "new_board gen timestamp parent_id = sbind (sgets (\<lambda>e. Ok (be_next_board_seq e))) (\<lambda>seq.
     sbind (sgets (\<lambda>e. u64_add (be_next_board_seq e) 1)) (\<lambda>next_seq.
     sbind (smodify (\<lambda>e. e\<lparr>be_next_board_seq := next_seq\<rparr>)) (\<lambda>_.
     sgets (\<lambda>e. Ok (board_new (gen seq) (be_total_positions e) timestamp parent_id seq)))))"

text \<open>One member of the split board moves to its place on the new board.\<close>

definition move_member ::
  "board \<Rightarrow> nat \<times> nat \<Rightarrow> board \<Rightarrow> ('d board_engine, 'e, board) sm" where
  "move_member b np new_b = (case np of (new_pos, old_index) \<Rightarrow>
     sbind (sgets (\<lambda>_. index_at (bd_positions b) old_index)) (\<lambda>occupant. case occupant of
         None \<Rightarrow> sret new_b
       | Some member_id \<Rightarrow> sbind (sgets (\<lambda>_. index_at (bd_positions new_b) new_pos)) (\<lambda>_.
           sbind (smodify (\<lambda>e. e\<lparr>be_member_boards := hm_insert member_id (bd_id new_b) (be_member_boards e)\<rparr>)) (\<lambda>_.
           sret (new_b\<lparr>bd_positions := (bd_positions new_b)[new_pos := Some member_id]\<rparr>)))))"

definition split_child ::
  "(u64 \<Rightarrow> uuid) \<Rightarrow> board \<Rightarrow> i64 \<Rightarrow> nat \<Rightarrow> nat \<Rightarrow> uuid list \<Rightarrow> ('d board_engine, 'e, uuid list) sm" where
  "split_child gen b timestamp max_index child_index new_board_ids =
     sbind (sgets (\<lambda>e. subtree_indices child_index (be_width e) max_index)) (\<lambda>subtree.
     sbind (new_board gen timestamp (Some (bd_id b))) (\<lambda>new_b.
     sbind (sfold (move_member b) (enumerate 0 subtree) new_b) (\<lambda>new_b.
     sbind (smodify (\<lambda>e. e\<lparr>be_boards := hm_insert (bd_id new_b) new_b (be_boards e)\<rparr>)) (\<lambda>_.
     sret (new_board_ids @ [bd_id new_b])))))"

definition split_board :: "(u64 \<Rightarrow> uuid) \<Rightarrow> board \<Rightarrow> i64 \<Rightarrow> ('d board_engine, 'e, uuid list) sm" where
  "split_board gen b timestamp =
     sbind (sgets (\<lambda>e. Ok (unat (be_width e)))) (\<lambda>w.
     sbind (sgets (\<lambda>e. if be_total_positions e = 0 then Panic else Ok (be_total_positions e - 1))) (\<lambda>max_index.
     sfold (split_child gen b timestamp max_index) [1..<Suc w] []))"

text \<open>Where the cycled member goes: onto a board with an opening, or to the displaced members.\<close>

definition re_enter :: "uuid \<Rightarrow> i64 \<Rightarrow> ('d board_engine, 'e, uuid option) sm" where
  "re_enter cycled_member timestamp e =
     (if \<not> bc_re_entry_enabled (be_config e) then (Ok None, displace cycled_member e)
      else (let sponsor_id = (case hm_get (be_sponsor_map e) cycled_member of Some s \<Rightarrow> s | None \<Rightarrow> cycled_member) in
        (case find_placement_board e sponsor_id of
           Ok target_board_id \<Rightarrow> (case hm_get (be_boards e) target_board_id of
               Some target \<Rightarrow> (case first_open_position target of
                   Some pos \<Rightarrow> (Ok (Some target_board_id), seat target_board_id target pos cycled_member timestamp e)
                 | None \<Rightarrow> (Ok None, displace cycled_member e))
             | None \<Rightarrow> (Ok None, displace cycled_member e))
         | _ \<Rightarrow> (Ok None, displace cycled_member e))))"

definition board_is_full :: "'d board_engine \<Rightarrow> uuid \<Rightarrow> bool" where
  "board_is_full e board_id = (case hm_get (be_boards e) board_id of Some b \<Rightarrow> is_full b | None \<Rightarrow> False)"

text \<open>
  \<open>process_cycles\<close> calls itself with a depth one larger and stops at the configured maximum, so the
  recursion is bounded. \<open>cycles_within\<close> takes the bound as fuel; \<open>process_cycles\<close> supplies enough of
  it, and running out of fuel would show as \<open>Diverge\<close>.
\<close>

primrec cycles_within ::
  "nat \<Rightarrow> (u64 \<Rightarrow> uuid) \<Rightarrow> i64 \<Rightarrow> uuid \<Rightarrow> u32 \<Rightarrow> cycle_event list \<Rightarrow> ('d board_engine, 'e, cycle_event list) sm" where
  "cycles_within 0 gen timestamp board_id depth events = sgets (\<lambda>_. Diverge)"
| "cycles_within (Suc fuel) gen timestamp board_id depth events =
     sbind (sgets (\<lambda>e. Ok (bc_max_cascade_depth (be_config e) \<le> depth))) (\<lambda>too_deep.
     if too_deep then sret events else
     sbind (sgets (\<lambda>e. Ok (hm_get (be_boards e) board_id))) (\<lambda>found. case found of
         None \<Rightarrow> sret events
       | Some b \<Rightarrow> if \<not> is_full b then sret events else
           sbind (sgets (\<lambda>_. index_at (bd_positions b) 0)) (\<lambda>top. case top of
               None \<Rightarrow> sret events
             | Some cycled_member \<Rightarrow>
                 sbind (split_board gen b timestamp) (\<lambda>new_board_ids.
                 sbind (smodify (\<lambda>e. e\<lparr>be_boards := hm_remove board_id (be_boards e)\<rparr>)) (\<lambda>_.
                 sbind (smodify (\<lambda>e. e\<lparr>be_member_boards := hm_remove cycled_member (be_member_boards e)\<rparr>)) (\<lambda>_.
                 sbind (re_enter cycled_member timestamp) (\<lambda>re_entry_board.
                 let events' = events @ [\<lparr>ce_board_id = board_id, ce_cycled_member = cycled_member,
                   ce_new_boards = new_board_ids, ce_re_entry_board = re_entry_board\<rparr>];
                   cascade = (\<lambda>id ev. sbind (sgets (\<lambda>e. Ok (board_is_full e id))) (\<lambda>full.
                     if full then sbind (sgets (\<lambda>_. u32_add depth 1)) (\<lambda>deeper.
                       cycles_within fuel gen timestamp id deeper ev) else sret ev)) in
                 sbind (case re_entry_board of Some re_board_id \<Rightarrow> cascade re_board_id events' | None \<Rightarrow> sret events')
                   (sfold cascade new_board_ids))))))))"

definition process_cycles ::
  "(u64 \<Rightarrow> uuid) \<Rightarrow> i64 \<Rightarrow> uuid \<Rightarrow> u32 \<Rightarrow> cycle_event list \<Rightarrow> ('d board_engine, 'e, cycle_event list) sm" where
  "process_cycles gen timestamp board_id depth events = sbind (sgets (\<lambda>e. Ok (bc_max_cascade_depth (be_config e))))
     (\<lambda>max_depth. cycles_within (Suc (unat max_depth)) gen timestamp board_id depth events)"

definition drain_full_boards ::
  "(u64 \<Rightarrow> uuid) \<Rightarrow> i64 \<Rightarrow> cycle_event list \<Rightarrow> ('d board_engine, 'e, cycle_event list) sm" where
  "drain_full_boards gen timestamp events =
     sbind (sgets (\<lambda>e. Ok (map bd_id (sort_key age (filter is_full (map snd (be_boards e))))))) (\<lambda>full.
     sfold (\<lambda>board_id. process_cycles gen timestamp board_id 0) full events)"

section \<open>Joining\<close>

definition place_displaced_one ::
  "(u64 \<Rightarrow> uuid) \<Rightarrow> i64 \<Rightarrow> uuid \<Rightarrow> cycle_event list \<Rightarrow> ('d board_engine, 'e, cycle_event list) sm" where
  "place_displaced_one gen timestamp member_id events e = (case oldest_board_with_opening e of
      Ok board_id \<Rightarrow> (case hm_get (be_boards e) board_id of
          Some b \<Rightarrow> (case first_open_position b of
              Some pos \<Rightarrow> (let e' = seat board_id b pos member_id timestamp e in
                if board_is_full e' board_id then process_cycles gen timestamp board_id 0 events e'
                else (Ok events, e'))
            | None \<Rightarrow> (Ok events, displace member_id e))
        | None \<Rightarrow> (Ok events, displace member_id e))
    | _ \<Rightarrow> (Ok events, displace member_id e))"

definition place_displaced_members ::
  "(u64 \<Rightarrow> uuid) \<Rightarrow> i64 \<Rightarrow> cycle_event list \<Rightarrow> ('d board_engine, 'e, cycle_event list) sm" where
  "place_displaced_members gen timestamp events =
     sbind (sgets (\<lambda>e. Ok (be_displaced_members e))) (\<lambda>displaced.
     sbind (smodify (\<lambda>e. e\<lparr>be_displaced_members := []\<rparr>)) (\<lambda>_.
     sfold (place_displaced_one gen timestamp) displaced events))"

definition check_add_member :: "'d board_engine \<Rightarrow> uuid \<Rightarrow> uuid \<Rightarrow> (board_plan_error, unit) result" where
  "check_add_member e user sponsor_id =
     (if hm_contains (be_member_boards e) user then Err (MemberAlreadyExists user)
      else if user \<in> set (be_displaced_members e) then Err (MemberAwaitingReassignment user)
      else (let bootstrap = (be_member_boards e = [] \<and> be_sponsor_map e = []) in
        if \<not> bootstrap \<and> \<not> hm_contains (be_member_boards e) sponsor_id \<and> sponsor_id \<notin> set (be_displaced_members e)
        then Err (BoardSponsorNotFound sponsor_id)
        else if be_boards e = [] then Err NoBoardsAvailable
        else Ok ()))"

definition add_member ::
  "(u64 \<Rightarrow> uuid) \<Rightarrow> uuid \<Rightarrow> uuid \<Rightarrow> i64 \<Rightarrow> ('d board_engine, board_plan_error, add_member_result) sm" where
  "add_member gen user sponsor_id timestamp =
     sbind (sgets (\<lambda>e. check_add_member e user sponsor_id)) (\<lambda>_.
     sbind (smodify (\<lambda>e. e\<lparr>be_sponsor_map := hm_insert user sponsor_id (be_sponsor_map e)\<rparr>)) (\<lambda>_.
     sbind (drain_full_boards gen timestamp []) (\<lambda>events.
     sbind (place_displaced_members gen timestamp events) (\<lambda>events.
     sbind (sgets (\<lambda>e. find_placement_board e sponsor_id)) (\<lambda>board_id.
     sbind (sgets (\<lambda>e. ok_or (hm_get (be_boards e) board_id) (BoardNotFound board_id))) (\<lambda>b.
     sbind (sgets (\<lambda>_. ok_or (first_open_position b) NoBoardsAvailable)) (\<lambda>pos.
     sbind (smodify (seat board_id b pos user timestamp)) (\<lambda>_.
     sbind (sgets (\<lambda>e. Ok (board_is_full e board_id))) (\<lambda>full.
     sbind (if full then process_cycles gen timestamp board_id 0 events else sret events) (\<lambda>events.
     sret \<lparr>am_board_id = board_id, am_position = pos, am_cycle_events = events\<rparr>))))))))))"

section \<open>Leaving\<close>

definition replace_member ::
  "uuid \<Rightarrow> nat \<times> nat \<times> uuid \<Rightarrow> uuid list \<Rightarrow> ('d board_engine, 'e, uuid list) sm" where
  "replace_member board_id entry moved = (case entry of (new_pos, old_pos, member_id) \<Rightarrow>
     sbind (sgets (\<lambda>e. expect (hm_get (be_boards e) board_id))) (\<lambda>b.
     sbind (sgets (\<lambda>_. index_at (bd_positions b) new_pos)) (\<lambda>_.
     sbind (smodify (\<lambda>e. e\<lparr>be_boards := hm_insert board_id
       (b\<lparr>bd_positions := (bd_positions b)[new_pos := Some member_id]\<rparr>) (be_boards e)\<rparr>)) (\<lambda>_.
     sbind (smodify (\<lambda>e. e\<lparr>be_member_boards := hm_insert member_id board_id (be_member_boards e)\<rparr>)) (\<lambda>_.
     sret (if new_pos \<noteq> old_pos then moved @ [member_id] else moved))))))"

definition compact_board :: "uuid \<Rightarrow> ('d board_engine, 'e, uuid list) sm" where
  "compact_board board_id =
     sbind (sgets (\<lambda>e. Ok (hm_get (be_boards e) board_id))) (\<lambda>found. case found of
         None \<Rightarrow> sret []
       | Some b \<Rightarrow>
           let members_with_positions = List.map_filter (\<lambda>(i, p). map_option (Pair i) p) (enumerate 0 (bd_positions b)) in
           sbind (smodify (\<lambda>e. e\<lparr>be_boards := hm_insert board_id
             (b\<lparr>bd_positions := map (\<lambda>_. None) (bd_positions b)\<rparr>) (be_boards e)\<rparr>)) (\<lambda>_.
           sfold (replace_member board_id) (enumerate 0 members_with_positions) []))"

definition take_member_out ::
  "(u64 \<Rightarrow> uuid) \<Rightarrow> uuid \<Rightarrow> i64 \<Rightarrow> cycle_event list \<Rightarrow>
     ('d board_engine, board_plan_error, uuid list \<times> cycle_event list) sm" where
  "take_member_out gen user timestamp events =
     sbind (sgets (\<lambda>e. Ok (case hm_get (be_member_boards e) user of
         Some board_id \<Rightarrow> if board_is_full e board_id then Some board_id else None | None \<Rightarrow> None))) (\<lambda>full_board.
     sbind (case full_board of Some board_id \<Rightarrow> process_cycles gen timestamp board_id 0 events
       | None \<Rightarrow> sret events) (\<lambda>events.
     sbind (sgets (\<lambda>e. Ok (hm_get (be_member_boards e) user))) (\<lambda>found. case found of
         None \<Rightarrow> sbind (smodify (\<lambda>e. e\<lparr>be_displaced_members := filter (\<lambda>m. m \<noteq> user) (be_displaced_members e)\<rparr>)) (\<lambda>_.
           sret ([], events))
       | Some board_id \<Rightarrow>
           sbind (sgets (\<lambda>e. ok_or (hm_get (be_boards e) board_id) (BoardNotFound board_id))) (\<lambda>b.
           sbind (smodify (\<lambda>e. e\<lparr>be_boards := hm_insert board_id
             (b\<lparr>bd_positions := (case position (\<lambda>p. p = Some user) (bd_positions b) of
                   Some pos \<Rightarrow> (bd_positions b)[pos := None] | None \<Rightarrow> bd_positions b),
                bd_last_activity_at := timestamp\<rparr>) (be_boards e)\<rparr>)) (\<lambda>_.
           sbind (smodify (\<lambda>e. e\<lparr>be_member_boards := hm_remove user (be_member_boards e)\<rparr>)) (\<lambda>_.
           sbind (compact_board board_id) (\<lambda>compacted.
           sret (compacted, events))))))))"

definition remove_member ::
  "(u64 \<Rightarrow> uuid) \<Rightarrow> uuid \<Rightarrow> i64 \<Rightarrow> ('d board_engine, board_plan_error, remove_member_result) sm" where
  "remove_member gen user timestamp =
     sbind (sgets (\<lambda>e. if \<not> hm_contains (be_member_boards e) user \<and> user \<notin> set (be_displaced_members e)
       then Err (MemberNotFound user) else Ok ())) (\<lambda>_.
     sbind (drain_full_boards gen timestamp []) (\<lambda>events.
     sbind (take_member_out gen user timestamp events) (\<lambda>(compacted, events).
     sret \<lparr>rm_compacted = compacted, rm_cycle_events = events\<rparr>)))"

section \<open>Stalled boards and inactive members\<close>

definition detect_stalled_boards :: "'d board_engine \<Rightarrow> i64 \<Rightarrow> stalled_board list" where
  "detect_stalled_boards e cutoff_timestamp =
     map (\<lambda>b. \<lparr>sb_board_id = bd_id b, sb_last_activity_at = bd_last_activity_at b,
       sb_filled_positions = filled_count b, sb_total_positions = be_total_positions e, sb_members = board_members b\<rparr>)
     (sort_key age (filter (\<lambda>b. bd_last_activity_at b < cutoff_timestamp) (map snd (be_boards e))))"

definition dissolve_board ::
  "(u64 \<Rightarrow> uuid) \<Rightarrow> uuid \<Rightarrow> i64 \<Rightarrow> ('d board_engine, board_plan_error, dissolution_result) sm" where
  "dissolve_board gen board_id timestamp =
     sbind (sgets (\<lambda>e. case hm_get (be_boards e) board_id of
         Some b \<Rightarrow> if is_full b then Err (BoardFull board_id (filled_count b) (length (bd_positions b))) else Ok ()
       | None \<Rightarrow> Ok ())) (\<lambda>_.
     sbind (sgets (\<lambda>e. ok_or (hm_get (be_boards e) board_id) (BoardNotFound board_id))) (\<lambda>b.
     sbind (smodify (\<lambda>e. e\<lparr>be_boards := hm_remove board_id (be_boards e)\<rparr>)) (\<lambda>_.
     let members = board_members b in
     sbind (sfor (\<lambda>m. smodify (\<lambda>e. displace m (e\<lparr>be_member_boards := hm_remove m (be_member_boards e)\<rparr>))) members) (\<lambda>_.
     sbind (drain_full_boards gen timestamp []) (\<lambda>events.
     sret \<lparr>dr_dissolved_board_id = board_id, dr_displaced_members = members, dr_cycle_events = events\<rparr>)))))"

definition compress_one ::
  "(u64 \<Rightarrow> uuid) \<Rightarrow> i64 \<Rightarrow> uuid \<times> uuid \<Rightarrow> compressed_member list \<times> cycle_event list \<Rightarrow>
     ('d board_engine, board_plan_error, compressed_member list \<times> cycle_event list) sm" where
  "compress_one gen timestamp mb acc = (case mb of (member_id, board_id) \<Rightarrow> case acc of (compressed, events) \<Rightarrow>
     sbind (sgets (\<lambda>e. Ok (\<not> hm_contains (be_member_boards e) member_id \<and> member_id \<notin> set (be_displaced_members e)))) (\<lambda>out.
     if out then sret (compressed, events)
     else sbind (take_member_out gen member_id timestamp events) (\<lambda>(_, events).
       sret (compressed @ [\<lparr>cm_user_id = member_id, cm_board_id = board_id\<rparr>], events))))"

definition compress_inactive ::
  "(u64 \<Rightarrow> uuid) \<Rightarrow> uuid list \<Rightarrow> i64 \<Rightarrow> ('d board_engine, board_plan_error, compression_result) sm" where
  "compress_inactive gen inactive_members timestamp =
     sbind (sgets (\<lambda>e. Ok (List.map_filter (\<lambda>m. map_option (Pair m) (hm_get (be_member_boards e) m)) inactive_members))) (\<lambda>seated.
     sbind (drain_full_boards gen timestamp []) (\<lambda>events.
     sbind (sfold (compress_one gen timestamp) seated ([], events)) (\<lambda>(compressed, events).
     sret \<lparr>cr_compressed = compressed, cr_cycle_events = events\<rparr>)))"

section \<open>Queries\<close>

definition dimensions :: "'d board_engine \<Rightarrow> u8 \<times> u8" where
  "dimensions e = (be_width e, be_height e)"

definition board_count :: "'d board_engine \<Rightarrow> nat" where
  "board_count e = length (be_boards e)"

definition get_board :: "'d board_engine \<Rightarrow> uuid \<Rightarrow> board option" where
  "get_board e board_id = hm_get (be_boards e) board_id"

definition get_member_board :: "'d board_engine \<Rightarrow> uuid \<Rightarrow> uuid option" where
  "get_member_board e user = hm_get (be_member_boards e) user"

definition list_boards :: "'d board_engine \<Rightarrow> board_summary list" where
  "list_boards e = map (\<lambda>b. \<lparr>bs_id = bd_id b, bs_filled_count = filled_count b, bs_total_positions = be_total_positions e,
     bs_created_at = bd_created_at b, bs_last_activity_at = bd_last_activity_at b, bs_parent_board_id = bd_parent_board_id b\<rparr>)
     (sort_key age (map snd (be_boards e)))"

end
