(* ===== verification/State_Rules.thy ===== *)
theory State_Rules
  imports Prelude
begin

text \<open>
  Total correctness of state-passing methods: \<open>runs m s Q\<close> says that the method \<open>m\<close>, called in the
  state \<open>s\<close>, returns a value and a state related by \<open>Q\<close>, without an error or a panic. The rules
  follow the combinators; a loop takes an invariant over the elements already visited.
\<close>

definition runs :: "('s, 'e, 'a) sm \<Rightarrow> 's \<Rightarrow> ('a \<Rightarrow> 's \<Rightarrow> bool) \<Rightarrow> bool" where
  "runs m s Q \<longleftrightarrow> (\<exists>x s'. m s = (Ok x, s') \<and> Q x s')"

named_theorems run_rules \<open>reductions of total correctness along the combinators\<close>

lemma runsI: "m s = (Ok x, s') \<Longrightarrow> Q x s' \<Longrightarrow> runs m s Q"
  by (auto simp: runs_def)

lemma runsE:
  assumes "runs m s Q"
  obtains x s' where "m s = (Ok x, s')" "Q x s'"
  using assms by (auto simp: runs_def)

lemma runs_mono: "runs m s Q \<Longrightarrow> (\<And>x s'. Q x s' \<Longrightarrow> R x s') \<Longrightarrow> runs m s R"
  by (auto simp: runs_def)

lemma runs_sret [run_rules]: "runs (sret x) s Q \<longleftrightarrow> Q x s"
  by (simp add: runs_def sret_def)

lemma runs_smodify [run_rules]: "runs (smodify f) s Q \<longleftrightarrow> Q () (f s)"
  by (simp add: runs_def smodify_def)

lemma runs_sgets [run_rules]: "runs (sgets f) s Q \<longleftrightarrow> (\<exists>x. f s = Ok x \<and> Q x s)"
  by (auto simp: runs_def sgets_def)

lemma runs_sbind: "runs (sbind m f) s Q \<longleftrightarrow> runs m s (\<lambda>x s'. runs (f x) s' Q)"
  by (auto simp: runs_def sbind_eq_Ok)

lemma runs_sbind_sret [run_rules]: "runs (sbind (sret x) f) s Q \<longleftrightarrow> runs (f x) s Q"
  by (simp add: runs_sbind runs_sret)

lemma runs_sbind_smodify [run_rules]: "runs (sbind (smodify g) f) s Q \<longleftrightarrow> runs (f ()) (g s) Q"
  by (simp add: runs_sbind runs_smodify)

lemma runs_sbind_sgets: "runs (sbind (sgets g) f) s Q \<longleftrightarrow> (\<exists>x. g s = Ok x \<and> runs (f x) s Q)"
  by (simp add: runs_sbind runs_sgets)

lemma runs_sbind_sgets_eq [run_rules]: "g s = Ok x \<Longrightarrow> runs (sbind (sgets g) f) s Q \<longleftrightarrow> runs (f x) s Q"
  by (simp add: runs_sbind_sgets)

lemma runs_sbind_sgets_Ok [run_rules]: "runs (sbind (sgets (\<lambda>s. Ok (g s))) f) s Q \<longleftrightarrow> runs (f (g s)) s Q"
  by (simp add: runs_sbind_sgets)

lemma runs_sbindI:
  assumes "runs m s R" "\<And>x s'. R x s' \<Longrightarrow> runs (f x) s' Q"
  shows "runs (sbind m f) s Q"
  using assms unfolding runs_sbind by (rule runs_mono)

lemma sfold_snoc: "sfold f (xs @ [x]) acc = sbind (sfold f xs acc) (f x)"
proof (induction xs arbitrary: acc)
  case Nil
  show ?case by (rule ext) (auto simp: sbind_def sret_def split: prod.split result.split)
next
  case (Cons y ys)
  have "sbind (f y acc) (\<lambda>a. sbind (sfold f ys a) (f x)) = sbind (sbind (f y acc) (sfold f ys)) (f x)"
    by (rule ext) (simp add: sbind_def split: prod.split result.split)
  moreover have "sfold f (ys @ [x]) = (\<lambda>a. sbind (sfold f ys a) (f x))" by (rule ext) (rule Cons)
  ultimately show ?case by simp
qed

lemma runs_sfold:
  assumes "P [] acc s"
    and "\<And>ys y zs acc s. xs = ys @ y # zs \<Longrightarrow> P ys acc s \<Longrightarrow> runs (f y acc) s (P (ys @ [y]))"
  shows "runs (sfold f xs acc) s (P xs)"
  using assms(2)
proof (induction xs rule: rev_induct)
  case Nil
  then show ?case using assms(1) by (simp add: runs_sret)
next
  case (snoc x xs)
  have "runs (sfold f xs acc) s (P xs)"
    by (rule snoc.IH, rule snoc.prems) simp_all
  then show ?case unfolding sfold_snoc by (rule runs_sbindI) (rule snoc.prems [of xs x "[]"], simp_all)
qed

text \<open>The same where the elements visited do not matter.\<close>

lemma runs_sfold_keeps:
  assumes "P acc s" and "\<And>y acc s. y \<in> set xs \<Longrightarrow> P acc s \<Longrightarrow> runs (f y acc) s P"
  shows "runs (sfold f xs acc) s P"
  by (rule runs_sfold [where P = "\<lambda>_. P"]) (use assms in auto)

lemma sfor_smodify: "sfor (\<lambda>x. smodify (f x)) xs s = (Ok (), fold f xs s)"
  by (induction xs arbitrary: s) (simp_all add: outcome_simps)

text \<open>Methods that may also return an error: \<open>returns m s Q E\<close> names what holds in either case.\<close>

definition returns :: "('s, 'e, 'a) sm \<Rightarrow> 's \<Rightarrow> ('a \<Rightarrow> 's \<Rightarrow> bool) \<Rightarrow> ('e \<Rightarrow> 's \<Rightarrow> bool) \<Rightarrow> bool" where
  "returns m s Q E \<longleftrightarrow> (\<exists>s'. (\<exists>x. m s = (Ok x, s') \<and> Q x s') \<or> (\<exists>e. m s = (Err e, s') \<and> E e s'))"

lemma runs_returns: "runs m s Q \<Longrightarrow> returns m s Q E"
  by (auto simp: runs_def returns_def)

lemma returns_sbindI:
  assumes "runs m s R" "\<And>x s'. R x s' \<Longrightarrow> returns (f x) s' Q E"
  shows "returns (sbind m f) s Q E"
proof -
  from assms(1) obtain x s' where "m s = (Ok x, s')" "R x s'" by (rule runsE)
  with assms(2) [of x s'] show ?thesis by (simp add: returns_def outcome_simps)
qed

end
