(* ===== verification/Board_Wf.thy ===== *)
theory Board_Wf
  imports Board_Index Board_Plan State_Rules
begin

text \<open>
  The invariant of the board plan engine and the writes that keep it. Every board fills its positions
  from the front; everybody is on one board or among the displaced members, and once; the index of
  members agrees with the boards; sequence numbers are unique and below the counter. \<open>roster\<close> lists
  everybody, and \<open>budget\<close> is the potential that bounds the sequence counter: a cycle pays for the
  boards it makes out of the members it spreads.
\<close>

section \<open>Hash maps as multisets of entries\<close>

lemma hm_remove_absent: "hm_get m k = None \<Longrightarrow> hm_remove k m = m"
  by (simp add: hm_get_def hm_remove_def delete_idem map_of_eq_None_iff image_iff)

lemma hm_insert_absent: "hm_get m k = None \<Longrightarrow> hm_insert k v m = m @ [(k, v)]"
  by (induction m) (auto simp: hm_get_def hm_insert_def split: if_splits)

lemma hm_remove_append [simp]: "hm_remove k (xs @ ys) = hm_remove k xs @ hm_remove k ys"
  by (simp add: hm_remove_def AList.delete_eq)

lemma mset_hm_split:
  assumes "hm_ok m" "hm_get m k = Some v"
  shows "mset m = add_mset (k, v) (mset (hm_remove k m))"
  using assms
proof (induction m)
  case (Cons x m)
  then show ?case
    by (cases "fst x = k") (auto simp: hm_ok_def hm_get_def hm_remove_def delete_idem split: prod.splits if_splits)
qed simp

lemma mset_hm_insert: "hm_ok m \<Longrightarrow> mset (hm_insert k v m) = add_mset (k, v) (mset (hm_remove k m))"
proof (induction m)
  case (Cons x m)
  then show ?case
    by (cases "fst x = k") (auto simp: hm_ok_def hm_insert_def hm_remove_def delete_idem split: prod.splits if_splits)
qed (simp add: hm_insert_def hm_remove_def)

lemma set_hm_remove: "set (hm_remove k m) \<subseteq> set m"
  by (auto simp: hm_remove_def AList.delete_eq)

lemma hm_get_fold_insert:
  "hm_get (fold (\<lambda>u. hm_insert u k) us m) u = (if u \<in> set us then Some k else hm_get m u)"
  by (induction us arbitrary: m) auto

lemma hm_ok_fold_insert: "hm_ok m \<Longrightarrow> hm_ok (fold (\<lambda>u. hm_insert u k) us m)"
  by (induction us arbitrary: m) auto

lemma distinct_map_mset: "mset xs = mset ys \<Longrightarrow> distinct (map f xs) \<longleftrightarrow> distinct (map f ys)"
  by (rule mset_eq_imp_distinct_iff) simp

section \<open>One board\<close>

definition compact :: "nat \<Rightarrow> board \<Rightarrow> bool" where
  "compact n b \<longleftrightarrow> length (board_members b) \<le> n \<and>
     bd_positions b = map Some (board_members b) @ replicate (n - length (board_members b)) None"

lemma occupied_map_Some [simp]: "occupied (map Some xs) = xs"
  by (induction xs) simp_all

lemma board_members_front: "bd_positions b = map Some ms @ replicate k None \<Longrightarrow> board_members b = ms"
  by (simp add: board_members_def)

lemma compactI: "bd_positions b = map Some ms @ replicate (n - length ms) None \<Longrightarrow> length ms \<le> n \<Longrightarrow> compact n b"
  by (simp add: compact_def board_members_def)

lemma compact_length: "compact n b \<Longrightarrow> length (bd_positions b) = n"
  by (metis compact_def le_add_diff_inverse length_append length_map length_replicate)

lemma position_front: "position (\<lambda>p. p = None) (map Some ms @ replicate k None) = (if k = 0 then None else Some (length ms))"
  by (induction ms) (cases k, simp_all)

lemma compact_first_open:
  assumes "compact n b"
  shows "first_open_position b = (if length (board_members b) < n then Some (length (board_members b)) else None)"
proof -
  have "bd_positions b = map Some (board_members b) @ replicate (n - length (board_members b)) None"
    using assms by (simp add: compact_def)
  then show ?thesis unfolding first_open_position_def by (simp only: position_front) simp
qed

lemma compact_is_full:
  assumes "compact n b"
  shows "is_full b \<longleftrightarrow> length (board_members b) = n"
proof -
  have eq: "bd_positions b = map Some (board_members b) @ replicate (n - length (board_members b)) None"
    and le: "length (board_members b) \<le> n" using assms by (simp_all add: compact_def)
  have "is_full b \<longleftrightarrow> n - length (board_members b) = 0"
    unfolding is_full_def by (subst eq) (auto simp: list_all_iff set_replicate_conv_if)
  with le show ?thesis by linarith
qed

lemma compact_filled:
  assumes "compact n b"
  shows "filled_count b = length (board_members b)"
proof -
  have eq: "bd_positions b = map Some (board_members b) @ replicate (n - length (board_members b)) None"
    using assms by (simp add: compact_def)
  show ?thesis unfolding filled_count_def by (subst eq) (simp add: filter_map o_def)
qed

lemma compact_fill:
  assumes "compact n b" "length (board_members b) < n"
  shows "(bd_positions b)[length (board_members b) := Some u] =
    map Some (board_members b @ [u]) @ replicate (n - Suc (length (board_members b))) None"
proof -
  let ?ms = "board_members b"
  have eq: "bd_positions b = map Some ?ms @ replicate (n - length ?ms) None" using assms(1) by (simp add: compact_def)
  have "replicate (n - length ?ms) (None :: uuid option) = None # replicate (n - Suc (length ?ms)) None"
    using assms(2) by (metis Suc_diff_Suc replicate_Suc)
  then show ?thesis by (subst eq) (simp add: list_update_append)
qed

section \<open>The engine\<close>

definition seated :: "(uuid, board) hmap \<Rightarrow> uuid list" where
  "seated bs = concat (map (\<lambda>(_, b). board_members b) bs)"

definition roster :: "'d board_engine \<Rightarrow> uuid list" where
  "roster e = seated (be_boards e) @ be_displaced_members e"

definition board_ok :: "nat \<Rightarrow> u64 \<Rightarrow> uuid \<times> board \<Rightarrow> bool" where
  "board_ok n next_seq kb \<longleftrightarrow> bd_id (snd kb) = fst kb \<and> compact n (snd kb) \<and> bd_seq (snd kb) < next_seq"

definition sized :: "'d board_engine \<Rightarrow> bool" where
  "sized e \<longleftrightarrow> 2 \<le> be_width e \<and> be_width e \<le> 5 \<and> 1 \<le> be_height e \<and> be_height e \<le> 4 \<and>
     be_total_positions e = total_positions (be_width e) (be_height e)"

definition indexed :: "(uuid, uuid) hmap \<Rightarrow> (uuid, board) hmap \<Rightarrow> bool" where
  "indexed mb bs \<longleftrightarrow> (\<forall>u k. hm_get mb u = Some k \<longleftrightarrow> (\<exists>b. (k, b) \<in> set bs \<and> u \<in> set (board_members b)))"

definition engine_wf :: "'d board_engine \<Rightarrow> bool" where
  "engine_wf e \<longleftrightarrow> sized e \<and> hm_ok (be_boards e) \<and> hm_ok (be_member_boards e) \<and>
     (\<forall>kb \<in> set (be_boards e). board_ok (be_total_positions e) (be_next_board_seq e) kb) \<and>
     distinct (map (bd_seq \<circ> snd) (be_boards e)) \<and> distinct (roster e) \<and>
     indexed (be_member_boards e) (be_boards e)"

lemma engine_wfD:
  assumes "engine_wf e"
  shows "sized e" "hm_ok (be_boards e)" "hm_ok (be_member_boards e)"
    "kb \<in> set (be_boards e) \<Longrightarrow> board_ok (be_total_positions e) (be_next_board_seq e) kb"
    "distinct (map (bd_seq \<circ> snd) (be_boards e))" "distinct (roster e)"
    "indexed (be_member_boards e) (be_boards e)"
  using assms by (simp_all add: engine_wf_def)

lemma seated_mset: "mset bs = mset bs' \<Longrightarrow> mset (seated bs) = mset (seated bs')"
  unfolding seated_def by (metis mset_concat mset_map sum_mset_sum_list)

lemma seated_simps [simp]:
  "seated [] = []" "seated (kb # bs) = board_members (snd kb) @ seated bs" "seated (bs @ bs') = seated bs @ seated bs'"
  by (simp_all add: seated_def split_beta)

lemma in_seated: "u \<in> set (seated bs) \<longleftrightarrow> (\<exists>k b. (k, b) \<in> set bs \<and> u \<in> set (board_members b))"
  by (force simp: seated_def)

lemma in_seated_indexed: "indexed mb bs \<Longrightarrow> u \<in> set (seated bs) \<longleftrightarrow> hm_get mb u \<noteq> None"
  by (fastforce simp: indexed_def in_seated)

lemma wf_board:
  assumes "engine_wf e" "hm_get (be_boards e) k = Some b"
  shows "bd_id b = k" "compact (be_total_positions e) b" "bd_seq b < be_next_board_seq e"
  using engine_wfD(4) [OF assms(1) hm_get_in [OF assms(2)]] by (simp_all add: board_ok_def)

lemma indexedI:
  assumes "hm_ok bs" "\<And>u k b. hm_get bs k = Some b \<Longrightarrow> u \<in> set (board_members b) \<Longrightarrow> hm_get mb u = Some k"
    and "\<And>u k. hm_get mb u = Some k \<Longrightarrow> \<exists>b. hm_get bs k = Some b \<and> u \<in> set (board_members b)"
  shows "indexed mb bs"
  using assms(2,3) hm_in_get [OF assms(1)] by (metis indexed_def)

lemma wf_member:
  assumes "engine_wf e"
  shows "hm_get (be_member_boards e) u = Some k \<longleftrightarrow> (\<exists>b. hm_get (be_boards e) k = Some b \<and> u \<in> set (board_members b))"
  using engine_wfD(7) [OF assms] hm_in_get [OF engine_wfD(2) [OF assms]] by (simp add: indexed_def)

lemma in_roster:
  assumes "engine_wf e"
  shows "u \<in> set (roster e) \<longleftrightarrow> hm_get (be_member_boards e) u \<noteq> None \<or> u \<in> set (be_displaced_members e)"
  using in_seated_indexed [OF engine_wfD(7) [OF assms]] by (simp add: roster_def)

lemma roster_disjoint:
  assumes "engine_wf e"
  shows "distinct (be_displaced_members e)" "u \<in> set (be_displaced_members e) \<Longrightarrow> hm_get (be_member_boards e) u = None"
    "distinct (seated (be_boards e))"
  using engine_wfD(6) [OF assms] in_seated_indexed [OF engine_wfD(7) [OF assms], of u] by (auto simp: roster_def)

lemma seated_split:
  assumes "hm_ok bs" "hm_get bs k = Some b"
  shows "mset (seated bs) = mset (board_members b) + mset (seated (hm_remove k bs))"
proof -
  have "mset (seated bs) = mset (seated ((k, b) # hm_remove k bs))"
    by (rule seated_mset) (simp add: mset_hm_split [OF assms])
  then show ?thesis by simp
qed

lemma seated_insert:
  assumes "hm_ok bs"
  shows "mset (seated (hm_insert k b bs)) = mset (board_members b) + mset (seated (hm_remove k bs))"
proof -
  have "mset (seated (hm_insert k b bs)) = mset (seated ((k, b) # hm_remove k bs))"
    by (rule seated_mset) (simp add: mset_hm_insert [OF assms])
  then show ?thesis by simp
qed

section \<open>Fresh identifiers and the potential\<close>

text \<open>
  The hypothesis on \<open>Uuid::new_v4\<close>: the identifiers drawn for different sequence numbers differ, and
  none of those still to be drawn names a board of the engine.
\<close>

definition fresh_ids :: "(u64 \<Rightarrow> uuid) \<Rightarrow> 'd board_engine \<Rightarrow> bool" where
  "fresh_ids gen e \<longleftrightarrow> inj gen \<and> (\<forall>s \<ge> be_next_board_seq e. hm_get (be_boards e) (gen s) = None)"

definition part_size :: "'d board_engine \<Rightarrow> nat" where
  "part_size e = level_start (unat (be_width e)) (unat (be_height e))"

definition excess :: "nat \<Rightarrow> (uuid, board) hmap \<Rightarrow> nat" where
  "excess n bs = (\<Sum>(k, b) \<leftarrow> bs. length (board_members b) - n)"

definition budget :: "'d board_engine \<Rightarrow> nat" where
  "budget e = unat (be_next_board_seq e) + 2 * (excess (part_size e) (be_boards e) + length (be_displaced_members e))"

lemma excess_mset: "mset bs = mset bs' \<Longrightarrow> excess n bs = excess n bs'"
proof -
  have "excess n cs = sum_mset (image_mset (\<lambda>(k, b). length (board_members b) - n) (mset cs))" for cs
    by (simp add: excess_def mset_map [symmetric] sum_mset_sum_list del: mset_map)
  then show "mset bs = mset bs' \<Longrightarrow> excess n bs = excess n bs'" by simp
qed

lemma excess_simps [simp]:
  "excess n [] = 0" "excess n (kb # bs) = (length (board_members (snd kb)) - n) + excess n bs"
  "excess n (bs @ bs') = excess n bs + excess n bs'"
  by (simp_all add: excess_def split_beta)

lemma excess_split:
  assumes "hm_ok bs" "hm_get bs k = Some b"
  shows "excess n bs = (length (board_members b) - n) + excess n (hm_remove k bs)"
  using excess_mset [of bs "(k, b) # hm_remove k bs" n] by (simp add: mset_hm_split [OF assms])

lemma excess_insert:
  assumes "hm_ok bs"
  shows "excess n (hm_insert k b bs) = (length (board_members b) - n) + excess n (hm_remove k bs)"
  using excess_mset [of "hm_insert k b bs" "(k, b) # hm_remove k bs" n] by (simp add: mset_hm_insert [OF assms])

text \<open>The shape of a split: a board is its top and one part per child of the top.\<close>

lemma sized_parts:
  assumes "sized e"
  shows "be_total_positions e = unat (be_width e) * part_size e + 1" "0 < part_size e"
    "2 \<le> unat (be_width e)" "unat (be_width e) \<le> 5" "part_size e \<le> 156"
    "part_size e + 2 \<le> be_total_positions e"
proof -
  define w h where "w = unat (be_width e)" and "h = unat (be_height e)"
  have w: "w \<in> {2, 3, 4, 5}" and h: "h \<in> {1, 2, 3, 4}" and n: "be_total_positions e = level_start w (Suc h)"
    using assms by (auto simp: sized_def word_le_nat_alt w_def h_def total_positions_eq)
  have S: "part_size e = level_start w h" by (simp add: part_size_def w_def h_def)
  show total: "be_total_positions e = unat (be_width e) * part_size e + 1"
    by (simp only: n level_start_step S w_def)
  show w2: "2 \<le> unat (be_width e)" and "unat (be_width e) \<le> 5" using w by (auto simp: w_def)
  show pos: "0 < part_size e" using w h level_start_ge [of w h] by (auto simp: S)
  have "level_start w h \<le> level_start w (Suc (Suc (Suc (Suc 0))))" using h by (intro level_start_mono) auto
  also have "\<dots> \<le> 156" using w by (auto simp: level_start_Suc)
  finally show "part_size e \<le> 156" by (simp add: S)
  have "2 * part_size e \<le> unat (be_width e) * part_size e" using w2 by (rule mult_le_mono1)
  with total pos show "part_size e + 2 \<le> be_total_positions e" by linarith
qed

end
