(* ===== verification/Board_Seat.thy ===== *)
theory Board_Seat
  imports Board_Wf
begin

text \<open>
  Seating and displacing a member, and the search for a board with an opening: what each write does
  to the roster, to the potential and to the invariant.
\<close>

section \<open>Changing one board\<close>

lemma set_hm_insert: "hm_ok m \<Longrightarrow> set (hm_insert k v m) = insert (k, v) (set (hm_remove k m))"
  using mset_hm_insert [of m k v] by (metis set_mset_add_mset_insert set_mset_mset)

lemma swap_board:
  assumes wf: "engine_wf e" and b: "hm_get (be_boards e) k = Some b"
    and b': "bd_id b' = k" "bd_seq b' = bd_seq b" "compact (be_total_positions e) b'"
  shows "hm_ok (hm_insert k b' (be_boards e))"
    "\<forall>kb \<in> set (hm_insert k b' (be_boards e)). board_ok (be_total_positions e) (be_next_board_seq e) kb"
    "distinct (map (bd_seq \<circ> snd) (hm_insert k b' (be_boards e)))"
proof -
  let ?bs = "be_boards e"
  have ok: "hm_ok ?bs" by (rule engine_wfD(2) [OF wf])
  then show "hm_ok (hm_insert k b' ?bs)" by simp
  show "\<forall>kb \<in> set (hm_insert k b' ?bs). board_ok (be_total_positions e) (be_next_board_seq e) kb"
    using engine_wfD(4) [OF wf] set_hm_remove [of k ?bs] wf_board(3) [OF wf b] b'
    by (auto simp: set_hm_insert [OF ok] board_ok_def)
  have "mset (map (bd_seq \<circ> snd) (hm_insert k b' ?bs)) = mset (map (bd_seq \<circ> snd) ?bs)"
    using b'(2) by (simp add: mset_hm_insert [OF ok] mset_hm_split [OF ok b])
  then show "distinct (map (bd_seq \<circ> snd) (hm_insert k b' ?bs))"
    using engine_wfD(5) [OF wf] mset_eq_imp_distinct_iff by blast
qed

lemma swap_board_wf:
  assumes wf: "engine_wf e" and b: "hm_get (be_boards e) k = Some b"
    and b': "bd_id b' = k" "bd_seq b' = bd_seq b" "compact (be_total_positions e) b'"
    and e': "e' = e\<lparr>be_boards := hm_insert k b' (be_boards e), be_member_boards := mb, be_displaced_members := ds\<rparr>"
    and mb: "hm_ok mb" "indexed mb (hm_insert k b' (be_boards e))" and ds: "distinct (roster e')"
  shows "engine_wf e'"
proof -
  have "sized e'" using engine_wfD(1) [OF wf] by (simp add: e' sized_def)
  with swap_board [OF wf b b'] mb ds show ?thesis by (simp add: engine_wf_def e')
qed

abbreviation good :: "(u64 \<Rightarrow> uuid) \<Rightarrow> 'd board_engine \<Rightarrow> bool" where
  "good gen e \<equiv> engine_wf e \<and> fresh_ids gen e"

definition same_setup :: "'d board_engine \<Rightarrow> 'd board_engine \<Rightarrow> bool" where
  "same_setup e e' \<longleftrightarrow> be_width e' = be_width e \<and> be_height e' = be_height e \<and> be_total_positions e' = be_total_positions e \<and>
     be_config e' = be_config e \<and> be_sponsor_map e' = be_sponsor_map e"

lemma same_setup_refl [simp]: "same_setup e e"
  by (simp add: same_setup_def)

lemma same_setup_trans: "same_setup e e' \<Longrightarrow> same_setup e' e'' \<Longrightarrow> same_setup e e''"
  by (simp add: same_setup_def)

lemma same_setup_part_size: "same_setup e e' \<Longrightarrow> part_size e' = part_size e"
  by (simp add: same_setup_def part_size_def)

section \<open>Seating and displacing\<close>

abbreviation seated_board :: "board \<Rightarrow> uuid \<Rightarrow> i64 \<Rightarrow> board" where
  "seated_board b u ts \<equiv> b\<lparr>bd_positions := (bd_positions b)[length (board_members b) := Some u], bd_last_activity_at := ts\<rparr>"

lemma seated_board_members:
  assumes "compact n b" "length (board_members b) < n"
  shows "board_members (seated_board b u ts) = board_members b @ [u]" "compact n (seated_board b u ts)"
proof -
  have eq: "bd_positions (seated_board b u ts) = map Some (board_members b @ [u]) @ replicate (n - length (board_members b @ [u])) None"
    using compact_fill [OF assms] by simp
  from eq show "board_members (seated_board b u ts) = board_members b @ [u]" by (rule board_members_front)
  from eq show "compact n (seated_board b u ts)" by (rule compactI) (use assms(2) in simp)
qed

lemma roster_not:
  assumes "engine_wf e" "u \<notin> set (roster e)"
  shows "hm_get (be_member_boards e) u = None" "u \<notin> set (be_displaced_members e)"
    "hm_get (be_boards e) k = Some b \<Longrightarrow> u \<notin> set (board_members b)"
  using assms(2) in_roster [OF assms(1), of u] wf_member [OF assms(1), of u k] by auto

lemma seat_ok:
  assumes wf: "engine_wf e" and b: "hm_get (be_boards e) k = Some b"
    and u: "u \<notin> set (roster e)" and room: "length (board_members b) < be_total_positions e"
    and e': "e' = seat k b (length (board_members b)) u ts e"
  shows "engine_wf e'" "mset (roster e') = add_mset u (mset (roster e))" "budget e' \<le> budget e + 2"
    "fresh_ids gen e \<Longrightarrow> fresh_ids gen e'" "same_setup e e'" "be_displaced_members e' = be_displaced_members e"
    "hm_get (be_boards e') j = (if j = k then Some (seated_board b u ts) else hm_get (be_boards e) j)"
    "be_next_board_seq e' = be_next_board_seq e"
proof -
  let ?b = "seated_board b u ts" and ?bs = "be_boards e"
  have ok: "hm_ok ?bs" by (rule engine_wfD(2) [OF wf])
  note bk = wf_board [OF wf b]
  note ms = seated_board_members [OF bk(2) room, where u = u and ts = ts]
  have e'_eq: "e' = e\<lparr>be_boards := hm_insert k ?b ?bs, be_member_boards := hm_insert u k (be_member_boards e),
      be_displaced_members := be_displaced_members e\<rparr>" by (simp add: e' seat_def)
  have "mset (seated (hm_insert k ?b ?bs)) = add_mset u (mset (seated ?bs))"
    by (simp add: seated_insert [OF ok] seated_split [OF ok b] ms(1))
  then show roster: "mset (roster e') = add_mset u (mset (roster e))" by (simp add: roster_def e'_eq)
  have "distinct (roster e')"
    using mset_eq_imp_distinct_iff [of "roster e'" "u # roster e"] roster u engine_wfD(6) [OF wf] by simp
  moreover have "indexed (hm_insert u k (be_member_boards e)) (hm_insert k ?b ?bs)"
  proof (rule indexedI)
    show "hm_ok (hm_insert k ?b ?bs)" using ok by simp
  next
    fix v j c assume "hm_get (hm_insert k ?b ?bs) j = Some c" "v \<in> set (board_members c)"
    then show "hm_get (hm_insert u k (be_member_boards e)) v = Some j"
      using wf_member [OF wf, of v j] roster_not(3) [OF wf u] b by (auto simp: ms(1) split: if_splits)
  next
    fix v j assume "hm_get (hm_insert u k (be_member_boards e)) v = Some j"
    then show "\<exists>c. hm_get (hm_insert k ?b ?bs) j = Some c \<and> v \<in> set (board_members c)"
      using wf_member [OF wf, of v j] b by (auto simp: ms(1) split: if_splits)
  qed
  ultimately show "engine_wf e'"
    using bk(1) ms(2) engine_wfD(3) [OF wf] by (intro swap_board_wf [OF wf b _ _ _ e'_eq]) simp_all
  have "part_size e' = part_size e" by (simp add: e'_eq part_size_def)
  then show "budget e' \<le> budget e + 2"
    by (simp add: budget_def e'_eq excess_insert [OF ok] excess_split [OF ok b] ms(1))
  show "fresh_ids gen e \<Longrightarrow> fresh_ids gen e'" using b by (auto simp: fresh_ids_def e'_eq)
  show "same_setup e e'" "be_displaced_members e' = be_displaced_members e" "be_next_board_seq e' = be_next_board_seq e"
    "hm_get (be_boards e') j = (if j = k then Some ?b else hm_get (be_boards e) j)"
    by (simp_all add: e'_eq same_setup_def)
qed

lemma displace_ok:
  assumes wf: "engine_wf e" and u: "u \<notin> set (roster e)" and e': "e' = displace u e"
  shows "engine_wf e'" "mset (roster e') = add_mset u (mset (roster e))" "budget e' \<le> budget e + 2"
    "fresh_ids gen e \<Longrightarrow> fresh_ids gen e'" "same_setup e e'" "be_boards e' = be_boards e"
proof -
  show roster: "mset (roster e') = add_mset u (mset (roster e))" by (simp add: roster_def e' displace_def)
  have "distinct (roster e')"
    using mset_eq_imp_distinct_iff [of "roster e'" "u # roster e"] roster u engine_wfD(6) [OF wf] by simp
  moreover have "sized e'" using engine_wfD(1) [OF wf] by (simp add: e' displace_def sized_def)
  ultimately show "engine_wf e'" using wf by (simp add: engine_wf_def e' displace_def)
  show "budget e' \<le> budget e + 2" by (simp add: budget_def e' displace_def part_size_def)
  show "fresh_ids gen e \<Longrightarrow> fresh_ids gen e'" "same_setup e e'" "be_boards e' = be_boards e"
    by (simp_all add: fresh_ids_def e' displace_def same_setup_def)
qed

section \<open>Boards with an opening\<close>

definition has_opening :: "'d board_engine \<Rightarrow> bool" where
  "has_opening e \<longleftrightarrow> (\<exists>kb \<in> set (be_boards e). length (board_members (snd kb)) < be_total_positions e)"

lemma has_openingI:
  "hm_get (be_boards e) k = Some b \<Longrightarrow> length (board_members b) < be_total_positions e \<Longrightarrow> has_opening e"
  unfolding has_opening_def by (rule bexI [where x = "(k, b)"]) (simp_all add: hm_get_in)

lemma wf_first_open:
  assumes "engine_wf e" "(k, b) \<in> set (be_boards e)"
  shows "first_open_position b = (if length (board_members b) < be_total_positions e then Some (length (board_members b)) else None)"
    "is_full b \<longleftrightarrow> length (board_members b) = be_total_positions e" "length (board_members b) \<le> be_total_positions e"
proof -
  have c: "compact (be_total_positions e) b" using engine_wfD(4) [OF assms] by (simp add: board_ok_def)
  show "first_open_position b = (if length (board_members b) < be_total_positions e then Some (length (board_members b)) else None)"
    by (rule compact_first_open [OF c])
  show "is_full b \<longleftrightarrow> length (board_members b) = be_total_positions e" by (rule compact_is_full [OF c])
  show "length (board_members b) \<le> be_total_positions e" using c by (simp add: compact_def)
qed

text \<open>The board the search returns, and that it returns one whenever there is an opening.\<close>

lemma oldest_board_ok:
  assumes wf: "engine_wf e"
  shows "oldest_board_with_opening e = Err NoBoardsAvailable \<and> \<not> has_opening e \<or>
    (\<exists>k b. oldest_board_with_opening e = Ok k \<and> hm_get (be_boards e) k = Some b \<and>
      length (board_members b) < be_total_positions e \<and>
      (\<forall>(j, c) \<in> set (be_boards e). length (board_members c) < be_total_positions e \<longrightarrow> age b \<le> age c))"
proof -
  let ?open = "filter (\<lambda>b. first_open_position b \<noteq> None) (map snd (be_boards e))"
  have in_open: "b \<in> set ?open \<longleftrightarrow> (\<exists>k. (k, b) \<in> set (be_boards e) \<and> length (board_members b) < be_total_positions e)" for b
  proof -
    have "b \<in> set ?open \<longleftrightarrow> (\<exists>k. (k, b) \<in> set (be_boards e) \<and> first_open_position b \<noteq> None)" by force
    also have "\<dots> \<longleftrightarrow> (\<exists>k. (k, b) \<in> set (be_boards e) \<and> length (board_members b) < be_total_positions e)"
      using wf_first_open(1) [OF wf, of _ b] by (metis option.distinct(1))
    finally show ?thesis .
  qed
  show ?thesis
  proof (cases "min_by_key age ?open")
    case None
    then have "?open = []" by simp
    then have "\<not> has_opening e" using in_open unfolding has_opening_def by (metis list.set(1) empty_iff prod.collapse)
    with None show ?thesis unfolding oldest_board_with_opening_def by simp
  next
    case (Some b)
    from min_by_key_Some [OF Some] have b: "b \<in> set ?open" "\<forall>c \<in> set ?open. age b \<le> age c" by auto
    then obtain k where k: "(k, b) \<in> set (be_boards e)" "length (board_members b) < be_total_positions e"
      unfolding in_open by blast
    then have "hm_get (be_boards e) k = Some b" using hm_in_get [OF engine_wfD(2) [OF wf]] by blast
    moreover have "bd_id b = k" using engine_wfD(4) [OF wf k(1)] by (simp add: board_ok_def)
    moreover have "\<forall>(j, c) \<in> set (be_boards e). length (board_members c) < be_total_positions e \<longrightarrow> age b \<le> age c"
    proof (intro ballI, clarify)
      fix j c assume "(j, c) \<in> set (be_boards e)" "length (board_members c) < be_total_positions e"
      then have "c \<in> set ?open" unfolding in_open by blast
      with b(2) show "age b \<le> age c" by (rule bspec)
    qed
    ultimately show ?thesis using Some k(2) unfolding oldest_board_with_opening_def by simp
  qed
qed

lemma find_placement_ok:
  assumes wf: "engine_wf e"
  shows "find_placement_board e s = Err NoBoardsAvailable \<and> \<not> has_opening e \<or>
    (\<exists>k b. find_placement_board e s = Ok k \<and> hm_get (be_boards e) k = Some b \<and> length (board_members b) < be_total_positions e)"
proof -
  have old: "oldest_board_with_opening e = Err NoBoardsAvailable \<and> \<not> has_opening e \<or>
    (\<exists>k b. oldest_board_with_opening e = Ok k \<and> hm_get (be_boards e) k = Some b \<and> length (board_members b) < be_total_positions e)"
    using oldest_board_ok [OF wf] by blast
  consider (own) k b where "find_placement_board e s = Ok k" "hm_get (be_boards e) k = Some b" "first_open_position b \<noteq> None"
    | (any) "find_placement_board e s = oldest_board_with_opening e"
  proof (cases "bc_re_entry_position (be_config e)")
    case SponsorBoard
    then show ?thesis using that
      by (cases "hm_get (be_member_boards e) s"; cases "hm_get (be_boards e) (the (hm_get (be_member_boards e) s))";
          cases "first_open_position (the (hm_get (be_boards e) (the (hm_get (be_member_boards e) s))))")
        (simp_all add: find_placement_board_def)
  qed (simp add: find_placement_board_def)
  then show ?thesis
  proof cases
    case own
    then show ?thesis using wf_first_open(1) [OF wf hm_get_in [OF own(2)]] by (metis option.distinct(1))
  next
    case any
    with old show ?thesis by simp
  qed
qed

definition entered :: "i64 \<Rightarrow> uuid \<Rightarrow> 'd board_engine \<Rightarrow> uuid option \<Rightarrow> 'd board_engine \<Rightarrow> bool" where
  "entered ts u e r e' \<longleftrightarrow>
     (\<exists>k b. r = Some k \<and> bc_re_entry_enabled (be_config e) \<and> hm_get (be_boards e) k = Some b \<and>
        length (board_members b) < be_total_positions e \<and> e' = seat k b (length (board_members b)) u ts e) \<or>
     (r = None \<and> \<not> (bc_re_entry_enabled (be_config e) \<and> has_opening e) \<and> e' = displace u e)"

lemma re_enter_ok:
  assumes wf: "engine_wf e"
  shows "runs (re_enter u ts) e (entered ts u e)"
proof (cases "bc_re_entry_enabled (be_config e)")
  case True
  define s where "s = (case hm_get (be_sponsor_map e) u of Some s \<Rightarrow> s | None \<Rightarrow> u)"
  from find_placement_ok [OF wf, of s] show ?thesis
  proof (elim disjE exE conjE)
    fix k b assume k: "find_placement_board e s = Ok k" "hm_get (be_boards e) k = Some b" "length (board_members b) < be_total_positions e"
    then have "first_open_position b = Some (length (board_members b))" using wf_first_open(1) [OF wf hm_get_in [OF k(2)]] by simp
    with k True have "re_enter u ts e = (Ok (Some k), seat k b (length (board_members b)) u ts e)"
      by (simp add: re_enter_def s_def [symmetric])
    then show ?thesis by (rule runsI) (use k True in \<open>auto simp: entered_def\<close>)
  next
    assume "find_placement_board e s = Err NoBoardsAvailable" and no: "\<not> has_opening e"
    with True have "re_enter u ts e = (Ok None, displace u e)" by (simp add: re_enter_def s_def [symmetric])
    then show ?thesis by (rule runsI) (use no in \<open>auto simp: entered_def\<close>)
  qed
next
  case False
  then have "re_enter u ts e = (Ok None, displace u e)" by (simp add: re_enter_def)
  then show ?thesis by (rule runsI) (use False in \<open>auto simp: entered_def\<close>)
qed

lemma entered_ok:
  assumes wf: "good gen e" and u: "u \<notin> set (roster e)" and en: "entered ts u e r e'"
  shows "good gen e'" "mset (roster e') = add_mset u (mset (roster e))" "budget e' \<le> budget e + 2" "same_setup e e'"
    "be_next_board_seq e' = be_next_board_seq e"
    "bc_re_entry_enabled (be_config e) \<Longrightarrow> has_opening e \<Longrightarrow> r \<noteq> None \<and> be_displaced_members e' = be_displaced_members e"
proof -
  from en consider (sat) k b where "r = Some k" "hm_get (be_boards e) k = Some b"
      "length (board_members b) < be_total_positions e" "e' = seat k b (length (board_members b)) u ts e"
    | (dis) "\<not> (bc_re_entry_enabled (be_config e) \<and> has_opening e)" "e' = displace u e"
    unfolding entered_def by blast
  then have "good gen e' \<and> mset (roster e') = add_mset u (mset (roster e)) \<and> budget e' \<le> budget e + 2 \<and> same_setup e e' \<and>
    be_next_board_seq e' = be_next_board_seq e \<and>
    (bc_re_entry_enabled (be_config e) \<longrightarrow> has_opening e \<longrightarrow> r \<noteq> None \<and> be_displaced_members e' = be_displaced_members e)"
  proof cases
    case sat
    note k = seat_ok [OF conjunct1 [OF wf] sat(2) u sat(3,4)]
    show ?thesis using k(1,2,3,5,6,8) k(4) [where gen = gen] wf sat(1) by simp
  next
    case dis
    have "be_next_board_seq e' = be_next_board_seq e" by (simp add: dis(2) displace_def)
    with displace_ok(1,2,3,5) [OF conjunct1 [OF wf] u dis(2)] displace_ok(4) [OF conjunct1 [OF wf] u dis(2), where gen = gen] wf dis(1)
    show ?thesis by blast
  qed
  then show "good gen e'" "mset (roster e') = add_mset u (mset (roster e))" "budget e' \<le> budget e + 2" "same_setup e e'"
    "be_next_board_seq e' = be_next_board_seq e"
    "bc_re_entry_enabled (be_config e) \<Longrightarrow> has_opening e \<Longrightarrow> r \<noteq> None \<and> be_displaced_members e' = be_displaced_members e" by blast+
qed

text \<open>A board with two openings still has one after anybody enters anywhere.\<close>

lemma entered_opening:
  assumes wf: "engine_wf e" and en: "entered ts u e r e'" and u: "u \<notin> set (roster e)"
    and b: "hm_get (be_boards e) j = Some b" "Suc (length (board_members b)) < be_total_positions e"
  shows "has_opening e'"
proof -
  from en consider (sat) k c where "hm_get (be_boards e) k = Some c"
      "length (board_members c) < be_total_positions e" "e' = seat k c (length (board_members c)) u ts e"
    | (dis) "e' = displace u e"
    unfolding entered_def by blast
  then show ?thesis
  proof cases
    case sat
    note k = seat_ok [OF wf sat(1) u sat(2,3)]
    have "be_total_positions e' = be_total_positions e" using k(5) by (simp add: same_setup_def)
    moreover have "length (board_members (seated_board c u ts)) = Suc (length (board_members c))"
      by (simp add: seated_board_members(1) [OF wf_board(2) [OF wf sat(1)] sat(2)])
    ultimately show ?thesis
      using k(7) [of j] b sat(1) by (cases "j = k") (auto intro!: has_openingI [of e' j])
  next
    case dis
    then show ?thesis using b by (intro has_openingI [of e' j b]) (simp_all add: displace_def)
  qed
qed

end
