(* ===== verification/Board_Split.thy ===== *)
theory Board_Split
  imports Board_Seat
begin

text \<open>
  The split of a full board: each child of the top takes its subtree to a new board, in the same
  order, and the members below the top are on the new boards, each once.
\<close>

section \<open>Moving a part\<close>

definition part_of :: "'d board_engine \<Rightarrow> board \<Rightarrow> nat \<Rightarrow> uuid list" where
  "part_of e b c = map ((!) (board_members b)) (split_indices (unat (be_width e)) (unat (be_height e)) c)"

lemma move_members:
  assumes b: "bd_positions b = map Some ms" "\<forall>i \<in> set is. i < length ms"
    and nb: "bd_positions nb = map Some pre @ replicate n None" "length is \<le> n"
  shows "sfold (move_member b) (enumerate (length pre) is) nb e =
    ((Ok (nb\<lparr>bd_positions := map Some (pre @ map ((!) ms) is) @ replicate (n - length is) None\<rparr>),
     e\<lparr>be_member_boards := fold (\<lambda>u. hm_insert u (bd_id nb)) (map ((!) ms) is) (be_member_boards e)\<rparr>) :: ('e, board) result \<times> 'd board_engine)"
  using assms(2-)
proof (induction "is" arbitrary: pre n nb e)
  case Nil
  then show ?case by (cases nb) (simp add: sret_def)
next
  case (Cons i "is")
  let ?nb = "nb\<lparr>bd_positions := map Some (pre @ [ms ! i]) @ replicate (n - 1) None\<rparr>"
  let ?e = "e\<lparr>be_member_boards := hm_insert (ms ! i) (bd_id nb) (be_member_boards e)\<rparr>"
  obtain m where n: "n = Suc m" using Cons.prems(3) by (cases n) auto
  have "(bd_positions nb)[length pre := Some (ms ! i)] = map Some (pre @ [ms ! i]) @ replicate (n - 1) None"
    using Cons.prems(2) by (simp add: n list_update_append)
  then have mv: "move_member b (length pre, i) nb e = (Ok ?nb, ?e)"
    using Cons.prems by (simp add: move_member_def outcome_simps b(1) n)
  have "sfold (move_member b) (enumerate (length pre) (i # is)) nb e =
      (sfold (move_member b) (enumerate (length (pre @ [ms ! i])) is) ?nb ?e :: ('e, board) result \<times> 'd board_engine)"
    by (simp add: sbind_def mv)
  also have "\<dots> = (Ok (?nb\<lparr>bd_positions := map Some ((pre @ [ms ! i]) @ map ((!) ms) is) @ replicate ((n - 1) - length is) None\<rparr>),
     ?e\<lparr>be_member_boards := fold (\<lambda>u. hm_insert u (bd_id ?nb)) (map ((!) ms) is) (be_member_boards ?e)\<rparr>)"
    by (rule Cons.IH) (use Cons.prems in \<open>auto simp: n\<close>)
  finally show ?case by simp
qed

lemma move_all:
  assumes "bd_positions b = map Some ms" "\<forall>i \<in> set is. i < length ms"
    and "bd_positions nb = replicate n None" "length is \<le> n"
  shows "sfold (move_member b) (enumerate 0 is) nb e =
    ((Ok (nb\<lparr>bd_positions := map Some (map ((!) ms) is) @ replicate (n - length is) None\<rparr>),
     e\<lparr>be_member_boards := fold (\<lambda>u. hm_insert u (bd_id nb)) (map ((!) ms) is) (be_member_boards e)\<rparr>) :: ('e, board) result \<times> 'd board_engine)"
  using move_members [where pre = "[]" and 'e = 'e, OF assms(1,2) _ assms(4), of nb e] assms(3) by simp

lemma u64_add_ok:
  assumes "unat s + 1 < 2 ^ 64"
  shows "u64_add s 1 = (Ok (s + 1) :: ('e, u64) result)" "unat (s + 1) = unat s + 1" "s < s + 1"
proof -
  show u: "unat (s + 1) = unat s + 1" using assms by (simp add: unat_word_ariths)
  then show "s < s + 1" by (simp add: word_less_nat_alt)
  show "u64_add s 1 = (Ok (s + 1) :: ('e, u64) result)" using assms by (simp add: u64_add_def)
qed

text \<open>The new board of one child, and the engine with it.\<close>

definition part_board :: "(u64 \<Rightarrow> uuid) \<Rightarrow> 'd board_engine \<Rightarrow> board \<Rightarrow> i64 \<Rightarrow> u64 \<Rightarrow> nat \<Rightarrow> board" where
  "part_board gen e b ts s c = (board_new (gen s) (be_total_positions e) ts (Some (bd_id b)) s)\<lparr>bd_positions :=
     map Some (part_of e b c) @ replicate (be_total_positions e - length (part_of e b c)) None\<rparr>"

definition add_part :: "(u64 \<Rightarrow> uuid) \<Rightarrow> board \<Rightarrow> i64 \<Rightarrow> nat \<Rightarrow> 'd board_engine \<Rightarrow> 'd board_engine" where
  "add_part gen b ts c e = e\<lparr>be_next_board_seq := be_next_board_seq e + 1,
     be_member_boards := fold (\<lambda>u. hm_insert u (gen (be_next_board_seq e))) (part_of e b c) (be_member_boards e),
     be_boards := be_boards e @ [(gen (be_next_board_seq e), part_board gen e b ts (be_next_board_seq e) c)]\<rparr>"

lemma part_of_length [simp]: "length (part_of e b c) = part_size e"
  by (simp add: part_of_def part_size_def)

lemma split_child_eq:
  assumes sz: "sized e" and b: "bd_positions b = map Some (board_members b)" "length (board_members b) = be_total_positions e"
    and c: "c \<in> {1..unat (be_width e)}" and seq: "unat (be_next_board_seq e) + 1 < 2 ^ 64" and fr: "fresh_ids gen e"
  shows "split_child gen b ts (be_total_positions e - 1) c ids e =
    (Ok (ids @ [gen (be_next_board_seq e)]), add_part gen b ts c e)"
proof -
  let ?w = "unat (be_width e)" and ?h = "unat (be_height e)" and ?n = "be_total_positions e" and ?s = "be_next_board_seq e"
  have n: "?n = level_start ?w (Suc ?h)" using sz by (simp add: sized_def total_positions_eq)
  have dims: "0 < ?w" "0 < ?h" "part_size e \<le> ?n"
    using sized_parts(3,6) [OF sz] sz by (simp_all add: sized_def word_le_nat_alt)
  have sub: "subtree_indices c (be_width e) (?n - 1) = Ok (split_indices ?w ?h c)"
    unfolding n by (rule subtree_indices_eq [OF dims(1) c dims(2)])
  have new: "new_board gen ts (Some (bd_id b)) e =
      (Ok (board_new (gen ?s) ?n ts (Some (bd_id b)) ?s), e\<lparr>be_next_board_seq := ?s + 1\<rparr>)"
    by (simp add: new_board_def outcome_simps u64_add_ok(1) [OF seq])
  have inside: "\<forall>i \<in> set (split_indices ?w ?h c). i < length (board_members b)"
    using split_run_inside(2) [OF c] by (auto simp: split_indices_def b(2) n)
  let ?nb = "board_new (gen ?s) ?n ts (Some (bd_id b)) ?s"
  have moved: "sfold (move_member b) (enumerate 0 (split_indices ?w ?h c)) ?nb (e\<lparr>be_next_board_seq := ?s + 1\<rparr>) =
    (Ok (part_board gen e b ts ?s c),
     e\<lparr>be_next_board_seq := ?s + 1, be_member_boards := fold (\<lambda>u. hm_insert u (gen ?s)) (part_of e b c) (be_member_boards e)\<rparr>)"
    by (subst move_all [OF b(1) inside, where n = ?n])
      (use dims(3) in \<open>simp_all add: board_new_def part_size_def part_board_def part_of_def\<close>)
  have absent: "hm_get (be_boards e) (gen ?s) = None" using fr by (simp add: fresh_ids_def)
  have id: "bd_id (part_board gen e b ts ?s c) = gen ?s" by (simp add: part_board_def board_new_def)
  show ?thesis
    unfolding split_child_def
    by (simp add: outcome_simps sub [unfolded One_nat_def] new moved id add_part_def
      hm_insert_absent [OF absent])
qed

section \<open>All parts\<close>

fun new_parts :: "(u64 \<Rightarrow> uuid) \<Rightarrow> 'd board_engine \<Rightarrow> board \<Rightarrow> i64 \<Rightarrow> u64 \<Rightarrow> nat list \<Rightarrow> (uuid \<times> board) list" where
  "new_parts gen e b ts s [] = []"
| "new_parts gen e b ts s (c # cs) = (gen s, part_board gen e b ts s c) # new_parts gen e b ts (s + 1) cs"

definition index_parts :: "(uuid \<times> board) list \<Rightarrow> (uuid, uuid) hmap \<Rightarrow> (uuid, uuid) hmap" where
  "index_parts ps mb = fold (\<lambda>(k, p). fold (\<lambda>u. hm_insert u k) (board_members p)) ps mb"

definition split_state :: "(u64 \<Rightarrow> uuid) \<Rightarrow> board \<Rightarrow> i64 \<Rightarrow> nat list \<Rightarrow> 'd board_engine \<Rightarrow> 'd board_engine" where
  "split_state gen b ts cs e = (let ps = new_parts gen e b ts (be_next_board_seq e) cs in
     e\<lparr>be_next_board_seq := be_next_board_seq e + of_nat (length cs),
       be_member_boards := index_parts ps (be_member_boards e), be_boards := be_boards e @ ps\<rparr>)"

lemma part_board_members [simp]:
  assumes "sized e"
  shows "board_members (part_board gen e b ts s c) = part_of e b c" "compact (be_total_positions e) (part_board gen e b ts s c)"
proof -
  let ?p = "part_board gen e b ts s c"
  have eq: "bd_positions ?p = map Some (part_of e b c) @ replicate (be_total_positions e - length (part_of e b c)) None"
    by (simp add: part_board_def)
  from eq show "board_members ?p = part_of e b c" by (rule board_members_front)
  from eq show "compact (be_total_positions e) ?p" by (rule compactI) (use sized_parts(6) [OF assms] in simp)
qed

lemma split_state_Cons:
  assumes "sized e"
  shows "split_state gen b ts (c # cs) e = split_state gen b ts cs (add_part gen b ts c e)"
proof -
  have "part_of (add_part gen b ts c' e) b = part_of e b" for c' by (rule ext) (simp add: part_of_def add_part_def)
  then have "new_parts gen (add_part gen b ts c e) b ts s cs = new_parts gen e b ts s cs" for s
    by (induction cs arbitrary: s) (simp_all add: part_board_def add_part_def)
  then show ?thesis
    using assms by (simp add: split_state_def Let_def index_parts_def add_part_def add.assoc)
qed

lemma add_part_ok:
  assumes "sized e" "fresh_ids gen e" "unat (be_next_board_seq e) + 1 < 2 ^ 64"
  shows "sized (add_part gen b ts c e)" "fresh_ids gen (add_part gen b ts c e)"
proof -
  show "sized (add_part gen b ts c e)" using assms(1) by (simp add: sized_def add_part_def)
  have "hm_get (be_boards e @ [(gen (be_next_board_seq e), p)]) (gen s) = None" if "be_next_board_seq e + 1 \<le> s" for s p
  proof -
    have "be_next_board_seq e < s" using u64_add_ok(3) [OF assms(3)] that by (rule less_le_trans)
    then show ?thesis using assms(2) by (auto simp: fresh_ids_def hm_get_def inj_def map_add_def)
  qed
  with assms(2) show "fresh_ids gen (add_part gen b ts c e)" by (simp add: fresh_ids_def add_part_def)
qed

lemma split_children_eq:
  assumes "sized e" "bd_positions b = map Some (board_members b)" "length (board_members b) = be_total_positions e"
    and "set cs \<subseteq> {1..unat (be_width e)}" "unat (be_next_board_seq e) + length cs < 2 ^ 64" "fresh_ids gen e"
  shows "sfold (split_child gen b ts (be_total_positions e - 1)) cs ids e =
    ((Ok (ids @ map fst (new_parts gen e b ts (be_next_board_seq e) cs)), split_state gen b ts cs e) :: ('e, uuid list) result \<times> 'd board_engine)"
  using assms
proof (induction cs arbitrary: ids e)
  case Nil
  show ?case by (cases e) (simp add: sret_def split_state_def index_parts_def)
next
  case (Cons c cs)
  let ?e = "add_part gen b ts c e"
  have one: "unat (be_next_board_seq e) + 1 < 2 ^ 64" using Cons.prems(5) by simp
  have e': "be_total_positions ?e = be_total_positions e" "be_width ?e = be_width e" "be_next_board_seq ?e = be_next_board_seq e + 1"
    by (simp_all add: add_part_def)
  have "split_child gen b ts (be_total_positions e - 1) c ids e =
      ((Ok (ids @ [gen (be_next_board_seq e)]), ?e) :: ('e, uuid list) result \<times> 'd board_engine)"
    by (rule split_child_eq) (use Cons.prems one in auto)
  then have "sfold (split_child gen b ts (be_total_positions e - 1)) (c # cs) ids e =
      (sfold (split_child gen b ts (be_total_positions ?e - 1)) cs (ids @ [gen (be_next_board_seq e)]) ?e :: ('e, uuid list) result \<times> 'd board_engine)"
    by (simp add: sbind_def e')
  also have "\<dots> = (Ok ((ids @ [gen (be_next_board_seq e)]) @ map fst (new_parts gen ?e b ts (be_next_board_seq ?e) cs)), split_state gen b ts cs ?e)"
    by (rule Cons.IH) (use Cons.prems add_part_ok [OF Cons.prems(1,6) one] u64_add_ok(2) [OF one] in \<open>simp_all add: e'\<close>)
  also have "map fst (new_parts gen ?e b ts (be_next_board_seq ?e) cs) = map fst (new_parts gen e b ts (be_next_board_seq e + 1) cs)"
  proof -
    have "map fst (new_parts gen ?e b ts s cs) = map fst (new_parts gen e b ts s cs)" for s
      by (induction cs arbitrary: s) simp_all
    then show ?thesis by (simp add: e'(3))
  qed
  finally show ?case by (simp add: split_state_Cons [OF Cons.prems(1)])
qed

lemma split_board_eq:
  assumes "sized e" "bd_positions b = map Some (board_members b)" "length (board_members b) = be_total_positions e"
    and "unat (be_next_board_seq e) + unat (be_width e) < 2 ^ 64" "fresh_ids gen e"
  shows "split_board gen b ts e = (Ok (map fst (new_parts gen e b ts (be_next_board_seq e) [1..<Suc (unat (be_width e))])),
    split_state gen b ts [1..<Suc (unat (be_width e))] e)"
proof -
  have "0 < be_total_positions e" using sized_parts(1) [OF assms(1)] by simp
  moreover have "sfold (split_child gen b ts (be_total_positions e - 1)) [1..<Suc (unat (be_width e))] [] e =
      (Ok ([] @ map fst (new_parts gen e b ts (be_next_board_seq e) [1..<Suc (unat (be_width e))])),
       split_state gen b ts [1..<Suc (unat (be_width e))] e)"
    by (rule split_children_eq) (use assms in auto)
  ultimately show ?thesis by (simp add: split_board_def outcome_simps del: upt_Suc)
qed

section \<open>What the parts hold\<close>

lemma new_parts_seated: "sized e \<Longrightarrow> seated (new_parts gen e b ts s cs) = concat (map (part_of e b) cs)"
  by (induction cs arbitrary: s) simp_all

lemma new_parts_excess: "sized e \<Longrightarrow> excess (part_size e) (new_parts gen e b ts s cs) = 0"
  by (induction cs arbitrary: s) simp_all

lemma new_parts_entry:
  assumes "sized e" "(k, p) \<in> set (new_parts gen e b ts s cs)" "unat s + length cs < 2 ^ 64"
  shows "\<exists>r. k = gen r \<and> bd_seq p = r \<and> bd_id p = k \<and> s \<le> r \<and> unat r < unat s + length cs \<and>
    compact (be_total_positions e) p \<and> length (board_members p) = part_size e"
  using assms(2,3)
proof (induction cs arbitrary: s)
  case (Cons c cs)
  have one: "unat s + 1 < 2 ^ 64" using Cons.prems(2) by simp
  note add = u64_add_ok(2,3) [OF one]
  show ?case
  proof (cases "(k, p) = (gen s, part_board gen e b ts s c)")
    case True
    then have "k = gen s" "bd_seq p = s" "bd_id p = k" by (simp_all add: part_board_def board_new_def)
    with True show ?thesis using assms(1) by simp
  next
    case False
    with Cons.prems Cons.IH [of "s + 1"] add(1) obtain r where
      "k = gen r \<and> bd_seq p = r \<and> bd_id p = k \<and> s + 1 \<le> r \<and> unat r < unat (s + 1) + length cs \<and>
        compact (be_total_positions e) p \<and> length (board_members p) = part_size e" by auto
    with add show ?thesis by (intro exI [of _ r]) auto
  qed
qed simp

lemma new_parts_keys:
  assumes "sized e" "inj gen" "unat s + length cs < 2 ^ 64"
  shows "distinct (map fst (new_parts gen e b ts s cs))" "distinct (map (bd_seq \<circ> snd) (new_parts gen e b ts s cs))"
proof -
  have "distinct (map fst (new_parts gen e b ts s cs)) \<and> distinct (map (bd_seq \<circ> snd) (new_parts gen e b ts s cs))"
    using assms(3)
  proof (induction cs arbitrary: s)
    case (Cons c cs)
    have one: "unat s + 1 < 2 ^ 64" using Cons.prems by simp
    note add = u64_add_ok(2,3) [OF one]
    have later: "k \<noteq> gen s \<and> bd_seq p \<noteq> s" if "(k, p) \<in> set (new_parts gen e b ts (s + 1) cs)" for k p
    proof -
      from new_parts_entry [OF assms(1) that] Cons.prems add(1) obtain r where "k = gen r" "bd_seq p = r" "s + 1 \<le> r" by auto
      moreover from this add(2) have "r \<noteq> s" by auto
      ultimately show ?thesis using assms(2) by (simp add: inj_eq)
    qed
    moreover have "bd_seq (part_board gen e b ts s c) = s" by (simp add: part_board_def board_new_def)
    ultimately show ?case using Cons.IH [of "s + 1"] Cons.prems add(1) by force
  qed simp
  then show "distinct (map fst (new_parts gen e b ts s cs))" "distinct (map (bd_seq \<circ> snd) (new_parts gen e b ts s cs))" by auto
qed

lemma hm_get_index_parts:
  assumes "distinct (seated ps)"
  shows "hm_get (index_parts ps mb) u = Some k \<longleftrightarrow>
    (\<exists>p. (k, p) \<in> set ps \<and> u \<in> set (board_members p)) \<or> (u \<notin> set (seated ps) \<and> hm_get mb u = Some k)"
  using assms
proof (induction ps arbitrary: mb)
  case (Cons kp ps)
  obtain j p where kp: "kp = (j, p)" by (cases kp)
  have disj: "u \<in> set (board_members p) \<Longrightarrow> u \<notin> set (seated ps)" using Cons.prems by (auto simp: kp)
  have "index_parts (kp # ps) mb = index_parts ps (fold (\<lambda>u. hm_insert u j) (board_members p) mb)"
    by (simp add: index_parts_def kp)
  then show ?case using Cons.IH [of "fold (\<lambda>u. hm_insert u j) (board_members p) mb"] Cons.prems disj
    by (auto simp: kp hm_get_fold_insert in_seated)
qed (simp add: index_parts_def)

lemma hm_ok_index_parts: "hm_ok mb \<Longrightarrow> hm_ok (index_parts ps mb)"
  unfolding index_parts_def by (induction ps arbitrary: mb) (auto simp: hm_ok_fold_insert)

lemma parts_members:
  assumes "sized e" "length (board_members b) = be_total_positions e"
  shows "mset (concat (map (part_of e b) [1..<Suc (unat (be_width e))])) = mset (tl (board_members b))"
proof -
  let ?ms = "board_members b" and ?w = "unat (be_width e)" and ?h = "unat (be_height e)"
  have n: "length ?ms = level_start ?w (Suc ?h)" using assms by (simp add: sized_def total_positions_eq)
  have part: "part_of e b = (\<lambda>c. map ((!) ?ms) (split_indices ?w ?h c))" by (rule ext) (simp add: part_of_def)
  have "concat (map (part_of e b) [1..<Suc ?w]) = map ((!) ?ms) (concat (map (split_indices ?w ?h) [1..<Suc ?w]))"
    by (simp only: map_concat map_map o_def part)
  then have "mset (concat (map (part_of e b) [1..<Suc ?w])) = image_mset ((!) ?ms) (mset [1..<length ?ms])"
    by (simp only: mset_map split_partition n)
  also have "\<dots> = mset (map ((!) ?ms) [1..<length ?ms])" by simp
  also have "map ((!) ?ms) [1..<length ?ms] = tl ?ms" by (rule nth_equalityI) (simp_all add: nth_tl)
  finally show ?thesis .
qed

section \<open>The engine after the split\<close>

definition split_parts :: "(u64 \<Rightarrow> uuid) \<Rightarrow> 'd board_engine \<Rightarrow> board \<Rightarrow> i64 \<Rightarrow> (uuid \<times> board) list" where
  "split_parts gen e b ts = new_parts gen e b ts (be_next_board_seq e) [1..<Suc (unat (be_width e))]"

definition spread :: "(u64 \<Rightarrow> uuid) \<Rightarrow> uuid \<Rightarrow> board \<Rightarrow> i64 \<Rightarrow> 'd board_engine \<Rightarrow> 'd board_engine" where
  "spread gen k b ts e = e\<lparr>be_next_board_seq := be_next_board_seq e + of_nat (unat (be_width e)),
     be_member_boards := hm_remove (hd (board_members b)) (index_parts (split_parts gen e b ts) (be_member_boards e)),
     be_boards := hm_remove k (be_boards e) @ split_parts gen e b ts\<rparr>"

lemma spread_gain:
  assumes "sized e"
  shows "unat (be_width e) \<le> be_total_positions e - part_size e"
proof -
  obtain v where w: "unat (be_width e) = Suc v" using sized_parts(3) [OF assms] by (cases "unat (be_width e)") auto
  have "v * 1 \<le> v * part_size e" using sized_parts(2) [OF assms] by (intro mult_le_mono2) simp
  then show ?thesis using sized_parts(1) [OF assms] by (simp add: w)
qed

text \<open>A full board of a sound engine whose counter has room for the new boards.\<close>

definition full_board :: "(u64 \<Rightarrow> uuid) \<Rightarrow> 'd board_engine \<Rightarrow> uuid \<Rightarrow> board \<Rightarrow> bool" where
  "full_board gen e k b \<longleftrightarrow> good gen e \<and> hm_get (be_boards e) k = Some b \<and> length (board_members b) = be_total_positions e \<and>
     unat (be_next_board_seq e) + unat (be_width e) < 2 ^ 64"

lemma full_boardD:
  assumes "full_board gen e k b"
  shows "engine_wf e" "fresh_ids gen e" "sized e" "hm_ok (be_boards e)" "hm_get (be_boards e) k = Some b"
    "length (board_members b) = be_total_positions e" "unat (be_next_board_seq e) + unat (be_width e) < 2 ^ 64"
    "bd_positions b = map Some (board_members b)" "board_members b = hd (board_members b) # tl (board_members b)"
proof -
  show wf: "engine_wf e" and "fresh_ids gen e" and held: "hm_get (be_boards e) k = Some b"
    and full: "length (board_members b) = be_total_positions e" and "unat (be_next_board_seq e) + unat (be_width e) < 2 ^ 64"
    using assms by (simp_all add: full_board_def)
  show sz: "sized e" and "hm_ok (be_boards e)" using engine_wfD(1,2) [OF wf] .
  show "bd_positions b = map Some (board_members b)" using wf_board(2) [OF wf held] full by (simp add: compact_def)
  show "board_members b = hd (board_members b) # tl (board_members b)"
    using full sized_parts(1) [OF sz] by (cases "board_members b") auto
qed

lemma top_index:
  assumes "full_board gen e k b"
  shows "index_at (bd_positions b) 0 = Ok (Some (hd (board_members b)))"
proof -
  have "map Some (board_members b) = Some (hd (board_members b)) # map Some (tl (board_members b))"
    by (subst full_boardD(9) [OF assms]) simp
  then show ?thesis by (simp add: full_boardD(8) [OF assms] index_at_def)
qed

lemma parts_entry:
  assumes fb: "full_board gen e k b" and jp: "(j, p) \<in> set (split_parts gen e b ts)"
  shows "hm_get (be_boards e) j = None" "j \<noteq> k" "bd_id p = j" "compact (be_total_positions e) p" "length (board_members p) = part_size e"
    "be_next_board_seq e \<le> bd_seq p" "unat (bd_seq p) < unat (be_next_board_seq e) + unat (be_width e)" "j = gen (bd_seq p)"
proof -
  have len: "length [1..<Suc (unat (be_width e))] = unat (be_width e)" by (simp del: upt_Suc)
  from new_parts_entry [OF full_boardD(3) [OF fb] jp [unfolded split_parts_def], unfolded len, OF full_boardD(7) [OF fb]]
  have r: "j = gen (bd_seq p) \<and> bd_id p = j \<and> be_next_board_seq e \<le> bd_seq p \<and>
      unat (bd_seq p) < unat (be_next_board_seq e) + unat (be_width e) \<and>
      compact (be_total_positions e) p \<and> length (board_members p) = part_size e" by blast
  then show absent: "hm_get (be_boards e) j = None" using full_boardD(2) [OF fb] by (simp add: fresh_ids_def)
  with full_boardD(5) [OF fb] show "j \<noteq> k" by auto
  show "bd_id p = j" "compact (be_total_positions e) p" "length (board_members p) = part_size e"
    "be_next_board_seq e \<le> bd_seq p" "unat (bd_seq p) < unat (be_next_board_seq e) + unat (be_width e)"
    "j = gen (bd_seq p)" using r by auto
qed

lemma parts_keys:
  assumes fb: "full_board gen e k b"
  shows "distinct (map fst (split_parts gen e b ts))" "distinct (map (bd_seq \<circ> snd) (split_parts gen e b ts))"
  unfolding split_parts_def using full_boardD(2,7) [OF fb] new_parts_keys [OF full_boardD(3) [OF fb], of gen]
  by (simp_all add: fresh_ids_def del: upt_Suc)

lemma parts_seated:
  assumes fb: "full_board gen e k b"
  shows "mset (seated (split_parts gen e b ts)) = mset (tl (board_members b))"
  unfolding split_parts_def new_parts_seated [OF full_boardD(3) [OF fb]] by (rule parts_members [OF full_boardD(3,6) [OF fb]])

lemma spread_next_seq:
  assumes fb: "full_board gen e k b"
  shows "unat (be_next_board_seq (spread gen k b ts e)) = unat (be_next_board_seq e) + unat (be_width e)"
proof -
  have "unat (of_nat n :: u64) = n" if "n < 2 ^ 64" for n using that by (simp add: unsigned_of_nat take_bit_nat_eq_self)
  moreover have "unat (be_width e) < 2 ^ 64" using full_boardD(7) [OF fb] by linarith
  ultimately have "unat (of_nat (unat (be_width e)) :: u64) = unat (be_width e)" by blast
  then show ?thesis using full_boardD(7) [OF fb] by (simp add: spread_def unat_word_ariths del: of_nat_unat)
qed

lemma split_run:
  assumes fb: "full_board gen e k b"
  shows "split_board gen b ts e = (Ok (map fst (split_parts gen e b ts)), split_state gen b ts [1..<Suc (unat (be_width e))] e)"
  unfolding split_parts_def by (rule split_board_eq) (use full_boardD [OF fb] in auto)

lemma split_removal:
  assumes fb: "full_board gen e k b" and e1: "e1 = split_state gen b ts [1..<Suc (unat (be_width e))] e"
  shows "e1\<lparr>be_boards := hm_remove k (be_boards e1), be_member_boards := hm_remove (hd (board_members b)) (be_member_boards e1)\<rparr> =
    spread gen k b ts e"
proof -
  have "k \<notin> fst ` set (split_parts gen e b ts)"
    using parts_entry(2) [OF fb] by (metis (no_types, lifting) imageE prod.collapse)
  then have absent: "hm_get (split_parts gen e b ts) k = None" by (simp add: hm_get_def map_of_eq_None_iff)
  have len: "length [1..<Suc (unat (be_width e))] = unat (be_width e)" by (simp del: upt_Suc)
  show ?thesis
    unfolding e1 split_state_def Let_def split_parts_def [symmetric] len by (simp add: spread_def hm_remove_absent [OF absent])
qed

lemma spread_boards_ok:
  assumes fb: "full_board gen e k b"
  shows "hm_ok (be_boards (spread gen k b ts e))" "distinct (map (bd_seq \<circ> snd) (be_boards (spread gen k b ts e)))"
proof -
  have "hm_ok (hm_remove k (be_boards e))" using full_boardD(4) [OF fb] by simp
  moreover have "fst kb \<noteq> fst kp" if "kb \<in> set (be_boards e)" "kp \<in> set (split_parts gen e b ts)" for kb kp
    using parts_entry(1) [OF fb, of "fst kp" "snd kp"] that hm_in_get [OF full_boardD(4) [OF fb], of "fst kb" "snd kb"] by auto
  ultimately show "hm_ok (be_boards (spread gen k b ts e))"
    using parts_keys(1) [OF fb] set_hm_remove [of k "be_boards e"] by (fastforce simp: hm_ok_def spread_def)
  have "bd_seq (snd kb) \<noteq> bd_seq (snd kp)" if "kb \<in> set (be_boards e)" "kp \<in> set (split_parts gen e b ts)" for kb kp
    using parts_entry(6) [OF fb, of "fst kp" "snd kp"] that engine_wfD(4) [OF full_boardD(1) [OF fb], of kb]
    by (metis board_ok_def leD prod.collapse)
  moreover have "distinct (map (bd_seq \<circ> snd) (hm_remove k (be_boards e)))"
    using engine_wfD(5) [OF full_boardD(1) [OF fb]] by (simp add: hm_remove_def AList.delete_eq distinct_map_filter)
  ultimately show "distinct (map (bd_seq \<circ> snd) (be_boards (spread gen k b ts e)))"
    using parts_keys(2) [OF fb] set_hm_remove [of k "be_boards e"] by (fastforce simp: spread_def)
qed

lemma spread_roster:
  assumes fb: "full_board gen e k b"
  shows "add_mset (hd (board_members b)) (mset (roster (spread gen k b ts e))) = mset (roster e)"
proof -
  have "mset (board_members b) = add_mset (hd (board_members b)) (mset (tl (board_members b)))"
    by (subst full_boardD(9) [OF fb]) simp
  then show ?thesis by (simp add: roster_def spread_def parts_seated [OF fb] seated_split [OF full_boardD(4,5) [OF fb]])
qed

lemma spread_boards:
  assumes fb: "full_board gen e k b" and kb: "kb \<in> set (be_boards (spread gen k b ts e))"
  shows "board_ok (be_total_positions e) (be_next_board_seq (spread gen k b ts e)) kb"
proof -
  have lt: "be_next_board_seq e < be_next_board_seq (spread gen k b ts e)"
    using sized_parts(3) [OF full_boardD(3) [OF fb]] by (simp add: word_less_nat_alt spread_next_seq [OF fb])
  from kb consider "kb \<in> set (be_boards e)" | "(fst kb, snd kb) \<in> set (split_parts gen e b ts)"
    using set_hm_remove [of k "be_boards e"] by (auto simp: spread_def)
  then show ?thesis
  proof cases
    case 1
    then show ?thesis using engine_wfD(4) [OF full_boardD(1) [OF fb] 1] lt by (auto simp: board_ok_def)
  next
    case 2
    then show ?thesis using parts_entry(3,4,7) [OF fb 2] by (simp add: board_ok_def word_less_nat_alt spread_next_seq [OF fb])
  qed
qed

lemma spread_indexed:
  assumes fb: "full_board gen e k b"
  shows "indexed (be_member_boards (spread gen k b ts e)) (be_boards (spread gen k b ts e))"
proof -
  let ?ps = "split_parts gen e b ts" and ?top = "hd (board_members b)" and ?mb = "be_member_boards (spread gen k b ts e)"
  note wf = full_boardD(1) [OF fb] and held = full_boardD(5) [OF fb]
  have ms: "set (board_members b) = insert ?top (set (seated ?ps))"
    using parts_seated [OF fb, of ts] by (subst full_boardD(9) [OF fb]) (metis list.simps(15) set_mset_mset)
  have dist: "distinct (seated (be_boards e))" by (rule roster_disjoint(3) [OF wf])
  then have "distinct (board_members b)"
    using mset_eq_imp_distinct_iff [of "seated (be_boards e)" "board_members b @ seated (hm_remove k (be_boards e))"]
      seated_split [OF full_boardD(4) [OF fb] held] by simp
  then have top: "?top \<notin> set (seated ?ps)" "distinct (seated ?ps)"
    using full_boardD(9) [OF fb] parts_seated [OF fb, of ts] mset_eq_imp_distinct_iff set_mset_mset by (metis distinct.simps(2))+
  have get: "hm_get ?mb u = Some j \<longleftrightarrow> u \<noteq> ?top \<and> ((\<exists>p. (j, p) \<in> set ?ps \<and> u \<in> set (board_members p)) \<or>
      (u \<notin> set (seated ?ps) \<and> hm_get (be_member_boards e) u = Some j))" for u j
    using hm_get_index_parts [OF top(2)] by (simp add: spread_def)
  have old: "(j, c) \<in> set (hm_remove k (be_boards e)) \<longleftrightarrow> j \<noteq> k \<and> hm_get (be_boards e) j = Some c" for j c
    using hm_in_get [OF full_boardD(4) [OF fb]] by (auto simp: hm_remove_def AList.delete_eq)
  have away: "hm_get (be_member_boards e) u = Some j \<and> u \<notin> set (board_members b) \<longleftrightarrow>
      j \<noteq> k \<and> (\<exists>c. hm_get (be_boards e) j = Some c \<and> u \<in> set (board_members c))" for u j
    using wf_member [OF wf, of u] held by (metis option.inject)
  show ?thesis
    unfolding indexed_def
  proof (intro allI)
    fix u j
    have "(\<exists>c. (j, c) \<in> set (be_boards (spread gen k b ts e)) \<and> u \<in> set (board_members c)) \<longleftrightarrow>
      (hm_get (be_member_boards e) u = Some j \<and> u \<notin> set (board_members b)) \<or> (\<exists>p. (j, p) \<in> set ?ps \<and> u \<in> set (board_members p))"
      unfolding away by (auto simp: spread_def old)
    then show "hm_get ?mb u = Some j \<longleftrightarrow> (\<exists>c. (j, c) \<in> set (be_boards (spread gen k b ts e)) \<and> u \<in> set (board_members c))"
      unfolding get using top(1) by (auto simp: ms in_seated)
  qed
qed

lemma spread_ok:
  assumes fb: "full_board gen e k b"
  shows "good gen (spread gen k b ts e)" "budget (spread gen k b ts e) + 2 \<le> budget e" "same_setup e (spread gen k b ts e)"
    "be_displaced_members (spread gen k b ts e) = be_displaced_members e" "hd (board_members b) \<notin> set (roster (spread gen k b ts e))"
proof -
  let ?e = "spread gen k b ts e"
  show same: "same_setup e ?e" and dis: "be_displaced_members ?e = be_displaced_members e" by (simp_all add: same_setup_def spread_def)
  have "mset (hd (board_members b) # roster ?e) = mset (roster e)" using spread_roster [OF fb, of ts] by simp
  from mset_eq_imp_distinct_iff [OF this] engine_wfD(6) [OF full_boardD(1) [OF fb]]
  have top: "hd (board_members b) \<notin> set (roster ?e)" and dist: "distinct (roster ?e)" by simp_all
  show "hd (board_members b) \<notin> set (roster ?e)" by (rule top)
  have "sized ?e" using full_boardD(3) [OF fb] by (simp add: sized_def spread_def)
  moreover have "hm_ok (be_member_boards ?e)"
    using engine_wfD(3) [OF full_boardD(1) [OF fb]] by (simp add: spread_def hm_ok_index_parts)
  ultimately have "engine_wf ?e"
    unfolding engine_wf_def using dist spread_boards_ok [OF fb] spread_boards [OF fb] spread_indexed [OF fb] same
    by (simp add: same_setup_def)
  moreover have "fresh_ids gen ?e"
  proof -
    have "hm_get (be_boards ?e) (gen s) = None" if "be_next_board_seq ?e \<le> s" for s
    proof (rule ccontr)
      assume "hm_get (be_boards ?e) (gen s) \<noteq> None"
      then obtain c where "(gen s, c) \<in> set (be_boards ?e)" using hm_get_in by fastforce
      then consider "hm_get (be_boards e) (gen s) = Some c" | "(gen s, c) \<in> set (split_parts gen e b ts)"
        using set_hm_remove [of k "be_boards e"] hm_in_get [OF full_boardD(4) [OF fb]] by (auto simp: spread_def)
      then show False
      proof cases
        case 1
        have "be_next_board_seq e \<le> s" using that spread_next_seq [OF fb, of ts] by (simp add: word_le_nat_alt)
        with 1 full_boardD(2) [OF fb] show False by (simp add: fresh_ids_def)
      next
        case 2
        with parts_entry(7,8) [OF fb 2] full_boardD(2) [OF fb] that show False
          by (simp add: fresh_ids_def inj_eq word_le_nat_alt spread_next_seq [OF fb])
      qed
    qed
    then show ?thesis using full_boardD(2) [OF fb] by (simp add: fresh_ids_def)
  qed
  ultimately show "good gen ?e" ..
  have "excess (part_size e) (be_boards ?e) + (be_total_positions e - part_size e) = excess (part_size e) (be_boards e)"
    using new_parts_excess [OF full_boardD(3) [OF fb], of gen b ts]
    by (simp add: spread_def split_parts_def excess_split [OF full_boardD(4,5) [OF fb]] full_boardD(6) [OF fb] del: upt_Suc)
  with spread_gain [OF full_boardD(3) [OF fb]] sized_parts(3) [OF full_boardD(3) [OF fb]]
  show "budget ?e + 2 \<le> budget e"
    by (simp add: budget_def spread_next_seq [OF fb] same_setup_part_size [OF same] dis)
qed

lemma spread_part:
  assumes fb: "full_board gen e k b" and jp: "(j, p) \<in> set (split_parts gen e b ts)"
  shows "hm_get (be_boards (spread gen k b ts e)) j = Some p" "Suc (length (board_members p)) < be_total_positions e"
proof -
  have "(j, p) \<in> set (be_boards (spread gen k b ts e))" using jp by (simp add: spread_def)
  then show "hm_get (be_boards (spread gen k b ts e)) j = Some p" using hm_in_get [OF spread_boards_ok(1) [OF fb]] by blast
  show "Suc (length (board_members p)) < be_total_positions e"
    using parts_entry(5) [OF fb jp] sized_parts(6) [OF full_boardD(3) [OF fb]] by simp
qed

lemma split_parts_nonempty:
  assumes fb: "full_board gen e k b"
  obtains j p where "(j, p) \<in> set (split_parts gen e b ts)"
proof -
  have "[1..<Suc (unat (be_width e))] = 1 # [2..<Suc (unat (be_width e))]"
    using sized_parts(3) [OF full_boardD(3) [OF fb]] by (simp add: upt_conv_Cons eval_nat_numeral del: upt_Suc)
  then show ?thesis using that unfolding split_parts_def by (metis list.set_intros(1) new_parts.simps(2))
qed

end
