(* ===== verification/Board_Cycle.thy ===== *)
theory Board_Cycle
  imports Board_Split
begin

text \<open>
  Cycling: a full board gives its members below the top to new boards and its top member to a board
  with an opening. Every cycle, and every cascade of cycles, ends, keeps the invariant and keeps
  everybody on the roster, and draws on the potential instead of growing it.
\<close>

section \<open>What a cascade does to the engine\<close>

definition evolves :: "(u64 \<Rightarrow> uuid) \<Rightarrow> 'd board_engine \<Rightarrow> 'd board_engine \<Rightarrow> bool" where
  "evolves gen e e' \<longleftrightarrow> good gen e' \<and> mset (roster e') = mset (roster e) \<and> budget e' \<le> budget e \<and> same_setup e e' \<and>
     (has_opening e \<longrightarrow> has_opening e') \<and>
     (bc_re_entry_enabled (be_config e) \<longrightarrow> be_displaced_members e' = be_displaced_members e)"

lemma evolvesD:
  assumes "evolves gen e e'"
  shows "good gen e'" "engine_wf e'" "fresh_ids gen e'" "mset (roster e') = mset (roster e)" "budget e' \<le> budget e"
    "same_setup e e'" "has_opening e \<Longrightarrow> has_opening e'"
    "bc_re_entry_enabled (be_config e) \<Longrightarrow> be_displaced_members e' = be_displaced_members e"
    "be_config e' = be_config e" "be_width e' = be_width e" "be_total_positions e' = be_total_positions e"
    "be_sponsor_map e' = be_sponsor_map e" "set (roster e') = set (roster e)"
proof -
  show "good gen e'" "engine_wf e'" "fresh_ids gen e'" "budget e' \<le> budget e" "same_setup e e'" "has_opening e \<Longrightarrow> has_opening e'"
    "bc_re_entry_enabled (be_config e) \<Longrightarrow> be_displaced_members e' = be_displaced_members e"
    "be_config e' = be_config e" "be_width e' = be_width e" "be_total_positions e' = be_total_positions e"
    "be_sponsor_map e' = be_sponsor_map e" using assms by (simp_all add: evolves_def same_setup_def)
  show m: "mset (roster e') = mset (roster e)" using assms by (simp add: evolves_def)
  then show "set (roster e') = set (roster e)" by (rule mset_eq_setD)
qed

lemma evolves_refl: "good gen e \<Longrightarrow> evolves gen e e"
  by (simp add: evolves_def)

lemma evolves_trans: "evolves gen e e' \<Longrightarrow> evolves gen e' e'' \<Longrightarrow> evolves gen e e''"
  unfolding evolves_def same_setup_def by auto

definition event_ok :: "'d board_engine \<Rightarrow> cycle_event \<Rightarrow> bool" where
  "event_ok e ev \<longleftrightarrow> ce_cycled_member ev \<in> set (roster e) \<and> length (ce_new_boards ev) = unat (be_width e) \<and>
     (ce_re_entry_board ev \<noteq> None \<longleftrightarrow> bc_re_entry_enabled (be_config e))"

lemma event_ok_evolves: "evolves gen e e' \<Longrightarrow> event_ok e' ev \<longleftrightarrow> event_ok e ev"
  using evolvesD(9,10,13) [of gen e e'] by (simp add: event_ok_def)

section \<open>One cycle\<close>

lemma full_boardI:
  assumes "good gen e" "hm_get (be_boards e) k = Some b" "is_full b" "budget e < 2 ^ 64"
  shows "full_board gen e k b"
proof -
  have wf: "engine_wf e" and sz: "sized e" and ok: "hm_ok (be_boards e)" using assms(1) engine_wfD(1,2) by auto
  have full: "length (board_members b) = be_total_positions e" using wf_first_open(2) [OF wf hm_get_in [OF assms(2)]] assms(3) by simp
  have "be_total_positions e - part_size e \<le> excess (part_size e) (be_boards e)"
    by (simp add: excess_split [OF ok assms(2)] full)
  with spread_gain [OF sz] have "unat (be_next_board_seq e) + unat (be_width e) \<le> budget e" by (simp add: budget_def)
  with assms full show ?thesis by (simp add: full_board_def)
qed

lemma cycle_evolves:
  assumes fb: "full_board gen e k b" and en: "entered ts (hd (board_members b)) (spread gen k b ts e) r e'"
  shows "evolves gen e e'" "has_opening e'" "r \<noteq> None \<longleftrightarrow> bc_re_entry_enabled (be_config e)"
proof -
  let ?e = "spread gen k b ts e"
  note sp = spread_ok [OF fb, of ts] and en' = entered_ok [OF spread_ok(1,5) [OF fb] en]
  obtain j p where jp: "(j, p) \<in> set (split_parts gen e b ts)" by (rule split_parts_nonempty [OF fb])
  have N: "be_total_positions ?e = be_total_positions e" and cfg: "be_config ?e = be_config e" using sp(3) by (simp_all add: same_setup_def)
  note p = spread_part [OF fb jp]
  show room: "has_opening e'"
    by (rule entered_opening [OF conjunct1 [OF sp(1)] en sp(5) p(1)]) (use p(2) N in simp)
  have "has_opening ?e" by (rule has_openingI [OF p(1)]) (use p(2) N in simp)
  with en'(6) cfg have enabled: "bc_re_entry_enabled (be_config e) \<Longrightarrow> r \<noteq> None \<and> be_displaced_members e' = be_displaced_members ?e" by simp
  have "mset (roster e') = mset (roster e)" using en'(2) spread_roster [OF fb, of ts] by simp
  moreover have "budget e' \<le> budget e" using en'(3) sp(2) by linarith
  ultimately show "evolves gen e e'"
    unfolding evolves_def using en'(1) room enabled sp(4) same_setup_trans [OF sp(3) en'(4)] by simp
  show "r \<noteq> None \<longleftrightarrow> bc_re_entry_enabled (be_config e)"
    using enabled en cfg by (auto simp: entered_def)
qed

lemma cycle_event_ok:
  assumes fb: "full_board gen e k b" and r: "r \<noteq> None \<longleftrightarrow> bc_re_entry_enabled (be_config e)"
  shows "event_ok e \<lparr>ce_board_id = k, ce_cycled_member = hd (board_members b), ce_new_boards = map fst (split_parts gen e b ts),
    ce_re_entry_board = r\<rparr>"
proof -
  have "length (new_parts gen e b ts s cs) = length cs" for s cs by (induction cs arbitrary: s) simp_all
  then have "length (split_parts gen e b ts) = unat (be_width e)" by (simp add: split_parts_def del: upt_Suc)
  moreover have "hd (board_members b) \<in> set (roster e)"
    using spread_roster [OF fb, of ts] by (metis set_mset_mset union_single_eq_member)
  ultimately show ?thesis using r by (simp add: event_ok_def)
qed

section \<open>Cascades\<close>

definition cascaded :: "(u64 \<Rightarrow> uuid) \<Rightarrow> 'd board_engine \<Rightarrow> cycle_event list \<Rightarrow> cycle_event list \<Rightarrow> 'd board_engine \<Rightarrow> bool" where
  "cascaded gen e evs evs' e' \<longleftrightarrow> evolves gen e e' \<and> (\<exists>more. evs' = evs @ more \<and> (\<forall>ev \<in> set more. event_ok e ev))"

lemma cascaded_refl: "good gen e \<Longrightarrow> cascaded gen e evs evs e"
  by (simp add: cascaded_def evolves_refl)

lemma cascaded_trans:
  assumes "cascaded gen e evs evs' e'" "cascaded gen e' evs' evs'' e''"
  shows "cascaded gen e evs evs'' e''"
proof -
  from assms obtain more more' where m: "evs' = evs @ more" "\<forall>ev \<in> set more. event_ok e ev"
    "evs'' = evs' @ more'" "\<forall>ev \<in> set more'. event_ok e' ev" by (auto simp: cascaded_def)
  have "evolves gen e e'" "evolves gen e' e''" using assms by (simp_all add: cascaded_def)
  with m show ?thesis unfolding cascaded_def by (auto simp: event_ok_evolves intro: evolves_trans)
qed

lemma board_is_full_iff:
  "board_is_full e k \<longleftrightarrow> (\<exists>b. hm_get (be_boards e) k = Some b \<and> is_full b)"
  by (simp add: board_is_full_def split: option.split)

lemma runs_split:
  assumes fb: "full_board gen e k b"
  shows "runs (sbind (split_board gen b ts) (\<lambda>ids. sbind (smodify (\<lambda>e. e\<lparr>be_boards := hm_remove k (be_boards e)\<rparr>)) (\<lambda>_.
      sbind (smodify (\<lambda>e. e\<lparr>be_member_boards := hm_remove (hd (board_members b)) (be_member_boards e)\<rparr>)) (\<lambda>_. K ids)))) e Q \<longleftrightarrow>
    runs (K (map fst (split_parts gen e b ts))) (spread gen k b ts e) Q"
  using split_removal [OF fb refl, of ts]
  by (simp add: runs_def sbind_def split_run [OF fb] smodify_def del: upt_Suc)

text \<open>The recursive call on a board that may have filled.\<close>

definition cascade_on ::
  "nat \<Rightarrow> (u64 \<Rightarrow> uuid) \<Rightarrow> i64 \<Rightarrow> u32 \<Rightarrow> uuid \<Rightarrow> cycle_event list \<Rightarrow> ('d board_engine, 'e, cycle_event list) sm" where
  "cascade_on fuel gen ts depth j evs = sbind (sgets (\<lambda>e. Ok (board_is_full e j))) (\<lambda>full.
     if full then sbind (sgets (\<lambda>_. u32_add depth 1)) (\<lambda>deeper. cycles_within fuel gen ts j deeper evs) else sret evs)"

abbreviation cycle_of :: "(u64 \<Rightarrow> uuid) \<Rightarrow> 'd board_engine \<Rightarrow> uuid \<Rightarrow> board \<Rightarrow> i64 \<Rightarrow> uuid option \<Rightarrow> cycle_event" where
  "cycle_of gen e k b ts r \<equiv> \<lparr>ce_board_id = k, ce_cycled_member = hd (board_members b),
     ce_new_boards = map fst (split_parts gen e b ts), ce_re_entry_board = r\<rparr>"

lemma cycles_step:
  assumes fb: "full_board gen e k b" and "is_full b" "depth < bc_max_cascade_depth (be_config e)"
    and enter: "runs (re_enter (hd (board_members b)) ts :: ('d board_engine, 'e, uuid option) sm) (spread gen k b ts e) (\<lambda>r e'.
      runs (sbind (case r of Some j \<Rightarrow> cascade_on fuel gen ts depth j (evs @ [cycle_of gen e k b ts r]) 
          | None \<Rightarrow> (sret (evs @ [cycle_of gen e k b ts r]) :: ('d board_engine, 'e, cycle_event list) sm))
        (sfold (cascade_on fuel gen ts depth) (map fst (split_parts gen e b ts)))) e' Q)"
  shows "runs (cycles_within (Suc fuel) gen ts k depth evs :: ('d board_engine, 'e, cycle_event list) sm) e Q"
proof -
  have eq: "cascade_on fuel gen ts depth = (\<lambda>j evs. sbind (sgets (\<lambda>e. Ok (board_is_full e j))) (\<lambda>full.
      if full then sbind (sgets (\<lambda>_. u32_add depth 1)) (\<lambda>deeper. cycles_within fuel gen ts j deeper evs) else sret evs))"
    by (intro ext) (simp add: cascade_on_def)
  show ?thesis using enter [unfolded eq] assms(2) assms(3) [folded not_le] full_boardD(5) [OF fb]
    by (simp add: run_rules top_index [OF fb] runs_split [OF fb] runs_sbind [of "re_enter _ _"] Let_def)
qed

lemma cycles_idle:
  assumes "\<not> (depth < bc_max_cascade_depth (be_config e) \<and> board_is_full e k)"
  shows "runs (cycles_within (Suc fuel) gen ts k depth evs) e (\<lambda>evs' e'. evs' = evs \<and> e' = e)"
  using assms
  by (cases "hm_get (be_boards e) k"; cases "bc_max_cascade_depth (be_config e) \<le> depth"; cases "is_full (the (hm_get (be_boards e) k))")
    (auto simp: run_rules board_is_full_def not_less)

lemma u32_deeper:
  assumes "depth < (m :: u32)"
  shows "u32_add depth 1 = (Ok (depth + 1) :: ('e, u32) result)" "unat m - unat (depth + 1) < unat m - unat depth"
proof -
  have "unat m < 2 ^ 32" using unsigned_less [of m] by simp
  moreover have lt: "unat depth < unat m" using assms by (simp add: word_less_nat_alt)
  ultimately have "unat depth + 1 < 2 ^ 32" by linarith
  then show "u32_add depth 1 = (Ok (depth + 1) :: ('e, u32) result)" by (simp add: u32_add_def)
  from \<open>unat depth + 1 < 2 ^ 32\<close> have "unat (depth + 1) = unat depth + 1" by (simp add: unat_word_ariths)
  with lt show "unat m - unat (depth + 1) < unat m - unat depth" by simp
qed

text \<open>
  The depth grows by one per level and is checked against the maximum before it grows, so it does not
  overflow and the fuel lasts.
\<close>

definition cycles_done :: "(u64 \<Rightarrow> uuid) \<Rightarrow> 'd board_engine \<Rightarrow> uuid \<Rightarrow> u32 \<Rightarrow> cycle_event list \<Rightarrow> cycle_event list \<Rightarrow> 'd board_engine \<Rightarrow> bool" where
  "cycles_done gen e k depth evs evs' e' \<longleftrightarrow> cascaded gen e evs evs' e' \<and>
     (board_is_full e k \<and> depth < bc_max_cascade_depth (be_config e) \<longrightarrow> has_opening e' \<and>
       (\<exists>b ev more. hm_get (be_boards e) k = Some b \<and> evs' = evs @ ev # more \<and> ce_board_id ev = k \<and>
          ce_cycled_member ev = hd (board_members b)))"

lemma cascade_on_ok:
  assumes IH: "\<And>e j evs depth'. \<lbrakk>good gen e; budget e < 2 ^ 64; unat (bc_max_cascade_depth (be_config e)) - unat depth' < fuel\<rbrakk> \<Longrightarrow>
      runs (cycles_within fuel gen ts j depth' evs :: ('d board_engine, 'e, cycle_event list) sm) e (cycles_done gen e j depth' evs)"
    and e: "budget e < 2 ^ 64" "depth < bc_max_cascade_depth (be_config e)" "unat (bc_max_cascade_depth (be_config e)) - unat depth \<le> fuel"
    and inv: "cascaded gen e evs ev e' \<and> has_opening e'"
  shows "runs (cascade_on fuel gen ts depth j ev :: ('d board_engine, 'e, cycle_event list) sm) e' (\<lambda>ev' e'. cascaded gen e evs ev' e' \<and> has_opening e')"
proof (cases "board_is_full e' j")
  case True
  note deeper = u32_deeper [OF e(2)]
  from inv have ev: "evolves gen e e'" by (simp add: cascaded_def)
  have "runs (cycles_within fuel gen ts j (depth + 1) ev :: ('d board_engine, 'e, cycle_event list) sm) e' (cycles_done gen e' j (depth + 1) ev)"
    by (rule IH) (use evolvesD(1,5,9) [OF ev] e deeper(2) in auto)
  then have "runs (cycles_within fuel gen ts j (depth + 1) ev :: ('d board_engine, 'e, cycle_event list) sm) e'
      (\<lambda>ev' e'. cascaded gen e evs ev' e' \<and> has_opening e')"
  proof (rule runs_mono)
    fix ev'' e'' assume "cycles_done gen e' j (depth + 1) ev ev'' e''"
    with inv show "cascaded gen e evs ev'' e'' \<and> has_opening e''"
      using cascaded_trans [of gen e evs ev e' ev'' e''] evolvesD(7) [of gen e' e''] by (simp add: cycles_done_def cascaded_def)
  qed
  with True show ?thesis by (simp add: cascade_on_def run_rules deeper(1))
next
  case False
  with inv show ?thesis by (simp add: cascade_on_def run_rules)
qed

lemma cycles_within_ok:
  assumes "good gen e" "budget e < 2 ^ 64" "unat (bc_max_cascade_depth (be_config e)) - unat depth < fuel"
  shows "runs (cycles_within fuel gen ts k depth evs :: ('d board_engine, 'e, cycle_event list) sm) e (cycles_done gen e k depth evs)"
  using assms
proof (induction fuel arbitrary: k depth evs e)
  case (Suc fuel)
  show ?case
  proof (cases "depth < bc_max_cascade_depth (be_config e) \<and> board_is_full e k")
    case False
    show ?thesis
      by (rule runs_mono [OF cycles_idle [OF False]]) (use False cascaded_refl [OF Suc.prems(1)] in \<open>auto simp: cycles_done_def\<close>)
  next
    case True
    then obtain b where b: "hm_get (be_boards e) k = Some b" "is_full b" by (auto simp: board_is_full_iff)
    note fb = full_boardI [OF Suc.prems(1) b Suc.prems(2)]
    have cascade: "runs (cascade_on fuel gen ts depth j ev :: ('d board_engine, 'e, cycle_event list) sm) e'
        (\<lambda>ev' e'. cascaded gen e evs ev' e' \<and> has_opening e')" if "cascaded gen e evs ev e' \<and> has_opening e'" for j evs ev e'
      using that True Suc.prems(2,3) by (intro cascade_on_ok Suc.IH) auto
    show ?thesis
    proof (rule cycles_step [OF fb b(2)], use True in simp,
        rule runs_mono [OF re_enter_ok [OF conjunct1 [OF spread_ok(1) [OF fb]]]])
      fix r e' assume en: "entered ts (hd (board_members b)) (spread gen k b ts e) r e'"
      let ?evs = "evs @ [cycle_of gen e k b ts r]"
      note cy = cycle_evolves [OF fb en]
      have first: "event_ok e (cycle_of gen e k b ts r)" by (rule cycle_event_ok [OF fb cy(3)])
      have start: "cascaded gen e ?evs ?evs e' \<and> has_opening e'" using cy(1,2) by (simp add: cascaded_def)
      have "runs (case r of Some j \<Rightarrow> cascade_on fuel gen ts depth j ?evs | None \<Rightarrow> (sret ?evs :: ('d board_engine, 'e, cycle_event list) sm)) e'
          (\<lambda>ev e'. cascaded gen e ?evs ev e' \<and> has_opening e')"
        using cascade [OF start] start by (cases r) (simp_all only: option.case runs_sret)
      then have "runs (sbind (case r of Some j \<Rightarrow> cascade_on fuel gen ts depth j ?evs | None \<Rightarrow> (sret ?evs :: ('d board_engine, 'e, cycle_event list) sm))
          (sfold (cascade_on fuel gen ts depth) (map fst (split_parts gen e b ts)))) e' (\<lambda>ev e'. cascaded gen e ?evs ev e' \<and> has_opening e')"
        by (rule runs_sbindI) (rule runs_sfold_keeps, assumption, rule cascade)
      then show "runs (sbind (case r of Some j \<Rightarrow> cascade_on fuel gen ts depth j ?evs | None \<Rightarrow> (sret ?evs :: ('d board_engine, 'e, cycle_event list) sm))
          (sfold (cascade_on fuel gen ts depth) (map fst (split_parts gen e b ts)))) e' (cycles_done gen e k depth evs)"
        by (rule runs_mono) (use first b(1) in \<open>auto simp: cycles_done_def cascaded_def\<close>)
    qed
  qed
qed simp

lemma process_cycles_ok:
  assumes "good gen e" "budget e < 2 ^ 64"
  shows "runs (process_cycles gen ts k depth evs) e (cycles_done gen e k depth evs)"
  unfolding process_cycles_def runs_sbind_sgets_Ok by (rule cycles_within_ok) (use assms in auto)

section \<open>Draining and re-seating\<close>

lemma cascadedD:
  assumes "cascaded gen e evs evs' e'"
  shows "evolves gen e e'" "good gen e'" "budget e' \<le> budget e"
  using assms evolvesD(1,5) [of gen e e'] by (simp_all add: cascaded_def)

lemma cycles_cascaded:
  assumes "cascaded gen e evs evs' e'" "cycles_done gen e' k depth evs' evs'' e''"
  shows "cascaded gen e evs evs'' e''" "has_opening e' \<Longrightarrow> has_opening e''"
proof -
  from assms(2) have c: "cascaded gen e' evs' evs'' e''" by (simp add: cycles_done_def)
  show "cascaded gen e evs evs'' e''" by (rule cascaded_trans [OF assms(1) c])
  show "has_opening e' \<Longrightarrow> has_opening e''" by (rule evolvesD(7) [OF cascadedD(1) [OF c]])
qed

lemma cascade_next:
  assumes "cascaded gen e evs evs' e'" "budget e < 2 ^ 64"
  shows "runs (process_cycles gen ts k depth evs') e' (\<lambda>evs'' e''. cascaded gen e evs evs'' e'' \<and>
    (has_opening e' \<or> board_is_full e' k \<and> depth < bc_max_cascade_depth (be_config e) \<longrightarrow> has_opening e''))"
proof (rule runs_mono [OF process_cycles_ok])
  show "good gen e'" "budget e' < 2 ^ 64" using cascadedD(2,3) [OF assms(1)] assms(2) by simp_all
  fix evs'' e'' assume fin: "cycles_done gen e' k depth evs' evs'' e''"
  then show "cascaded gen e evs evs'' e'' \<and>
    (has_opening e' \<or> board_is_full e' k \<and> depth < bc_max_cascade_depth (be_config e) \<longrightarrow> has_opening e'')"
    using cycles_cascaded [OF assms(1) fin] evolvesD(9) [OF cascadedD(1) [OF assms(1)]] by (auto simp: cycles_done_def)
qed

text \<open>Draining runs at depth 0: unless cascades are switched off, it leaves an opening somewhere.\<close>

lemma drain_ok:
  assumes e: "good gen e" "budget e < 2 ^ 64"
  shows "runs (drain_full_boards gen ts evs) e (\<lambda>evs' e'. cascaded gen e evs evs' e' \<and>
    (0 < bc_max_cascade_depth (be_config e) \<and> be_boards e \<noteq> [] \<longrightarrow> has_opening e'))"
proof -
  have wf: "engine_wf e" using e(1) by simp
  let ?ids = "map bd_id (sort_key age (filter is_full (map snd (be_boards e))))"
  let ?P = "\<lambda>ys evs' e'. cascaded gen e evs evs' e' \<and> (has_opening e \<longrightarrow> has_opening e') \<and>
     (ys = [] \<longrightarrow> e' = e) \<and> (ys \<noteq> [] \<and> 0 < bc_max_cascade_depth (be_config e) \<longrightarrow> has_opening e')"
  have full: "board_is_full e k" if "k \<in> set ?ids" for k
  proof -
    from that obtain j b where b: "(j, b) \<in> set (be_boards e)" "is_full b" "k = bd_id b" by auto
    then have "hm_get (be_boards e) k = Some b"
      using engine_wfD(4) [OF wf b(1)] hm_in_get [OF engine_wfD(2) [OF wf]] by (simp add: board_ok_def)
    with b(2) show ?thesis by (simp add: board_is_full_def)
  qed
  have "runs (sfold (\<lambda>board_id. process_cycles gen ts board_id 0) ?ids evs) e (?P ?ids)"
  proof (rule runs_sfold [where P = ?P])
    show "?P [] evs e" using cascaded_refl [OF e(1)] by simp
    fix ys k zs evs' e' assume ids: "?ids = ys @ k # zs" and P: "?P ys evs' e'"
    from P have c: "cascaded gen e evs evs' e'" by blast
    have "ys = [] \<Longrightarrow> board_is_full e' k" using P full [of k] ids by simp
    then show "runs (process_cycles gen ts k 0 evs') e' (?P (ys @ [k]))"
      by (intro runs_mono [OF cascade_next [OF c e(2)]]) (use P in auto)
  qed
  then show ?thesis unfolding drain_full_boards_def runs_sbind_sgets_Ok
  proof (rule runs_mono)
    fix evs' e' assume P: "?P ?ids evs' e'"
    show "cascaded gen e evs evs' e' \<and> (0 < bc_max_cascade_depth (be_config e) \<and> be_boards e \<noteq> [] \<longrightarrow> has_opening e')"
    proof (intro conjI impI)
      show "cascaded gen e evs evs' e'" using P by blast
      assume a: "0 < bc_max_cascade_depth (be_config e) \<and> be_boards e \<noteq> []"
      show "has_opening e'"
      proof (cases "?ids = []")
        case True
        from a obtain k b where b: "(k, b) \<in> set (be_boards e)" by (cases "be_boards e") auto
        moreover have "bd_id b \<in> set ?ids" if "is_full b" using that b by force
        with True have "\<not> is_full b" by auto
        ultimately have "has_opening e" using wf_first_open(2,3) [OF wf b] by (force simp: has_opening_def)
        with P show ?thesis by blast
      next
        case False
        with P a show ?thesis by blast
      qed
    qed
  qed
qed

end
