(* ===== verification/Board_Join.thy ===== *)
theory Board_Join
  imports Board_Cycle
begin

text \<open>
  Joining the board plan: a new member, or one displaced earlier, takes the first opening of a board
  and the boards cycle. What the calls return, what they do to the roster, and that with re-entry and
  cascades on nobody stays displaced.
\<close>

section \<open>Members added to the roster\<close>

definition joined :: "(u64 \<Rightarrow> uuid) \<Rightarrow> uuid list \<Rightarrow> 'd board_engine \<Rightarrow> cycle_event list \<Rightarrow> cycle_event list \<Rightarrow> 'd board_engine \<Rightarrow> bool" where
  "joined gen us e evs evs' e' \<longleftrightarrow> good gen e' \<and> mset (roster e') = mset us + mset (roster e) \<and>
     budget e' \<le> budget e + 2 * length us \<and> same_setup e e' \<and>
     (has_opening e \<and> 0 < bc_max_cascade_depth (be_config e) \<longrightarrow> has_opening e' \<and>
       (bc_re_entry_enabled (be_config e) \<longrightarrow> be_displaced_members e' = be_displaced_members e)) \<and>
     (\<exists>more. evs' = evs @ more \<and> (\<forall>ev \<in> set more. event_ok e' ev))"

lemma joinedD:
  assumes "joined gen us e evs evs' e'"
  shows "good gen e'" "mset (roster e') = mset us + mset (roster e)" "budget e' \<le> budget e + 2 * length us" "same_setup e e'"
    "set (roster e') = set us \<union> set (roster e)" "\<exists>more. evs' = evs @ more \<and> (\<forall>ev \<in> set more. event_ok e' ev)"
    "has_opening e \<Longrightarrow> 0 < bc_max_cascade_depth (be_config e) \<Longrightarrow> has_opening e' \<and>
      (bc_re_entry_enabled (be_config e) \<longrightarrow> be_displaced_members e' = be_displaced_members e)"
proof -
  show "has_opening e \<Longrightarrow> 0 < bc_max_cascade_depth (be_config e) \<Longrightarrow> has_opening e' \<and>
      (bc_re_entry_enabled (be_config e) \<longrightarrow> be_displaced_members e' = be_displaced_members e)" using assms by (simp add: joined_def)
  show "\<exists>more. evs' = evs @ more \<and> (\<forall>ev \<in> set more. event_ok e' ev)" using assms by (simp add: joined_def)
  show "good gen e'" and m: "mset (roster e') = mset us + mset (roster e)" and "budget e' \<le> budget e + 2 * length us" and "same_setup e e'"
    using assms by (auto simp: joined_def)
  show "set (roster e') = set us \<union> set (roster e)" using arg_cong [OF m, of set_mset] by simp
qed

lemma event_ok_mono:
  "event_ok e ev \<Longrightarrow> same_setup e e' \<Longrightarrow> set (roster e) \<subseteq> set (roster e') \<Longrightarrow> event_ok e' ev"
  by (auto simp: event_ok_def same_setup_def)

lemma cascaded_joined:
  assumes "cascaded gen e evs evs' e'"
  shows "joined gen [] e evs evs' e'"
  using assms evolvesD [OF cascadedD(1) [OF assms]] event_ok_evolves [OF cascadedD(1) [OF assms]]
  by (auto simp: joined_def cascaded_def)

lemma joined_trans:
  assumes a: "joined gen us e evs evs' e'" and b: "joined gen vs e' evs' evs'' e''"
  shows "joined gen (us @ vs) e evs evs'' e''"
proof -
  have same: "same_setup e e''" by (rule same_setup_trans [OF joinedD(4) [OF a] joinedD(4) [OF b]])
  have cfg: "be_config e' = be_config e" using joinedD(4) [OF a] by (simp add: same_setup_def)
  obtain more more' where m: "evs' = evs @ more" "\<forall>ev \<in> set more. event_ok e' ev" "evs'' = evs' @ more'"
    "\<forall>ev \<in> set more'. event_ok e'' ev" using joinedD(6) [OF a] joinedD(6) [OF b] by blast
  have "set (roster e') \<subseteq> set (roster e'')" using joinedD(5) [OF b] by simp
  with m have "evs'' = evs @ (more @ more') \<and> (\<forall>ev \<in> set (more @ more'). event_ok e'' ev)"
    using joinedD(4) [OF b] by (auto intro: event_ok_mono)
  moreover have "mset (roster e'') = mset (us @ vs) + mset (roster e)" "budget e'' \<le> budget e + 2 * length (us @ vs)"
    using joinedD(2,3) [OF a] joinedD(2,3) [OF b] by simp_all
  moreover have "has_opening e \<and> 0 < bc_max_cascade_depth (be_config e) \<longrightarrow> has_opening e'' \<and>
      (bc_re_entry_enabled (be_config e) \<longrightarrow> be_displaced_members e'' = be_displaced_members e)"
    using joinedD(7) [OF a] joinedD(7) [OF b] by (simp add: cfg)
  ultimately show ?thesis using joinedD(1) [OF b] same unfolding joined_def by blast
qed

text \<open>Taking an opening and cycling the board if that filled it.\<close>

lemma seat_joined:
  assumes e: "good gen e" "hm_get (be_boards e) k = Some b" "u \<notin> set (roster e)" "length (board_members b) < be_total_positions e"
    and e': "e' = seat k b (length (board_members b)) u ts e"
    and c: "cascaded gen e' evs evs' e''"
    and op: "board_is_full e' k \<and> 0 < bc_max_cascade_depth (be_config e') \<longrightarrow> has_opening e''"
  shows "joined gen [u] e evs evs' e''"
proof -
  have wf: "engine_wf e" using e(1) by simp
  note s = seat_ok [OF wf e(2-4) e']
  note ev = cascadedD [OF c] evolvesD [OF cascadedD(1) [OF c]]
  have same: "same_setup e e''" by (rule same_setup_trans [OF s(5) ev(9)])
  have N: "be_total_positions e' = be_total_positions e" "be_config e' = be_config e" using s(5) by (simp_all add: same_setup_def)
  have kb: "hm_get (be_boards e') k = Some (seated_board b u ts)" using s(7) [of k] by simp
  have "has_opening e''" if "0 < bc_max_cascade_depth (be_config e)"
  proof (cases "board_is_full e' k")
    case True
    with op that N(2) show ?thesis by simp
  next
    case False
    then have "length (board_members (seated_board b u ts)) < be_total_positions e'"
      using wf_first_open(2,3) [OF s(1) hm_get_in [OF kb]] kb by (simp add: board_is_full_def)
    then have "has_opening e'" by (rule has_openingI [OF kb])
    then show ?thesis by (rule ev(10))
  qed
  moreover have "bc_re_entry_enabled (be_config e) \<longrightarrow> be_displaced_members e'' = be_displaced_members e"
    using ev(11) N(2) s(6) by simp
  moreover have "\<exists>more. evs' = evs @ more \<and> (\<forall>ev \<in> set more. event_ok e'' ev)"
    using c event_ok_evolves [OF cascadedD(1) [OF c]] by (auto simp: cascaded_def)
  moreover have "budget e'' \<le> budget e + 2 * length [u]" using ev(3) s(3) by simp
  moreover have "mset (roster e'') = mset [u] + mset (roster e)" using ev(7) s(2) by simp
  ultimately show ?thesis unfolding joined_def using ev(2) same by blast
qed

lemma seat_and_cycle:
  assumes e: "good gen e" "hm_get (be_boards e) k = Some b" "u \<notin> set (roster e)" "length (board_members b) < be_total_positions e"
    and fits: "budget e + 2 < 2 ^ 64" and e': "e' = seat k b (length (board_members b)) u ts e"
  shows "runs (if board_is_full e' k then process_cycles gen ts k 0 evs else sret evs) e' (joined gen [u] e evs)"
proof -
  have wf: "engine_wf e" using e(1) by simp
  note s = seat_ok [OF wf e(2-4) e']
  have good': "good gen e'" using s(1) s(4) e(1) by blast
  show ?thesis
  proof (cases "board_is_full e' k")
    case True
    have "runs (process_cycles gen ts k 0 evs) e' (joined gen [u] e evs)"
    proof (rule runs_mono [OF process_cycles_ok [OF good']])
      show "budget e' < 2 ^ 64" using s(3) fits by linarith
      fix evs' e'' assume "cycles_done gen e' k 0 evs evs' e''"
      then show "joined gen [u] e evs evs' e''" by (intro seat_joined [OF e e']) (auto simp: cycles_done_def)
    qed
    with True show ?thesis by simp
  next
    case False
    then show ?thesis using seat_joined [OF e e' cascaded_refl [OF good']] by (simp add: runs_sret)
  qed
qed

section \<open>Displaced members\<close>

lemma place_one_ok:
  assumes e: "good gen e" "u \<notin> set (roster e)" and fits: "budget e + 2 < 2 ^ 64"
  shows "runs (place_displaced_one gen ts u evs :: ('d board_engine, 'e, cycle_event list) sm) e (joined gen [u] e evs)"
proof -
  have wf: "engine_wf e" using e(1) by simp
  from oldest_board_ok [OF wf] consider (none) "oldest_board_with_opening e = Err NoBoardsAvailable" "\<not> has_opening e"
    | (some) k b where "oldest_board_with_opening e = Ok k" "hm_get (be_boards e) k = Some b" "length (board_members b) < be_total_positions e"
    by blast
  then show ?thesis
  proof cases
    case none
    have "place_displaced_one gen ts u evs e = (Ok evs, displace u e)" by (simp add: place_displaced_one_def none(1))
    then show ?thesis
    proof (rule runsI)
      note d = displace_ok [OF wf e(2) refl]
      show "joined gen [u] e evs evs (displace u e)"
        unfolding joined_def using d(1-3,5) d(4) [where gen = gen] e(1) none(2) by simp
    qed
  next
    case some
    have "first_open_position b = Some (length (board_members b))" using wf_first_open(1) [OF wf hm_get_in [OF some(2)]] some(3) by simp
    then have eq: "place_displaced_one gen ts u evs e =
        (let e' = seat k b (length (board_members b)) u ts e in
          (if board_is_full e' k then process_cycles gen ts k 0 evs else sret evs) e')"
      by (simp add: place_displaced_one_def some Let_def sret_def)
    let ?e = "seat k b (length (board_members b)) u ts e"
    have "runs (if board_is_full ?e k then process_cycles gen ts k 0 evs else (sret evs :: ('d board_engine, 'e, cycle_event list) sm)) ?e (joined gen [u] e evs)"
      by (rule seat_and_cycle [OF e(1) some(2) e(2) some(3) fits refl])
    then show ?thesis by (simp add: runs_def eq Let_def)
  qed
qed

lemma place_displaced_ok:
  assumes e: "good gen e" and fits: "budget e < 2 ^ 64"
  shows "runs (place_displaced_members gen ts evs) e (\<lambda>evs' e'. \<exists>e0. e0 = e\<lparr>be_displaced_members := []\<rparr> \<and>
    joined gen (be_displaced_members e) e0 evs evs' e')"
proof -
  let ?e = "e\<lparr>be_displaced_members := []\<rparr>" and ?ds = "be_displaced_members e"
  have wf: "engine_wf e" using e by simp
  have good': "good gen ?e"
    using e by (auto simp: engine_wf_def fresh_ids_def sized_def roster_def)
  have b: "budget ?e + 2 * length ?ds = budget e" by (simp add: budget_def part_size_def)
  have "runs (sfold (place_displaced_one gen ts) ?ds evs) ?e (joined gen ?ds ?e evs)"
  proof (rule runs_sfold [where P = "\<lambda>us. joined gen us ?e evs"])
    show "joined gen [] ?e evs evs ?e" by (rule cascaded_joined [OF cascaded_refl [OF good']])
    fix ys u zs evs' e' assume ds: "?ds = ys @ u # zs" and j: "joined gen ys ?e evs evs' e'"
    have "distinct (roster e)" by (rule engine_wfD(6) [OF wf])
    then have "u \<notin> set (roster e')" using joinedD(5) [OF j] by (auto simp: roster_def ds)
    moreover have "budget e' + 2 < 2 ^ 64" using joinedD(3) [OF j] b fits by (simp add: ds)
    ultimately show "runs (place_displaced_one gen ts u evs') e' (joined gen (ys @ [u]) ?e evs)"
      using runs_mono [OF place_one_ok [OF joinedD(1) [OF j]]] joined_trans [OF j] by metis
  qed
  then show ?thesis unfolding place_displaced_members_def runs_sbind_sgets_Ok runs_sbind_smodify by simp
qed

text \<open>Draining and re-seating, the common start of \<open>add_member\<close>.\<close>

definition reseated :: "(u64 \<Rightarrow> uuid) \<Rightarrow> 'd board_engine \<Rightarrow> cycle_event list \<Rightarrow> 'd board_engine \<Rightarrow> bool" where
  "reseated gen e evs e' \<longleftrightarrow> good gen e' \<and> mset (roster e') = mset (roster e) \<and> budget e' \<le> budget e \<and> same_setup e e' \<and>
     (be_boards e \<noteq> [] \<and> 0 < bc_max_cascade_depth (be_config e) \<longrightarrow> has_opening e' \<and>
       (bc_re_entry_enabled (be_config e) \<longrightarrow> be_displaced_members e' = [])) \<and>
     (\<forall>ev \<in> set evs. event_ok e' ev)"

lemma reseat_ok:
  assumes e: "good gen e" "budget e < 2 ^ 64"
  shows "runs (sbind (drain_full_boards gen ts []) (place_displaced_members gen ts)) e (reseated gen e)"
proof (rule runs_sbindI [OF drain_ok [OF e]])
  fix evs1 e1 assume a: "cascaded gen e [] evs1 e1 \<and> (0 < bc_max_cascade_depth (be_config e) \<and> be_boards e \<noteq> [] \<longrightarrow> has_opening e1)"
  let ?e = "e1\<lparr>be_displaced_members := []\<rparr>"
  from a have c: "cascaded gen e [] evs1 e1" by blast
  note ev = cascadedD [OF c] and same = evolvesD(6) [OF cascadedD(1) [OF c]]
  have evs1: "\<forall>x \<in> set evs1. event_ok e1 x" using c event_ok_evolves [OF ev(1)] by (auto simp: cascaded_def)
  show "runs (place_displaced_members gen ts evs1) e1 (reseated gen e)"
  proof (rule runs_mono [OF place_displaced_ok [OF ev(2)]])
    show "budget e1 < 2 ^ 64" using ev(3) e(2) by simp
    fix evs2 e2 assume "\<exists>e0. e0 = ?e \<and> joined gen (be_displaced_members e1) e0 evs1 evs2 e2"
    then have j: "joined gen (be_displaced_members e1) ?e evs1 evs2 e2" by blast
    have r: "mset (roster e1) = mset (be_displaced_members e1) + mset (roster ?e)" by (simp add: roster_def)
    have roster: "mset (roster e2) = mset (roster e1)" using joinedD(2) [OF j] r by simp
    have same2: "same_setup e1 e2" using joinedD(4) [OF j] by (simp add: same_setup_def)
    have b: "budget ?e + 2 * length (be_displaced_members e1) = budget e1" by (simp add: budget_def part_size_def)
    have op: "has_opening ?e \<longleftrightarrow> has_opening e1" by (simp add: has_opening_def)
    have evs2: "\<forall>x \<in> set evs2. event_ok e2 x"
      using joinedD(6) [OF j] evs1 same2 mset_eq_setD [OF roster] event_ok_mono [of e1 _ e2] by auto
    have "has_opening e2 \<and> (bc_re_entry_enabled (be_config e) \<longrightarrow> be_displaced_members e2 = [])"
      if "be_boards e \<noteq> []" "0 < bc_max_cascade_depth (be_config e)"
      using that a j op same by (simp add: joined_def same_setup_def)
    then show "reseated gen e evs2 e2"
      unfolding reseated_def using joinedD(1,3) [OF j] roster evolvesD(4) [OF ev(1)] b ev(3) evs2 same_setup_trans [OF same same2] by auto
  qed
qed

section \<open>Joining\<close>

lemma check_add_member_cases:
  assumes "engine_wf e"
  shows "decided (check_add_member e u s)"
    "check_add_member e u s = Ok () \<longleftrightarrow> u \<notin> set (roster e) \<and> be_boards e \<noteq> [] \<and>
      (be_member_boards e = [] \<and> be_sponsor_map e = [] \<or> s \<in> set (roster e))"
  by (auto simp: check_add_member_def in_roster [OF assms] Let_def)

definition admitted :: "(u64 \<Rightarrow> uuid) \<Rightarrow> uuid \<Rightarrow> uuid \<Rightarrow> 'd board_engine \<Rightarrow> add_member_result \<Rightarrow> 'd board_engine \<Rightarrow> bool" where
  "admitted gen u s e r e' \<longleftrightarrow> good gen e' \<and> mset (roster e') = add_mset u (mset (roster e)) \<and> budget e' \<le> budget e + 2 \<and>
     same_setup (e\<lparr>be_sponsor_map := hm_insert u s (be_sponsor_map e)\<rparr>) e' \<and> am_position r < be_total_positions e \<and>
     (\<forall>ev \<in> set (am_cycle_events r). event_ok e' ev) \<and>
     (0 < bc_max_cascade_depth (be_config e) \<longrightarrow> has_opening e' \<and>
       (bc_re_entry_enabled (be_config e) \<longrightarrow> be_displaced_members e' = []))"

definition turned_away :: "(u64 \<Rightarrow> uuid) \<Rightarrow> uuid \<Rightarrow> uuid \<Rightarrow> 'd board_engine \<Rightarrow> board_plan_error \<Rightarrow> 'd board_engine \<Rightarrow> bool" where
  "turned_away gen u s e x e' \<longleftrightarrow> x = NoBoardsAvailable \<and> bc_max_cascade_depth (be_config e) = 0 \<and> \<not> has_opening e' \<and>
     good gen e' \<and> mset (roster e') = mset (roster e) \<and> budget e' \<le> budget e \<and>
     same_setup (e\<lparr>be_sponsor_map := hm_insert u s (be_sponsor_map e)\<rparr>) e'"

text \<open>The second half of \<open>add_member\<close>, after the displaced members had their turn.\<close>

definition take_opening ::
  "(u64 \<Rightarrow> uuid) \<Rightarrow> uuid \<Rightarrow> uuid \<Rightarrow> i64 \<Rightarrow> cycle_event list \<Rightarrow> ('d board_engine, board_plan_error, add_member_result) sm" where
  "take_opening gen u s ts evs = sbind (sgets (\<lambda>e. find_placement_board e s)) (\<lambda>board_id.
     sbind (sgets (\<lambda>e. ok_or (hm_get (be_boards e) board_id) (BoardNotFound board_id))) (\<lambda>b.
     sbind (sgets (\<lambda>_. ok_or (first_open_position b) NoBoardsAvailable)) (\<lambda>pos.
     sbind (smodify (seat board_id b pos u ts)) (\<lambda>_.
     sbind (sgets (\<lambda>e. Ok (board_is_full e board_id))) (\<lambda>full.
     sbind (if full then process_cycles gen ts board_id 0 evs else sret evs) (\<lambda>events.
     sret \<lparr>am_board_id = board_id, am_position = pos, am_cycle_events = events\<rparr>))))))"

lemma add_member_split:
  assumes "check_add_member e u s = Ok ()"
  shows "add_member gen u s ts e = sbind (sbind (drain_full_boards gen ts []) (place_displaced_members gen ts))
    (take_opening gen u s ts) (e\<lparr>be_sponsor_map := hm_insert u s (be_sponsor_map e)\<rparr>)"
proof -
  have eq: "take_opening gen u s ts = (\<lambda>events. sbind (sgets (\<lambda>e. find_placement_board e s)) (\<lambda>board_id.
     sbind (sgets (\<lambda>e. ok_or (hm_get (be_boards e) board_id) (BoardNotFound board_id))) (\<lambda>b.
     sbind (sgets (\<lambda>_. ok_or (first_open_position b) NoBoardsAvailable)) (\<lambda>pos.
     sbind (smodify (seat board_id b pos u ts)) (\<lambda>_.
     sbind (sgets (\<lambda>e. Ok (board_is_full e board_id))) (\<lambda>full.
     sbind (if full then process_cycles gen ts board_id 0 events else sret events) (\<lambda>events.
     sret \<lparr>am_board_id = board_id, am_position = pos, am_cycle_events = events\<rparr>)))))))"
    by (rule ext) (simp add: take_opening_def)
  have "add_member gen u s ts e = sbind (drain_full_boards gen ts []) (\<lambda>events.
      sbind (place_displaced_members gen ts events) (take_opening gen u s ts)) (e\<lparr>be_sponsor_map := hm_insert u s (be_sponsor_map e)\<rparr>)"
    using assms by (simp add: add_member_def outcome_simps eq)
  then show ?thesis by (simp add: sbind_def split: prod.split result.split)
qed

lemma take_opening_ok:
  assumes e: "good gen e" "budget e + 2 < 2 ^ 64" and u: "u \<notin> set (roster e)"
  shows "find_placement_board e s = Err NoBoardsAvailable \<and> \<not> has_opening e \<and> take_opening gen u s ts evs e = (Err NoBoardsAvailable, e) \<or>
    (\<exists>k b. find_placement_board e s = Ok k \<and> hm_get (be_boards e) k = Some b \<and> length (board_members b) < be_total_positions e \<and>
      runs (take_opening gen u s ts evs) e (\<lambda>r e'. am_board_id r = k \<and> am_position r = length (board_members b) \<and>
        joined gen [u] e evs (am_cycle_events r) e'))"
proof -
  have wf: "engine_wf e" using e(1) by simp
  from find_placement_ok [OF wf, of s] show ?thesis
  proof (elim disjE exE conjE)
    assume "find_placement_board e s = Err NoBoardsAvailable" "\<not> has_opening e"
    then show ?thesis by (simp add: take_opening_def outcome_simps)
  next
    fix k b assume k: "find_placement_board e s = Ok k" "hm_get (be_boards e) k = Some b" "length (board_members b) < be_total_positions e"
    let ?pos = "length (board_members b)" and ?e = "seat k b (length (board_members b)) u ts e"
    have pos: "first_open_position b = Some ?pos" using wf_first_open(1) [OF wf hm_get_in [OF k(2)]] k(3) by simp
    have "runs (sbind (if board_is_full ?e k then process_cycles gen ts k 0 evs else sret evs)
        (\<lambda>events. sret \<lparr>am_board_id = k, am_position = ?pos, am_cycle_events = events\<rparr>)) ?e
        (\<lambda>r e'. am_board_id r = k \<and> am_position r = ?pos \<and> joined gen [u] e evs (am_cycle_events r) e')"
      by (rule runs_sbindI [OF seat_and_cycle [OF e(1) k(2) u k(3) e(2) refl]]) (simp add: runs_sret)
    then have "runs (take_opening gen u s ts evs) e (\<lambda>r e'. am_board_id r = k \<and> am_position r = ?pos \<and> joined gen [u] e evs (am_cycle_events r) e')"
      by (simp add: take_opening_def run_rules k pos)
    with k show ?thesis by blast
  qed
qed

lemma add_member_ok:
  assumes e: "good gen e" "budget e + 2 < 2 ^ 64" and chk: "check_add_member e u s = Ok ()"
  shows "returns (add_member gen u s ts) e (admitted gen u s e) (turned_away gen u s e)"
proof -
  have wf: "engine_wf e" using e(1) by simp
  let ?e = "e\<lparr>be_sponsor_map := hm_insert u s (be_sponsor_map e)\<rparr>"
  have u: "u \<notin> set (roster e)" and bs: "be_boards e \<noteq> []" using chk check_add_member_cases(2) [OF wf] by auto
  have good': "good gen ?e" using e(1) by (auto simp: engine_wf_def fresh_ids_def sized_def roster_def)
  have e': "roster ?e = roster e" "budget ?e = budget e" by (simp_all add: roster_def budget_def part_size_def)
  have rest: "returns (take_opening gen u s ts evs) e1 (admitted gen u s e) (turned_away gen u s e)" if re: "reseated gen ?e evs e1" for evs e1
  proof -
    from re have e1: "good gen e1" "mset (roster e1) = mset (roster e)" "budget e1 \<le> budget e" "same_setup ?e e1"
        "\<forall>ev \<in> set evs. event_ok e1 ev" and op: "0 < bc_max_cascade_depth (be_config e) \<Longrightarrow> has_opening e1 \<and>
        (bc_re_entry_enabled (be_config e) \<longrightarrow> be_displaced_members e1 = [])"
      using bs by (auto simp: reseated_def e')
    have u1: "u \<notin> set (roster e1)" using u mset_eq_setD [OF e1(2)] by simp
    have fits: "budget e1 + 2 < 2 ^ 64" using e1(3) e(2) by simp
    have cfg: "be_config e1 = be_config e" "be_total_positions e1 = be_total_positions e" using e1(4) by (simp_all add: same_setup_def)
    from take_opening_ok [OF e1(1) fits u1, of s ts evs] show ?thesis
    proof (elim disjE exE conjE)
      assume none: "\<not> has_opening e1" "take_opening gen u s ts evs e1 = (Err NoBoardsAvailable, e1)"
      then have "bc_max_cascade_depth (be_config e) = 0" using op by (metis word_gt_0)
      then show ?thesis using none e1 by (simp add: returns_def turned_away_def)
    next
      fix k b assume k: "length (board_members b) < be_total_positions e1" "runs (take_opening gen u s ts evs) e1 (\<lambda>r e'.
        am_board_id r = k \<and> am_position r = length (board_members b) \<and> joined gen [u] e1 evs (am_cycle_events r) e')"
      show ?thesis
      proof (rule runs_returns, rule runs_mono [OF k(2)], elim conjE)
        fix r :: add_member_result and e' assume r: "am_position r = length (board_members b)" and j: "joined gen [u] e1 evs (am_cycle_events r) e'"
        have "set (roster e1) \<subseteq> set (roster e')" using joinedD(5) [OF j] by auto
        then have "\<forall>ev \<in> set (am_cycle_events r). event_ok e' ev"
          using joinedD(6) [OF j] e1(5) joinedD(4) [OF j] by (auto intro: event_ok_mono)
        then show "admitted gen u s e r e'"
          unfolding admitted_def using joinedD(1-3) [OF j] joinedD(7) [OF j] op e1(2,3) k(1) r cfg same_setup_trans [OF e1(4) joinedD(4) [OF j]]
          by simp
      qed
    qed
  qed
  have "returns (sbind (sbind (drain_full_boards gen ts []) (place_displaced_members gen ts)) (take_opening gen u s ts)) ?e
      (admitted gen u s e) (turned_away gen u s e)"
    by (rule returns_sbindI [OF reseat_ok [OF good']]) (use e e' rest in auto)
  then show ?thesis by (simp add: returns_def add_member_split [OF chk])
qed

end
