(* ===== verification/Board_Leave.thy ===== *)
theory Board_Leave
  imports Board_Join
begin

text \<open>
  Leaving the board plan: a member's board closes the gap, a stalled board is dissolved into displaced
  members, inactive members are compressed out. Boards that are full cycle first, so that nobody who
  earned a cycle loses it to the removal of somebody else.
\<close>

section \<open>Closing the gap\<close>

lemma hm_insert_same: "hm_get m k = Some v \<Longrightarrow> hm_insert k v m = m"
  by (simp add: hm_get_def hm_insert_def update_triv)

lemma hm_insert_twice [simp]: "hm_insert k v (hm_insert k v' m) = hm_insert k v m"
  unfolding hm_insert_def by (induction m) auto

definition occupants :: "nat \<Rightarrow> uuid option list \<Rightarrow> (nat \<times> uuid) list" where
  "occupants i ps = List.map_filter (\<lambda>(i, p). map_option (Pair i) p) (enumerate i ps)"

lemma occupants_simps:
  "occupants i [] = []" "occupants i (None # ps) = occupants (Suc i) ps" "occupants i (Some u # ps) = (i, u) # occupants (Suc i) ps"
  by (simp_all add: occupants_def List.map_filter_def)

lemma occupants_none: "occupants i (replicate n None) = []"
  by (induction n arbitrary: i) (simp_all add: occupants_simps)

lemma occupants_append: "occupants i (map Some ms @ ps) = enumerate i ms @ occupants (i + length ms) ps"
  by (induction ms arbitrary: i) (simp_all add: occupants_simps)

text \<open>Writing the members back in order; who moved is who has a new position.\<close>

lemma replace_members:
  assumes "hm_get (be_boards e) k = Some b" "bd_positions b = map Some pre @ replicate n None" "length xs \<le> n"
    and "\<forall>m \<in> snd ` set xs. hm_get (be_member_boards e) m = Some k"
  shows "sfold (replace_member k) (enumerate (length pre) xs) moved e =
    ((Ok (moved @ map (snd \<circ> snd) (filter (\<lambda>(i, j, m). i \<noteq> j) (enumerate (length pre) xs))),
      e\<lparr>be_boards := hm_insert k (b\<lparr>bd_positions := map Some (pre @ map snd xs) @ replicate (n - length xs) None\<rparr>) (be_boards e)\<rparr>)
       :: ('e, uuid list) result \<times> 'd board_engine)"
  using assms
proof (induction xs arbitrary: pre n b moved e)
  case Nil
  then have "b\<lparr>bd_positions := map Some (pre @ map snd []) @ replicate (n - length []) None\<rparr> = b" by (cases b) simp
  with Nil show ?case by (cases e) (simp add: sret_def hm_insert_same)
next
  case (Cons x xs)
  obtain j m where x: "x = (j, m)" by (cases x)
  obtain n' where n: "n = Suc n'" using Cons.prems(3) by (cases n) auto
  let ?b = "b\<lparr>bd_positions := map Some (pre @ [m]) @ replicate n' None\<rparr>" and ?moved = "if length pre \<noteq> j then moved @ [m] else moved"
  let ?e = "e\<lparr>be_boards := hm_insert k ?b (be_boards e)\<rparr>"
  have "(bd_positions b)[length pre := Some m] = map Some (pre @ [m]) @ replicate n' None"
    using Cons.prems(2) by (simp add: n list_update_append)
  moreover have "hm_get (be_member_boards e) m = Some k" using Cons.prems(4) by (simp add: x)
  ultimately have step: "replace_member k (length pre, x) moved e = ((Ok ?moved, ?e) :: ('e, uuid list) result \<times> 'd board_engine)"
    using Cons.prems(1,2) by (simp add: replace_member_def outcome_simps x n hm_insert_same)
  have "sfold (replace_member k) (enumerate (length pre) (x # xs)) moved e =
      (sfold (replace_member k) (enumerate (length (pre @ [m])) xs) ?moved ?e :: ('e, uuid list) result \<times> 'd board_engine)"
    using step by (simp add: sbind_def)
  also have "\<dots> = (Ok (?moved @ map (snd \<circ> snd) (filter (\<lambda>(i, j, m). i \<noteq> j) (enumerate (length (pre @ [m])) xs))),
      ?e\<lparr>be_boards := hm_insert k (?b\<lparr>bd_positions := map Some ((pre @ [m]) @ map snd xs) @ replicate (n' - length xs) None\<rparr>) (be_boards ?e)\<rparr>)"
    by (rule Cons.IH) (use Cons.prems in \<open>auto simp: n\<close>)
  finally show ?case by (simp add: x n)
qed

lemma replace_all:
  assumes "hm_get (be_boards e) k = Some b" "bd_positions b = replicate n None" "length xs \<le> n"
    and "\<forall>m \<in> snd ` set xs. hm_get (be_member_boards e) m = Some k"
  shows "sfold (replace_member k) (enumerate 0 xs) [] e =
    ((Ok (map (snd \<circ> snd) (filter (\<lambda>(i, j, m). i \<noteq> j) (enumerate 0 xs))),
      e\<lparr>be_boards := hm_insert k (b\<lparr>bd_positions := map Some (map snd xs) @ replicate (n - length xs) None\<rparr>) (be_boards e)\<rparr>)
       :: ('e, uuid list) result \<times> 'd board_engine)"
  using replace_members [where pre = "[]" and moved = "[]" and 'e = 'e, OF assms(1) _ assms(3,4)] assms(2) by simp

lemma enumerate_stays: "filter (\<lambda>(i, j, m). i \<noteq> j) (enumerate n (enumerate n xs)) = []"
  by (induction xs arbitrary: n) simp_all

lemma enumerate_moves: "map (snd \<circ> snd) (filter (\<lambda>(i, j, m). i \<noteq> j) (enumerate n (enumerate (Suc n) xs))) = xs"
  by (induction xs arbitrary: n) simp_all

text \<open>The board after a removal: the gap is closed and everybody behind it moved up.\<close>

lemma compact_gap:
  assumes b: "hm_get (be_boards e) k = Some b" "bd_positions b = map Some as @ None # map Some bs @ replicate n None"
    and mb: "\<forall>m \<in> set (as @ bs). hm_get (be_member_boards e) m = Some k"
  shows "compact_board k e = (Ok bs, e\<lparr>be_boards :=
    hm_insert k (b\<lparr>bd_positions := map Some (as @ bs) @ replicate (Suc n) None\<rparr>) (be_boards e)\<rparr>)"
proof -
  let ?xs = "enumerate 0 as @ enumerate (Suc (length as)) bs"
  let ?b = "b\<lparr>bd_positions := map (\<lambda>_. None) (bd_positions b)\<rparr>"
  let ?e = "e\<lparr>be_boards := hm_insert k ?b (be_boards e)\<rparr>"
  have xs: "List.map_filter (\<lambda>(i, p). map_option (Pair i) p) (enumerate 0 (bd_positions b)) = ?xs"
    unfolding occupants_def [symmetric] b(2) by (simp add: occupants_append occupants_simps occupants_none)
  have all: "map snd ?xs = as @ bs" by simp
  have none: "bd_positions ?b = replicate (length as + Suc (length bs + n)) None"
    by (simp add: b(2) replicate_add map_replicate_const)
  have "sfold (replace_member k) (enumerate 0 ?xs) [] ?e =
    (Ok (map (snd \<circ> snd) (filter (\<lambda>(i, j, m). i \<noteq> j) (enumerate 0 ?xs))),
      ?e\<lparr>be_boards := hm_insert k (?b\<lparr>bd_positions := map Some (map snd ?xs) @
        replicate (length as + Suc (length bs + n) - length ?xs) None\<rparr>) (be_boards ?e)\<rparr>)"
    by (rule replace_all) (use mb none in \<open>auto simp: enumerate_eq_zip dest: set_zip_rightD\<close>)
  moreover have "map (snd \<circ> snd) (filter (\<lambda>(i, j, m). i \<noteq> j) (enumerate 0 ?xs)) = bs"
    by (simp add: enumerate_append_eq enumerate_stays enumerate_moves del: map_map)
  ultimately show ?thesis
    by (simp add: compact_board_def outcome_simps b(1) xs all)
qed

section \<open>Taking a member out\<close>

definition unseat :: "uuid \<Rightarrow> board \<Rightarrow> uuid \<Rightarrow> i64 \<Rightarrow> 'd board_engine \<Rightarrow> 'd board_engine" where
  "unseat k b u ts e = (let ms = remove1 u (board_members b) in
     e\<lparr>be_boards := hm_insert k (b\<lparr>bd_positions := map Some ms @ replicate (be_total_positions e - length ms) None,
         bd_last_activity_at := ts\<rparr>) (be_boards e),
       be_member_boards := hm_remove u (be_member_boards e)\<rparr>)"

lemma members_distinct:
  assumes "engine_wf e" "hm_get (be_boards e) k = Some b"
  shows "distinct (board_members b)"
  using roster_disjoint(3) [OF assms(1)] seated_split [OF engine_wfD(2) [OF assms(1)] assms(2)]
    mset_eq_imp_distinct_iff [of "seated (be_boards e)" "board_members b @ seated (hm_remove k (be_boards e))"] by simp

lemma unseat_ok:
  assumes wf: "engine_wf e" and b: "hm_get (be_boards e) k = Some b" and u: "u \<in> set (board_members b)"
    and e': "e' = unseat k b u ts e"
  shows "engine_wf e'" "add_mset u (mset (roster e')) = mset (roster e)" "budget e' \<le> budget e" "fresh_ids gen e \<Longrightarrow> fresh_ids gen e'"
    "same_setup e e'" "be_displaced_members e' = be_displaced_members e" "has_opening e'"
proof -
  let ?ms = "remove1 u (board_members b)" and ?bs = "be_boards e" and ?n = "be_total_positions e"
  let ?b = "b\<lparr>bd_positions := map Some ?ms @ replicate (?n - length ?ms) None, bd_last_activity_at := ts\<rparr>"
  have ok: "hm_ok ?bs" by (rule engine_wfD(2) [OF wf])
  note bk = wf_board [OF wf b]
  have le: "Suc (length ?ms) = length (board_members b)" "length (board_members b) \<le> ?n"
    using u bk(2) Suc_pred [OF length_pos_if_in_set [OF u]] by (simp_all add: compact_def length_remove1)
  have ms: "board_members ?b = ?ms" by (rule board_members_front) simp
  have cb: "compact ?n ?b" by (rule compactI [where ms = ?ms]) (use le in simp_all)
  have e'_eq: "e' = e\<lparr>be_boards := hm_insert k ?b ?bs, be_member_boards := hm_remove u (be_member_boards e),
      be_displaced_members := be_displaced_members e\<rparr>" by (simp add: e' unseat_def Let_def)
  have "add_mset u (mset (seated (hm_insert k ?b ?bs))) = mset (seated ?bs)"
    using u by (simp add: seated_insert [OF ok] seated_split [OF ok b] ms)
  then show roster: "add_mset u (mset (roster e')) = mset (roster e)" by (simp add: roster_def e'_eq)
  have "distinct (roster e')"
    using mset_eq_imp_distinct_iff [of "u # roster e'" "roster e"] roster engine_wfD(6) [OF wf] by simp
  moreover have "indexed (hm_remove u (be_member_boards e)) (hm_insert k ?b ?bs)"
  proof (rule indexedI)
    show "hm_ok (hm_insert k ?b ?bs)" using ok by simp
    have at: "hm_get (be_member_boards e) u = Some k" using wf_member [OF wf, of u k] b u by blast
    have rm: "v \<in> set ?ms \<longleftrightarrow> v \<in> set (board_members b) \<and> v \<noteq> u" for v
      using members_distinct [OF wf b] by (simp add: set_remove1_eq)
    fix v j
    show "hm_get (hm_remove u (be_member_boards e)) v = Some j" if "hm_get (hm_insert k ?b ?bs) j = Some c" "v \<in> set (board_members c)" for c
      using that wf_member [OF wf, of v j] at b rm [of v] ms by (auto split: if_splits)
    show "\<exists>c. hm_get (hm_insert k ?b ?bs) j = Some c \<and> v \<in> set (board_members c)"
      if "hm_get (hm_remove u (be_member_boards e)) v = Some j"
      using that wf_member [OF wf, of v j] b rm [of v] ms by (auto split: if_splits)
  qed
  ultimately show wf': "engine_wf e'"
    using bk(1) cb engine_wfD(3) [OF wf] by (intro swap_board_wf [OF wf b _ _ _ e'_eq]) simp_all
  have "part_size e' = part_size e" by (simp add: e'_eq part_size_def)
  then show "budget e' \<le> budget e"
    using le by (simp add: budget_def e'_eq excess_insert [OF ok] excess_split [OF ok b] ms)
  show "fresh_ids gen e \<Longrightarrow> fresh_ids gen e'" using b by (auto simp: fresh_ids_def e'_eq)
  show "same_setup e e'" "be_displaced_members e' = be_displaced_members e" by (simp_all add: e'_eq same_setup_def)
  show "has_opening e'" by (rule has_openingI [of _ k ?b]) (use le ms in \<open>simp_all add: e'_eq\<close>)
qed

definition after :: "uuid \<Rightarrow> uuid list \<Rightarrow> uuid list" where
  "after u ms = tl (dropWhile (\<lambda>m. m \<noteq> u) ms)"

lemma after_split: "u \<notin> set as \<Longrightarrow> after u (as @ u # bs) = bs" "u \<notin> set as \<Longrightarrow> remove1 u (as @ u # bs) = as @ bs"
  by (simp_all add: after_def remove1_append dropWhile_append)

text \<open>The second half of \<open>take_member_out\<close>, once a full board has cycled.\<close>

definition close_gap ::
  "uuid \<Rightarrow> i64 \<Rightarrow> cycle_event list \<Rightarrow> uuid option \<Rightarrow> ('d board_engine, board_plan_error, uuid list \<times> cycle_event list) sm" where
  "close_gap user timestamp events found = (case found of
       None \<Rightarrow> sbind (smodify (\<lambda>e. e\<lparr>be_displaced_members := filter (\<lambda>m. m \<noteq> user) (be_displaced_members e)\<rparr>)) (\<lambda>_.
         sret ([], events))
     | Some board_id \<Rightarrow>
         sbind (sgets (\<lambda>e. ok_or (hm_get (be_boards e) board_id) (BoardNotFound board_id))) (\<lambda>b.
         sbind (smodify (\<lambda>e. e\<lparr>be_boards := hm_insert board_id
           (b\<lparr>bd_positions := (case position (\<lambda>p. p = Some user) (bd_positions b) of
                 Some pos \<Rightarrow> (bd_positions b)[pos := None] | None \<Rightarrow> bd_positions b),
              bd_last_activity_at := timestamp\<rparr>) (be_boards e)\<rparr>)) (\<lambda>_.
         sbind (smodify (\<lambda>e. e\<lparr>be_member_boards := hm_remove user (be_member_boards e)\<rparr>)) (\<lambda>_.
         sbind (compact_board board_id) (\<lambda>compacted.
         sret (compacted, events))))))"

lemma update_swap:
  "e\<lparr>be_member_boards := mb, be_boards := bs\<rparr> = e\<lparr>be_boards := bs, be_member_boards := mb\<rparr>"
  "b\<lparr>bd_last_activity_at := ts, bd_positions := ps\<rparr> = b\<lparr>bd_positions := ps, bd_last_activity_at := ts\<rparr>"
  by (cases e, simp) (cases b, simp)

lemma close_gap_seated:
  fixes e :: "'d board_engine"
  assumes wf: "engine_wf e" and b: "hm_get (be_boards e) k = Some b" and u: "u \<in> set (board_members b)"
  shows "close_gap u ts evs (Some k) e = (Ok (after u (board_members b), evs), unseat k b u ts e)"
proof -
  let ?n = "be_total_positions e"
  obtain as bs where ms: "board_members b = as @ u # bs" "u \<notin> set as" using split_list_first [OF u] by blast
  have dist: "distinct (as @ u # bs)" using members_distinct [OF wf b] ms(1) by simp
  have len: "length (as @ u # bs) \<le> ?n" and ps: "bd_positions b = map Some (as @ u # bs) @ replicate (?n - length (as @ u # bs)) None"
    using wf_board(2) [OF wf b] ms(1) by (simp_all add: compact_def)
  have pos: "position (\<lambda>p. p = Some u) (bd_positions b) = Some (length as)"
    using ms(2) by (auto simp: position_Some_iff ps nth_append)
  let ?b = "b\<lparr>bd_positions := map Some as @ None # map Some bs @ replicate (?n - length (as @ u # bs)) None, bd_last_activity_at := ts\<rparr>"
  have gap: "b\<lparr>bd_positions := (bd_positions b)[length as := None], bd_last_activity_at := ts\<rparr> = ?b"
    by (simp add: ps list_update_append)
  let ?e = "e\<lparr>be_boards := hm_insert k ?b (be_boards e), be_member_boards := hm_remove u (be_member_boards e)\<rparr>"
  have at: "\<forall>m \<in> set (as @ bs). hm_get (be_member_boards ?e) m = Some k"
    using wf_member [OF wf, of _ k] b ms(1) dist by auto
  have "compact_board k ?e = (Ok bs, ?e\<lparr>be_boards :=
    hm_insert k (?b\<lparr>bd_positions := map Some (as @ bs) @ replicate (Suc (?n - length (as @ u # bs))) None\<rparr>) (be_boards ?e)\<rparr>)"
    by (rule compact_gap) (use at in simp_all)
  also have "\<dots> = ((Ok bs, unseat k b u ts e) :: (board_plan_error, uuid list) result \<times> 'd board_engine)"
    using len by (simp add: update_swap unseat_def Let_def ms(1) after_split(2) [OF ms(2)] Suc_diff_Suc del: replicate_Suc)
  finally show ?thesis
    by (simp add: close_gap_def outcome_simps b pos gap ms(1) after_split(1) [OF ms(2)] sbind_def [of "compact_board _"])
qed

lemma drop_displaced_ok:
  assumes wf: "engine_wf e" and u: "u \<in> set (be_displaced_members e)"
    and e': "e' = e\<lparr>be_displaced_members := filter (\<lambda>m. m \<noteq> u) (be_displaced_members e)\<rparr>"
  shows "engine_wf e'" "add_mset u (mset (roster e')) = mset (roster e)" "budget e' \<le> budget e" "fresh_ids gen e \<Longrightarrow> fresh_ids gen e'"
    "same_setup e e'" "be_boards e' = be_boards e"
proof -
  have dist: "distinct (roster e)" by (rule engine_wfD(6) [OF wf])
  have flt: "filter (\<lambda>m. m \<noteq> u) (be_displaced_members e) = remove1 u (be_displaced_members e)"
    using distinct_remove1_removeAll [OF roster_disjoint(1) [OF wf], of u] by (simp add: removeAll_filter_not_eq eq_commute)
  show roster: "add_mset u (mset (roster e')) = mset (roster e)" using u by (simp add: roster_def e' flt)
  show "fresh_ids gen e \<Longrightarrow> fresh_ids gen e'" "same_setup e e'" "be_boards e' = be_boards e" by (simp_all add: e' fresh_ids_def same_setup_def)
  have "part_size e' = part_size e" by (simp add: e' part_size_def)
  then show "budget e' \<le> budget e" by (simp add: budget_def e' flt length_remove1)
  have "distinct (roster e')" using mset_eq_imp_distinct_iff [of "u # roster e'" "roster e"] roster dist by simp
  moreover have "sized e'" using engine_wfD(1) [OF wf] by (simp add: e' sized_def)
  ultimately show "engine_wf e'" using wf by (simp add: engine_wf_def e')
qed

definition departed :: "(u64 \<Rightarrow> uuid) \<Rightarrow> uuid \<Rightarrow> 'd board_engine \<Rightarrow> cycle_event list \<Rightarrow> cycle_event list \<Rightarrow> 'd board_engine \<Rightarrow> bool" where
  "departed gen u e evs evs' e' \<longleftrightarrow> good gen e' \<and> add_mset u (mset (roster e')) = mset (roster e) \<and> budget e' \<le> budget e \<and>
     same_setup e e' \<and> (has_opening e \<longrightarrow> has_opening e') \<and> (\<exists>more. evs' = evs @ more \<and> (\<forall>ev \<in> set more. event_ok e ev))"

lemma close_gap_ok:
  assumes c: "cascaded gen e evs evs' e1" and u: "u \<in> set (roster e)"
  shows "runs (sbind (sgets (\<lambda>e. Ok (hm_get (be_member_boards e) u))) (close_gap u ts evs')) e1
    (\<lambda>r e'. departed gen u e evs (snd r) e')"
proof -
  note ev = evolvesD [OF cascadedD(1) [OF c]]
  have more: "\<exists>more. evs' = evs @ more \<and> (\<forall>x \<in> set more. event_ok e x)" using c by (simp add: cascaded_def)
  have u1: "u \<in> set (roster e1)" using ev(13) u by simp
  show ?thesis
  proof (cases "hm_get (be_member_boards e1) u")
    case None
    then have d: "u \<in> set (be_displaced_members e1)" using in_roster [OF ev(2)] u1 by simp
    let ?e = "e1\<lparr>be_displaced_members := filter (\<lambda>m. m \<noteq> u) (be_displaced_members e1)\<rparr>"
    note dd = drop_displaced_ok [OF ev(2) d refl]
    have "has_opening e1 \<Longrightarrow> has_opening ?e" by (simp add: has_opening_def)
    then have "departed gen u e evs evs' ?e"
      unfolding departed_def using dd(1-3,5) dd(4) [where gen = gen] ev(1,4,5,7) more same_setup_trans [OF ev(6) dd(5)] by auto
    then show ?thesis by (simp add: run_rules close_gap_def None)
  next
    case (Some k)
    then obtain b where b: "hm_get (be_boards e1) k = Some b" "u \<in> set (board_members b)" using wf_member [OF ev(2)] by blast
    note us = unseat_ok [OF ev(2) b refl, where ts = ts]
    have d: "departed gen u e evs evs' (unseat k b u ts e1)"
      unfolding departed_def using us(1-3,7) unseat_ok(4) [OF ev(2) b refl, where ts = ts and gen = gen] ev(1,4,5) more same_setup_trans [OF ev(6) us(5)] by auto
    show ?thesis unfolding runs_sbind_sgets_Ok Some by (rule runsI, rule close_gap_seated [OF ev(2) b]) (use d in simp)
  qed
qed

lemma take_member_out_ok:
  assumes e: "good gen e" "budget e < 2 ^ 64" and u: "u \<in> set (roster e)"
  shows "runs (take_member_out gen u ts evs) e (\<lambda>r e'. departed gen u e evs (snd r) e')"
proof -
  let ?full = "case hm_get (be_member_boards e) u of
      Some board_id \<Rightarrow> if board_is_full e board_id then Some board_id else None | None \<Rightarrow> None"
  have first: "runs (case ?full of Some board_id \<Rightarrow> process_cycles gen ts board_id 0 evs | None \<Rightarrow> sret evs) e (cascaded gen e evs)"
  proof (cases ?full)
    case None
    then show ?thesis using cascaded_refl [OF e(1)] by (simp add: runs_sret)
  next
    case (Some k)
    have "runs (process_cycles gen ts k 0 evs) e (cascaded gen e evs)"
      by (rule runs_mono [OF process_cycles_ok [OF e]]) (simp add: cycles_done_def)
    with Some show ?thesis by simp
  qed
  have eq: "close_gap u ts evs = (\<lambda>found. case found of
         None \<Rightarrow> sbind (smodify (\<lambda>e. e\<lparr>be_displaced_members := filter (\<lambda>m. m \<noteq> u) (be_displaced_members e)\<rparr>)) (\<lambda>_.
           sret ([], evs))
       | Some board_id \<Rightarrow>
           sbind (sgets (\<lambda>e. ok_or (hm_get (be_boards e) board_id) (BoardNotFound board_id))) (\<lambda>b.
           sbind (smodify (\<lambda>e. e\<lparr>be_boards := hm_insert board_id
             (b\<lparr>bd_positions := (case position (\<lambda>p. p = Some u) (bd_positions b) of
                   Some pos \<Rightarrow> (bd_positions b)[pos := None] | None \<Rightarrow> bd_positions b),
                bd_last_activity_at := ts\<rparr>) (be_boards e)\<rparr>)) (\<lambda>_.
           sbind (smodify (\<lambda>e. e\<lparr>be_member_boards := hm_remove u (be_member_boards e)\<rparr>)) (\<lambda>_.
           sbind (compact_board board_id) (\<lambda>compacted.
           sret (compacted, evs))))))" for evs
    by (rule ext) (simp add: close_gap_def)
  show ?thesis
    unfolding take_member_out_def eq [symmetric] runs_sbind_sgets_Ok
    by (rule runs_sbindI [OF first]) (rule close_gap_ok [OF _ u])
qed

lemma cascaded_departed:
  assumes c: "cascaded gen e evs evs' e'" and d: "departed gen u e' evs' evs'' e''"
  shows "departed gen u e evs evs'' e''"
proof -
  note ev = evolvesD [OF cascadedD(1) [OF c]]
  obtain more where "evs' = evs @ more" "\<forall>x \<in> set more. event_ok e x" using c by (auto simp: cascaded_def)
  moreover obtain more' where "evs'' = evs' @ more'" "\<forall>x \<in> set more'. event_ok e' x" using d by (auto simp: departed_def)
  ultimately have "evs'' = evs @ (more @ more') \<and> (\<forall>x \<in> set (more @ more'). event_ok e x)"
    using event_ok_evolves [OF cascadedD(1) [OF c]] by auto
  moreover have "same_setup e e''" using d same_setup_trans [OF ev(6)] by (simp add: departed_def)
  ultimately show ?thesis using d ev(4,5,7) unfolding departed_def by auto
qed

lemma remove_member_ok:
  assumes e: "good gen e" "budget e < 2 ^ 64"
  shows "u \<notin> set (roster e) \<Longrightarrow> remove_member gen u ts e = (Err (MemberNotFound u), e)"
    "u \<in> set (roster e) \<Longrightarrow> runs (remove_member gen u ts) e (\<lambda>r e'. departed gen u e [] (rm_cycle_events r) e')"
proof -
  have wf: "engine_wf e" using e(1) by simp
  show "u \<notin> set (roster e) \<Longrightarrow> remove_member gen u ts e = (Err (MemberNotFound u), e)"
    by (simp add: remove_member_def outcome_simps in_roster [OF wf])
  assume u: "u \<in> set (roster e)"
  have "runs (sbind (drain_full_boards gen ts []) (\<lambda>events. sbind (take_member_out gen u ts events) (\<lambda>(compacted, events).
      sret \<lparr>rm_compacted = compacted, rm_cycle_events = events\<rparr>))) e (\<lambda>r e'. departed gen u e [] (rm_cycle_events r) e')"
  proof (rule runs_sbindI [OF drain_ok [OF e]])
    fix evs1 e1 assume "cascaded gen e [] evs1 e1 \<and> (0 < bc_max_cascade_depth (be_config e) \<and> be_boards e \<noteq> [] \<longrightarrow> has_opening e1)"
    then have c: "cascaded gen e [] evs1 e1" ..
    note ev = evolvesD [OF cascadedD(1) [OF c]]
    show "runs (sbind (take_member_out gen u ts evs1) (\<lambda>(compacted, events). sret \<lparr>rm_compacted = compacted, rm_cycle_events = events\<rparr>)) e1
        (\<lambda>r e'. departed gen u e [] (rm_cycle_events r) e')"
    proof (rule runs_sbindI [OF take_member_out_ok [OF ev(1)]])
      show "budget e1 < 2 ^ 64" using ev(5) e(2) by simp
      show "u \<in> set (roster e1)" using ev(13) u by simp
      fix x :: "uuid list \<times> cycle_event list" and e2 assume "departed gen u e1 evs1 (snd x) e2"
      then have "departed gen u e [] (snd x) e2" by (rule cascaded_departed [OF c])
      then show "runs (case x of (compacted, events) \<Rightarrow> sret \<lparr>rm_compacted = compacted, rm_cycle_events = events\<rparr>) e2
        (\<lambda>r e'. departed gen u e [] (rm_cycle_events r) e')" by (cases x) (simp add: runs_sret)
    qed
  qed
  then show "runs (remove_member gen u ts) e (\<lambda>r e'. departed gen u e [] (rm_cycle_events r) e')"
    using u in_roster [OF wf, of u] by (auto simp: remove_member_def run_rules)
qed

section \<open>Dissolving a board\<close>

definition dissolved :: "uuid \<Rightarrow> board \<Rightarrow> 'd board_engine \<Rightarrow> 'd board_engine" where
  "dissolved k b e = e\<lparr>be_boards := hm_remove k (be_boards e), be_member_boards := fold hm_remove (board_members b) (be_member_boards e),
     be_displaced_members := be_displaced_members e @ board_members b\<rparr>"

lemma hm_get_fold_remove: "hm_get (fold hm_remove us m) u = (if u \<in> set us then None else hm_get m u)"
  by (induction us arbitrary: m) auto

lemma hm_ok_fold_remove: "hm_ok m \<Longrightarrow> hm_ok (fold hm_remove us m)"
  by (induction us arbitrary: m) auto

lemma displace_all:
  "sfor (\<lambda>m. smodify (\<lambda>e. displace m (e\<lparr>be_member_boards := hm_remove m (be_member_boards e)\<rparr>))) us e =
    (Ok (), e\<lparr>be_member_boards := fold hm_remove us (be_member_boards e), be_displaced_members := be_displaced_members e @ us\<rparr>)"
  unfolding sfor_smodify by (induction us arbitrary: e) (simp_all add: displace_def)

lemma dissolved_ok:
  assumes wf: "engine_wf e" and b: "hm_get (be_boards e) k = Some b" and e': "e' = dissolved k b e"
  shows "engine_wf e'" "mset (roster e') = mset (roster e)" "budget e' \<le> budget e + 2 * part_size e" "fresh_ids gen e \<Longrightarrow> fresh_ids gen e'"
    "same_setup e e'"
proof -
  have ok: "hm_ok (be_boards e)" by (rule engine_wfD(2) [OF wf])
  show roster: "mset (roster e') = mset (roster e)" by (simp add: roster_def e' dissolved_def seated_split [OF ok b])
  show "fresh_ids gen e \<Longrightarrow> fresh_ids gen e'" "same_setup e e'" by (auto simp: e' dissolved_def fresh_ids_def same_setup_def)
  have "part_size e' = part_size e" by (simp add: e' dissolved_def part_size_def)
  then show "budget e' \<le> budget e + 2 * part_size e"
    by (simp add: budget_def e' dissolved_def excess_split [OF ok b])
  have "distinct (roster e')" using mset_eq_imp_distinct_iff [OF roster] engine_wfD(6) [OF wf] by simp
  moreover have "sized e'" using engine_wfD(1) [OF wf] by (simp add: e' dissolved_def sized_def)
  moreover have "distinct (map (bd_seq \<circ> snd) (hm_remove k (be_boards e)))"
    using engine_wfD(5) [OF wf] by (simp add: hm_remove_def AList.delete_eq distinct_map_filter)
  moreover have "indexed (be_member_boards e') (be_boards e')"
  proof (rule indexedI)
    show "hm_ok (be_boards e')" using ok by (simp add: e' dissolved_def)
    fix u j
    show "hm_get (be_member_boards e') u = Some j" if "hm_get (be_boards e') j = Some c" "u \<in> set (board_members c)" for c
    proof -
      have at: "hm_get (be_member_boards e) u = Some j" "j \<noteq> k"
        using that wf_member [OF wf, of u j] by (auto simp: e' dissolved_def split: if_splits)
      then have "u \<notin> set (board_members b)" using wf_member [OF wf, of u k] b by auto
      with at show ?thesis by (simp add: e' dissolved_def hm_get_fold_remove)
    qed
    show "\<exists>c. hm_get (be_boards e') j = Some c \<and> u \<in> set (board_members c)" if "hm_get (be_member_boards e') u = Some j"
      using that wf_member [OF wf, of u j] b by (auto simp: e' dissolved_def hm_get_fold_remove split: if_splits)
  qed
  ultimately show "engine_wf e'"
    using engine_wfD(2,3) [OF wf] engine_wfD(4) [OF wf] set_hm_remove [of k "be_boards e"]
    by (auto simp: engine_wf_def e' dissolved_def hm_ok_fold_remove)
qed

lemma dissolve_run:
  assumes wf: "engine_wf e" and b: "hm_get (be_boards e) k = Some b" "\<not> is_full b"
  shows "dissolve_board gen k ts e = sbind (drain_full_boards gen ts []) (\<lambda>events.
    sret \<lparr>dr_dissolved_board_id = k, dr_displaced_members = board_members b, dr_cycle_events = events\<rparr>) (dissolved k b e)"
  using b by (simp add: dissolve_board_def outcome_simps Let_def sbind_def [of "sfor _ _"] displace_all dissolved_def)

lemma dissolve_board_ok:
  assumes e: "good gen e" "budget e + 2 * part_size e < 2 ^ 64"
  shows "hm_get (be_boards e) k = None \<Longrightarrow> dissolve_board gen k ts e = (Err (BoardNotFound k), e)"
    "hm_get (be_boards e) k = Some b \<Longrightarrow> is_full b \<Longrightarrow>
      dissolve_board gen k ts e = (Err (BoardFull k (be_total_positions e) (be_total_positions e)), e)"
    "hm_get (be_boards e) k = Some b \<Longrightarrow> \<not> is_full b \<Longrightarrow> runs (dissolve_board gen k ts) e (\<lambda>r e'.
      dr_dissolved_board_id r = k \<and> dr_displaced_members r = board_members b \<and>
      cascaded gen (dissolved k b e) [] (dr_cycle_events r) e')"
proof -
  have wf: "engine_wf e" using e(1) by simp
  show "hm_get (be_boards e) k = None \<Longrightarrow> dissolve_board gen k ts e = (Err (BoardNotFound k), e)"
    by (simp add: dissolve_board_def outcome_simps)
  show "dissolve_board gen k ts e = (Err (BoardFull k (be_total_positions e) (be_total_positions e)), e)"
    if b: "hm_get (be_boards e) k = Some b" "is_full b"
  proof -
    have c: "compact (be_total_positions e) b" by (rule wf_board(2) [OF wf b(1)])
    show ?thesis using b compact_is_full [OF c] by (simp add: dissolve_board_def outcome_simps compact_filled [OF c] compact_length [OF c])
  qed
  assume b: "hm_get (be_boards e) k = Some b" "\<not> is_full b"
  note d = dissolved_ok [OF wf b(1) refl]
  have good': "good gen (dissolved k b e)" using d(1) d(4) e(1) by blast
  have "runs (sbind (drain_full_boards gen ts []) (\<lambda>events.
      sret \<lparr>dr_dissolved_board_id = k, dr_displaced_members = board_members b, dr_cycle_events = events\<rparr>)) (dissolved k b e)
      (\<lambda>r e'. dr_dissolved_board_id r = k \<and> dr_displaced_members r = board_members b \<and> cascaded gen (dissolved k b e) [] (dr_cycle_events r) e')"
    by (rule runs_sbindI [OF drain_ok [OF good']]) (use d(3) e(2) in \<open>auto simp: runs_sret\<close>)
  then show "runs (dissolve_board gen k ts) e (\<lambda>r e'.
      dr_dissolved_board_id r = k \<and> dr_displaced_members r = board_members b \<and> cascaded gen (dissolved k b e) [] (dr_cycle_events r) e')"
    by (simp add: runs_def dissolve_run [OF wf b])
qed

section \<open>Compressing inactive members\<close>

lemma dedup_first_snoc: "dedup_first (xs @ [x]) = (if x \<in> set xs then dedup_first xs else dedup_first xs @ [x])"
  by (simp add: dedup_first_def)

definition compressed_out ::
  "(u64 \<Rightarrow> uuid) \<Rightarrow> 'd board_engine \<Rightarrow> (uuid \<times> uuid) list \<Rightarrow> compressed_member list \<times> cycle_event list \<Rightarrow> 'd board_engine \<Rightarrow> bool" where
  "compressed_out gen e ms r e' \<longleftrightarrow> good gen e' \<and> mset (roster e') = filter_mset (\<lambda>u. u \<notin> fst ` set ms) (mset (roster e)) \<and>
     budget e' \<le> budget e \<and> same_setup e e' \<and>
     fst r = map (\<lambda>(m, k). \<lparr>cm_user_id = m, cm_board_id = k\<rparr>) (dedup_first ms) \<and> (\<forall>ev \<in> set (snd r). event_ok e ev)"

lemma compressed_start:
  assumes "cascaded gen e [] evs e'"
  shows "compressed_out gen e [] ([], evs) e'"
  using assms evolvesD(1,4,5,6) [OF cascadedD(1) [OF assms]] by (auto simp: compressed_out_def cascaded_def dedup_first_def)

lemma compressed_step:
  assumes out: "compressed_out gen e ms (cs, evs) e'" and m: "m \<notin> fst ` set ms"
    and d: "departed gen m e' evs evs' e''"
  shows "compressed_out gen e (ms @ [(m, k)]) (cs @ [\<lparr>cm_user_id = m, cm_board_id = k\<rparr>], evs') e''"
proof -
  from out have e': "mset (roster e') = filter_mset (\<lambda>u. u \<notin> fst ` set ms) (mset (roster e))" "budget e' \<le> budget e" "same_setup e e'"
    "cs = map (\<lambda>(m, k). \<lparr>cm_user_id = m, cm_board_id = k\<rparr>) (dedup_first ms)" "\<forall>ev \<in> set evs. event_ok e ev"
    by (simp_all add: compressed_out_def)
  from d have e'': "good gen e''" "add_mset m (mset (roster e'')) = mset (roster e')" "budget e'' \<le> budget e'" "same_setup e' e''"
    "\<exists>more. evs' = evs @ more \<and> (\<forall>ev \<in> set more. event_ok e' ev)" by (auto simp: departed_def)
  have "distinct (roster e')" using out engine_wfD(6) by (auto simp: compressed_out_def)
  then have "m \<notin> set (roster e'')"
    using mset_eq_imp_distinct_iff [of "m # roster e''" "roster e'"] e''(2) by simp
  then have "filter (\<lambda>u. u \<noteq> m) (roster e'') = roster e''" by (intro filter_True) auto
  then have "mset (roster e'') = filter_mset (\<lambda>u. u \<noteq> m) (add_mset m (mset (roster e'')))"
    by (simp flip: mset_filter)
  also have "\<dots> = filter_mset (\<lambda>u. u \<notin> fst ` set (ms @ [(m, k)])) (mset (roster e))"
    unfolding e''(2) e'(1) filter_filter_mset by (rule filter_mset_cong) auto
  finally have roster: "mset (roster e'') = filter_mset (\<lambda>u. u \<notin> fst ` set (ms @ [(m, k)])) (mset (roster e))" .
  have "set (roster e') \<subseteq> set (roster e)" using arg_cong [OF e'(1), of set_mset] by auto
  moreover have "same_setup e' e" using e'(3) by (simp add: same_setup_def)
  ultimately have "\<forall>ev \<in> set evs'. event_ok e ev" using e''(5) e'(5) by (auto intro: event_ok_mono)
  moreover have "(m, k) \<notin> set ms" using m by force
  ultimately show ?thesis
    unfolding compressed_out_def using e''(1,3) roster e'(2,4) same_setup_trans [OF e'(3) e''(4)] by (simp add: dedup_first_snoc)
qed

lemma compress_one_ok:
  assumes out: "compressed_out gen e ms (cs, evs) e'" and fits: "budget e < 2 ^ 64" and m: "m \<in> set (roster e)"
    and k: "\<forall>(u, j) \<in> set ms. u = m \<longrightarrow> j = k"
  shows "runs (compress_one gen ts (m, k) (cs, evs)) e' (compressed_out gen e (ms @ [(m, k)]))"
proof -
  have good': "good gen e'" and roster: "mset (roster e') = filter_mset (\<lambda>u. u \<notin> fst ` set ms) (mset (roster e))" and b: "budget e' \<le> budget e"
    using out by (simp_all add: compressed_out_def)
  have wf': "engine_wf e'" using good' by simp
  have "set (roster e') = {u \<in> set (roster e). u \<notin> fst ` set ms}" using arg_cong [OF roster, of set_mset] by simp
  then have on: "m \<in> set (roster e') \<longleftrightarrow> m \<notin> fst ` set ms" using m by simp
  show ?thesis
  proof (cases "m \<in> fst ` set ms")
    case True
    then have "(m, k) \<in> set ms" using k by force
    then have "compressed_out gen e (ms @ [(m, k)]) (cs, evs) e'"
      using out True by (auto simp: compressed_out_def dedup_first_snoc insert_absorb)
    moreover have "hm_get (be_member_boards e') m = None \<and> m \<notin> set (be_displaced_members e')"
      using True on in_roster [OF wf', of m] by auto
    ultimately show ?thesis by (simp add: compress_one_def run_rules)
  next
    case False
    then have m': "m \<in> set (roster e')" using on by simp
    have "runs (sbind (take_member_out gen m ts evs) (\<lambda>(_, events).
        sret (cs @ [\<lparr>cm_user_id = m, cm_board_id = k\<rparr>], events))) e' (compressed_out gen e (ms @ [(m, k)]))"
    proof (rule runs_sbindI [OF take_member_out_ok [OF good' _ m']])
      show "budget e' < 2 ^ 64" using b fits by simp
      fix r :: "uuid list \<times> cycle_event list" and e'' assume "departed gen m e' evs (snd r) e''"
      from compressed_step [OF out False this]
      show "runs (case r of (_, events) \<Rightarrow> sret (cs @ [\<lparr>cm_user_id = m, cm_board_id = k\<rparr>], events)) e'' (compressed_out gen e (ms @ [(m, k)]))"
        by (cases r) (simp add: runs_sret)
    qed
    moreover have "\<not> (hm_get (be_member_boards e') m = None \<and> m \<notin> set (be_displaced_members e'))"
      using m' in_roster [OF wf', of m] by auto
    ultimately show ?thesis by (auto simp: compress_one_def run_rules)
  qed
qed

definition seats_of :: "'d board_engine \<Rightarrow> uuid list \<Rightarrow> (uuid \<times> uuid) list" where
  "seats_of e us = List.map_filter (\<lambda>m. map_option (Pair m) (hm_get (be_member_boards e) m)) us"

lemma seats_of_set: "(m, k) \<in> set (seats_of e us) \<longleftrightarrow> m \<in> set us \<and> hm_get (be_member_boards e) m = Some k"
  by (auto simp: seats_of_def List.map_filter_def image_iff)

lemma compress_inactive_ok:
  assumes e: "good gen e" "budget e < 2 ^ 64"
  shows "runs (compress_inactive gen us ts) e (\<lambda>r e'. compressed_out gen e (seats_of e us) (cr_compressed r, cr_cycle_events r) e')"
proof -
  have wf: "engine_wf e" using e(1) by simp
  have "runs (sfold (compress_one gen ts) (seats_of e us) ([], evs)) e1 (compressed_out gen e (seats_of e us))"
    if c: "cascaded gen e [] evs e1" for evs e1
  proof (rule runs_sfold [where P = "compressed_out gen e"])
    show "compressed_out gen e [] ([], evs) e1" by (rule compressed_start [OF c])
    fix ys y zs acc e' assume split: "seats_of e us = ys @ y # zs" and out: "compressed_out gen e ys acc e'"
    obtain m k cs evs' where y: "y = (m, k)" and acc: "acc = (cs, evs')" by (cases y; cases acc) auto
    have seats: "hm_get (be_member_boards e) u = Some j" if "(u, j) \<in> set (ys @ y # zs)" for u j
      using that seats_of_set [of u j e us] split by simp
    then have "hm_get (be_member_boards e) m = Some k" by (simp add: y)
    then show "runs (compress_one gen ts y acc) e' (compressed_out gen e (ys @ [y]))"
      unfolding y acc using seats in_roster [OF wf, of m]
      by (intro compress_one_ok [OF out [unfolded acc] e(2)]) (auto, metis Un_iff option.inject set_append)
  qed
  then have "runs (sbind (drain_full_boards gen ts []) (\<lambda>events. sbind (sfold (compress_one gen ts) (seats_of e us) ([], events)) (\<lambda>(compressed, events).
      sret \<lparr>cr_compressed = compressed, cr_cycle_events = events\<rparr>))) e (\<lambda>r e'. compressed_out gen e (seats_of e us) (cr_compressed r, cr_cycle_events r) e')"
    by (intro runs_sbindI [OF drain_ok [OF e]]) (auto intro!: runs_sbindI simp: runs_sret)
  then show ?thesis by (simp add: compress_inactive_def runs_sbind_sgets_Ok seats_of_def)
qed

end
