(* ===== verification/Board_Validate.thy ===== *)
theory Board_Validate
  imports Board_Plan
begin

text \<open>
  \<open>BoardPlanEngine::validate_restored\<close>, which a restored engine must pass before anything uses it.
  The walks run in the order of the source; each holds the lowest offender, so that the verdict does
  not depend on the iteration order of the hash maps.
\<close>

section \<open>The walks\<close>

text \<open>\<open>MAX_RESTORED_BOARD_SEQ = u64::MAX / 2\<close>\<close>

definition MAX_RESTORED_BOARD_SEQ :: u64 where
  "MAX_RESTORED_BOARD_SEQ = 2 ^ 63 - 1"

definition check_dimensions :: "'d board_engine \<Rightarrow> (snapshot_error, unit) result" where
  "check_dimensions e =
     (if \<not> (2 \<le> be_width e \<and> be_width e \<le> 5) \<or> \<not> (1 \<le> be_height e \<and> be_height e \<le> 4)
      then Err (BoardDimensionsOutOfRange (be_width e) (be_height e))
      else (let expected = total_positions (be_width e) (be_height e) in
        if be_total_positions e \<noteq> expected
        then Err (BoardTotalPositionsMismatch (be_total_positions e) (be_width e) (be_height e) expected)
        else Ok ()))"

definition key_fault :: "uuid \<times> board \<Rightarrow> snapshot_error option" where
  "key_fault kb = (case kb of (key, b) \<Rightarrow> if key \<noteq> bd_id b then Some (BoardIdMismatch key (bd_id b)) else None)"

text \<open>
  What the walk over the boards records: the lowest board of the wrong size, the pairs of a board
  and an occupant, a seat per occupant, and the lowest occupant met twice with the board where.
\<close>

type_synonym board_census =
  "(uuid \<times> snapshot_error) option \<times> (uuid \<times> uuid) set \<times> (uuid, uuid) hmap \<times> (uuid \<times> uuid) option"

definition note_occupant :: "uuid \<Rightarrow> uuid \<Rightarrow> board_census \<Rightarrow> board_census" where
  "note_occupant board_id occupant c = (case c of (sizing, placed, seats, duplicate) \<Rightarrow>
     (sizing, insert (board_id, occupant) placed, hm_insert occupant board_id seats,
      if hm_get seats occupant \<noteq> None \<and> (case duplicate of None \<Rightarrow> True | Some (held, _) \<Rightarrow> occupant < held)
      then Some (occupant, board_id) else duplicate))"

definition note_board :: "nat \<Rightarrow> uuid \<times> board \<Rightarrow> board_census \<Rightarrow> board_census" where
  "note_board positions kb c = (case kb of (board_id, b) \<Rightarrow> case c of (sizing, placed, seats, duplicate) \<Rightarrow>
     if length (bd_positions b) \<noteq> positions
     then (keep_lowest board_id (Some (BoardPositionCountMismatch board_id (length (bd_positions b)) positions)) sizing,
       placed, seats, duplicate)
     else fold (note_occupant board_id) (occupied (bd_positions b)) c)"

definition board_census :: "'d board_engine \<Rightarrow> board_census" where
  "board_census e = fold (note_board (be_total_positions e)) (be_boards e) (None, {}, [], None)"

definition duplicate_fault :: "(uuid, board) hmap \<Rightarrow> uuid \<times> uuid \<Rightarrow> snapshot_error" where
  "duplicate_fault boards d = (case d of (user, seen_on) \<Rightarrow>
     let held = sort (map fst (filter (\<lambda>(_, b). user \<in> set (occupied (bd_positions b))) boards)) in
     (case (get_at held 0, get_at held 1) of
        (Some first_board, Some second_board) \<Rightarrow> MemberOnTwoBoards user first_board second_board
      | _ \<Rightarrow> MemberSeatedTwiceOnBoard user seen_on))"

definition member_fault :: "'d board_engine \<Rightarrow> (uuid \<times> uuid) set \<Rightarrow> uuid \<times> uuid \<Rightarrow> snapshot_error option" where
  "member_fault e placed ub = (case ub of (user, board_id) \<Rightarrow>
     if \<not> hm_contains (be_boards e) board_id then Some (BoardAbsent user board_id)
     else if (board_id, user) \<notin> placed then Some (MemberNotOnBoard user board_id)
     else None)"

definition seat_fault :: "'d board_engine \<Rightarrow> uuid \<times> uuid \<Rightarrow> snapshot_error option" where
  "seat_fault e ub = (case ub of (user, board_id) \<Rightarrow>
     if hm_get (be_member_boards e) user \<noteq> Some board_id then Some (OccupantNotIndexed user board_id) else None)"

fun check_displaced :: "'d board_engine \<Rightarrow> uuid set \<Rightarrow> uuid list \<Rightarrow> (snapshot_error, unit) result" where
  "check_displaced e listed [] = Ok ()"
| "check_displaced e listed (u # us) = (if u \<in> listed then Err (MemberDisplacedTwice u)
     else (case hm_get (be_member_boards e) u of
         Some board_id \<Rightarrow> Err (MemberDisplacedAndSeated u board_id)
       | None \<Rightarrow> check_displaced e (insert u listed) us))"

definition gap_fault :: "uuid \<times> board \<Rightarrow> snapshot_error option" where
  "gap_fault kb = (case kb of (board_id, b) \<Rightarrow> (case first_open_position b of None \<Rightarrow> None
     | Some open_pos \<Rightarrow> (case position (\<lambda>p. p \<noteq> None) (drop open_pos (bd_positions b)) of None \<Rightarrow> None
         | Some offset \<Rightarrow> Some (BoardOccupantAboveOpening board_id open_pos (open_pos + offset)))))"

definition seq_fault :: "u64 \<Rightarrow> uuid \<times> board \<Rightarrow> snapshot_error option" where
  "seq_fault next_seq kb = (case kb of (board_id, b) \<Rightarrow>
     if next_seq \<le> bd_seq b then Some (BoardSeqNotBelowCounter board_id (bd_seq b) next_seq) else None)"

text \<open>\<open>holders\<close>: a \<open>BTreeMap\<close> from sequence numbers to the boards that carry them.\<close>

definition seq_holders :: "(uuid, board) hmap \<Rightarrow> (u64, uuid list) hmap" where
  "seq_holders boards = fold (\<lambda>(board_id, b) m. hm_insert (bd_seq b)
     ((case hm_get m (bd_seq b) of Some held \<Rightarrow> held | None \<Rightarrow> []) @ [board_id]) m) boards []"

definition check_seq_repeats :: "(uuid, board) hmap \<Rightarrow> (snapshot_error, unit) result" where
  "check_seq_repeats boards =
     (case find (\<lambda>(_, held). 1 < length held) (sort_key fst (seq_holders boards)) of None \<Rightarrow> Ok ()
      | Some (seq, held) \<Rightarrow> let held = sort held in
          bnd (index_at held 0) (\<lambda>first_board. bnd (index_at held 1) (\<lambda>second_board.
            Err (BoardSeqRepeated seq first_board second_board))))"

definition engine_validate_restored :: "'d board_engine \<Rightarrow> (snapshot_error, unit) result" where
  "engine_validate_restored e = bnd (check_dimensions e) (\<lambda>_.
     bnd (raise_fault (lowest_fault fst key_fault (be_boards e))) (\<lambda>_.
     case board_census e of (sizing, placed, seats, duplicate) \<Rightarrow>
     bnd (raise_fault sizing) (\<lambda>_.
     bnd (case duplicate of Some d \<Rightarrow> Err (duplicate_fault (be_boards e) d) | None \<Rightarrow> Ok ()) (\<lambda>_.
     bnd (raise_fault (lowest_fault fst (member_fault e placed) (be_member_boards e))) (\<lambda>_.
     bnd (raise_fault (lowest_fault fst (seat_fault e) seats)) (\<lambda>_.
     bnd (check_displaced e {} (be_displaced_members e)) (\<lambda>_.
     bnd (raise_fault (lowest_fault fst gap_fault (be_boards e))) (\<lambda>_.
     if MAX_RESTORED_BOARD_SEQ < be_next_board_seq e then Err (BoardSeqCounterExhausted (be_next_board_seq e))
     else bnd (raise_fault (lowest_fault fst (seq_fault (be_next_board_seq e)) (be_boards e))) (\<lambda>_.
     check_seq_repeats (be_boards e))))))))))"

end
