(* ===== verification/Board_Exact.thy ===== *)
theory Board_Exact
  imports Board_Validate Board_Wf
begin

text \<open>
  The validator of a restored engine accepts exactly the engines that satisfy the invariant and whose
  counter is not exhausted, and comes to a verdict on every engine.
\<close>

section \<open>Gaps\<close>

lemma all_Some: "\<forall>p \<in> set ps. p \<noteq> None \<Longrightarrow> ps = map Some (occupied ps)"
  by (induction ps rule: occupied.induct) auto

lemma all_None: "\<forall>p \<in> set ps. p = None \<Longrightarrow> ps = replicate (length ps) None"
  by (induction ps) auto

lemma gap_fault_None:
  "gap_fault (k, b) = None \<longleftrightarrow> compact (length (bd_positions b)) b"
proof
  let ?ps = "bd_positions b"
  assume gap: "gap_fault (k, b) = None"
  show "compact (length ?ps) b"
  proof (cases "position (\<lambda>p. p = None) ?ps")
    case None
    then have "?ps = map Some (occupied ?ps)" by (intro all_Some) (simp add: position_None_iff)
    then show ?thesis by (intro compactI [where ms = "occupied ?ps"]) (metis append_Nil2 diff_self_eq_0 length_map replicate_0, metis length_map order_refl)
  next
    case (Some i)
    then have i: "i < length ?ps" "\<forall>j < i. ?ps ! j \<noteq> None" by (auto simp: position_Some_iff)
    have "\<forall>p \<in> set (take i ?ps). p \<noteq> None" using i by (auto simp: in_set_conv_nth)
    then have front: "take i ?ps = map Some (occupied (take i ?ps))" by (rule all_Some)
    have "position (\<lambda>p. p \<noteq> None) (drop i ?ps) = None"
      using gap Some by (simp add: gap_fault_def first_open_position_def split: option.splits)
    then have rear: "drop i ?ps = replicate (length (drop i ?ps)) None" by (intro all_None) (simp add: position_None_iff)
    have len: "length (occupied (take i ?ps)) = i" using front i(1) by (metis length_map length_take min.absorb4)
    have "?ps = map Some (occupied (take i ?ps)) @ replicate (length ?ps - length (occupied (take i ?ps))) None"
      using front rear by (metis append_take_drop_id len length_drop)
    then show ?thesis by (rule compactI) (use len i(1) in simp)
  qed
next
  let ?ms = "board_members b" and ?n = "length (bd_positions b)"
  assume c: "compact ?n b"
  then have ps: "bd_positions b = map Some ?ms @ replicate (?n - length ?ms) None" by (simp add: compact_def)
  have "position (\<lambda>p. p \<noteq> None) (drop (length ?ms) (bd_positions b)) = None"
    by (subst ps) (simp add: position_None_iff)
  then show "gap_fault (k, b) = None"
    using compact_first_open [OF c] by (simp add: gap_fault_def)
qed

section \<open>Sequence numbers\<close>

lemma distinct_counts: "distinct (map f xs) \<longleftrightarrow> (\<forall>y. length (filter (\<lambda>x. f x = y) xs) \<le> 1)"
proof (induction xs)
  case (Cons x xs)
  have other: "length (filter (\<lambda>z. f z = y) (x # xs)) = (if y = f x then 1 else 0) + length (filter (\<lambda>z. f z = y) xs)" for y by simp
  have "f x \<notin> set (map f xs) \<longleftrightarrow> length (filter (\<lambda>z. f z = f x) xs) = 0"
    unfolding length_0_conv filter_empty_conv set_map by (metis imageE imageI)
  moreover have "(\<forall>y. length (filter (\<lambda>z. f z = y) (x # xs)) \<le> 1) \<longleftrightarrow>
      length (filter (\<lambda>z. f z = f x) xs) = 0 \<and> (\<forall>y. length (filter (\<lambda>z. f z = y) xs) \<le> 1)" (is "?l \<longleftrightarrow> ?r")
  proof
    assume all: ?l
    have "length (filter (\<lambda>z. f z = y) xs) \<le> 1" for y using all [rule_format, of y] unfolding other by simp
    moreover have "length (filter (\<lambda>z. f z = f x) xs) = 0" using all [rule_format, of "f x"] unfolding other by simp
    ultimately show ?r by blast
  next
    assume r: ?r
    show ?l unfolding other using r by simp
  qed
  ultimately show ?case using Cons by simp
qed simp

lemma holders_get:
  "hm_get (fold (\<lambda>(k, b) m. hm_insert (bd_seq b) ((case hm_get m (bd_seq b) of Some held \<Rightarrow> held | None \<Rightarrow> []) @ [k]) m) bs m) s =
    (let ids = map fst (filter (\<lambda>kb. bd_seq (snd kb) = s) bs) in
      if ids = [] then hm_get m s else Some ((case hm_get m s of Some held \<Rightarrow> held | None \<Rightarrow> []) @ ids))"
proof (induction bs arbitrary: m)
  case (Cons kb bs)
  obtain k b where kb: "kb = (k, b)" by (cases kb)
  show ?case
  proof (cases "bd_seq b = s")
    case True
    then show ?thesis by (simp add: kb Cons Let_def)
  next
    case False
    then show ?thesis by (simp add: kb Cons Let_def)
  qed
qed simp

lemma hm_ok_holders:
  "hm_ok m \<Longrightarrow> hm_ok (fold (\<lambda>(k, b) m. hm_insert (bd_seq b) ((case hm_get m (bd_seq b) of Some held \<Rightarrow> held | None \<Rightarrow> []) @ [k]) m) bs m)"
  by (induction bs arbitrary: m) auto

lemma check_seq_repeats_ok:
  "check_seq_repeats bs = Ok () \<longleftrightarrow> distinct (map (bd_seq \<circ> snd) bs)" "decided (check_seq_repeats bs)"
proof -
  let ?h = "seq_holders bs" and ?P = "\<lambda>(_ :: u64, held :: uuid list). 1 < length held"
  have ok: "hm_ok ?h" unfolding seq_holders_def by (rule hm_ok_holders) simp
  have get: "hm_get ?h s = (let ids = map fst (filter (\<lambda>kb. bd_seq (snd kb) = s) bs) in if ids = [] then None else Some ids)" for s
    unfolding seq_holders_def by (simp add: holders_get Let_def)
  have "find ?P (sort_key fst ?h) = None \<longleftrightarrow> (\<forall>x \<in> set ?h. \<not> ?P x)" unfolding find_None_iff set_sort by blast
  also have "(\<forall>x \<in> set ?h. \<not> ?P x) \<longleftrightarrow> (\<forall>s held. hm_get ?h s = Some held \<longrightarrow> length held \<le> 1)"
    by (simp only: hm_in_get [OF ok, symmetric] not_less [symmetric]) auto
  also have "\<dots> \<longleftrightarrow> distinct (map (bd_seq \<circ> snd) bs)"
  proof -
    have "(\<forall>held. hm_get ?h s = Some held \<longrightarrow> length held \<le> 1) \<longleftrightarrow> length (filter (\<lambda>kb. (bd_seq \<circ> snd) kb = s) bs) \<le> 1" for s
      by (cases "filter (\<lambda>kb. bd_seq (snd kb) = s) bs") (simp_all add: get Let_def)
    then show ?thesis unfolding distinct_counts by blast
  qed
  finally have none: "find ?P (sort_key fst ?h) = None \<longleftrightarrow> distinct (map (bd_seq \<circ> snd) bs)" .
  have some: "\<exists>e. check_seq_repeats bs = Err e" if "find ?P (sort_key fst ?h) = Some x" for x
  proof -
    obtain s held where x: "x = (s, held)" by (cases x)
    with that have "1 < length held" by (auto simp: find_Some_iff)
    then have "0 < length (sort held)" "1 < length (sort held)" by (simp_all only: length_sort)
    then show ?thesis using that x by (simp only: check_seq_repeats_def Let_def index_at_ok) simp
  qed
  show "check_seq_repeats bs = Ok () \<longleftrightarrow> distinct (map (bd_seq \<circ> snd) bs)"
    using none some by (cases "find ?P (sort_key fst ?h)") (auto simp: check_seq_repeats_def)
  show "decided (check_seq_repeats bs)"
    using some by (cases "find ?P (sort_key fst ?h)") (auto simp: check_seq_repeats_def decided_def)
qed

section \<open>The census\<close>

lemma note_fold:
  assumes "hm_ok st"
  shows "\<exists>st' dup'. fold (note_occupant k) us (sz, pl, st, dup) = (sz, pl \<union> Pair k ` set us, st', dup') \<and> hm_ok st' \<and>
    (\<forall>u. hm_get st' u = (if u \<in> set us then Some k else hm_get st u)) \<and>
    (dup' = None \<longleftrightarrow> dup = None \<and> distinct us \<and> (\<forall>u \<in> set us. hm_get st u = None))"
  using assms
proof (induction us arbitrary: pl st dup)
  case (Cons u us)
  let ?dup = "if hm_get st u \<noteq> None \<and> (case dup of None \<Rightarrow> True | Some (held, _) \<Rightarrow> u < held) then Some (u, k) else dup"
  from Cons.IH [of "hm_insert u k st" "insert (k, u) pl" ?dup] Cons.prems obtain st' dup' where
    IH: "fold (note_occupant k) us (sz, insert (k, u) pl, hm_insert u k st, ?dup) = (sz, insert (k, u) pl \<union> Pair k ` set us, st', dup')"
      "hm_ok st'" "\<forall>v. hm_get st' v = (if v \<in> set us then Some k else hm_get (hm_insert u k st) v)"
      "dup' = None \<longleftrightarrow> ?dup = None \<and> distinct us \<and> (\<forall>v \<in> set us. hm_get (hm_insert u k st) v = None)" by auto
  have "?dup = None \<longleftrightarrow> dup = None \<and> hm_get st u = None" by (auto split: option.splits if_splits)
  then have dup: "dup' = None \<longleftrightarrow> dup = None \<and> distinct (u # us) \<and> (\<forall>v \<in> set (u # us). hm_get st v = None)"
    unfolding IH(4) by auto
  have "fold (note_occupant k) (u # us) (sz, pl, st, dup) = (sz, pl \<union> Pair k ` set (u # us), st', dup')"
    using IH(1) by (simp add: note_occupant_def)
  moreover have "\<forall>v. hm_get st' v = (if v \<in> set (u # us) then Some k else hm_get st v)" using IH(3) by simp
  ultimately show ?case using IH(2) dup by blast
qed auto

text \<open>The boards of the wrong size show in the first component, and the rest is a list of seats.\<close>

definition all_seats :: "(uuid, board) hmap \<Rightarrow> (uuid \<times> uuid) set" where
  "all_seats bs = {(k, u). \<exists>b. (k, b) \<in> set bs \<and> u \<in> set (board_members b)}"

lemma census_fold:
  assumes "hm_ok st" "\<forall>kb \<in> set bs. length (bd_positions (snd kb)) = n"
  shows "\<exists>st' dup'. fold (note_board n) bs (sz, pl, st, dup) = (sz, pl \<union> all_seats bs, st', dup') \<and> hm_ok st' \<and>
    (dup' = None \<longleftrightarrow> dup = None \<and> distinct (seated bs) \<and> (\<forall>u \<in> set (seated bs). hm_get st u = None)) \<and>
    (dup' = None \<longrightarrow> (\<forall>u k. hm_get st' u = Some k \<longleftrightarrow> (k, u) \<in> all_seats bs \<or> hm_get st u = Some k))"
  using assms
proof (induction bs arbitrary: pl st dup)
  case (Cons kb bs)
  obtain k b where kb: "kb = (k, b)" by (cases kb)
  let ?us = "board_members b"
  from note_fold [OF Cons.prems(1), where k = k and us = ?us and sz = sz and pl = pl and dup = dup]
  obtain st1 dup1 where one: "fold (note_occupant k) ?us (sz, pl, st, dup) = (sz, pl \<union> Pair k ` set ?us, st1, dup1)" "hm_ok st1"
    "\<forall>u. hm_get st1 u = (if u \<in> set ?us then Some k else hm_get st u)"
    "dup1 = None \<longleftrightarrow> dup = None \<and> distinct ?us \<and> (\<forall>u \<in> set ?us. hm_get st u = None)"
    by (elim exE conjE)
  have step: "note_board n kb (sz, pl, st, dup) = (sz, pl \<union> Pair k ` set ?us, st1, dup1)"
    using Cons.prems(2) one(1) by (simp add: note_board_def kb board_members_def)
  from Cons.IH [OF one(2), of "pl \<union> Pair k ` set ?us" dup1] Cons.prems(2) obtain st' dup' where
    IH: "fold (note_board n) bs (sz, pl \<union> Pair k ` set ?us, st1, dup1) = (sz, pl \<union> Pair k ` set ?us \<union> all_seats bs, st', dup')" "hm_ok st'"
      "dup' = None \<longleftrightarrow> dup1 = None \<and> distinct (seated bs) \<and> (\<forall>u \<in> set (seated bs). hm_get st1 u = None)"
      "dup' = None \<longrightarrow> (\<forall>u k. hm_get st' u = Some k \<longleftrightarrow> (k, u) \<in> all_seats bs \<or> hm_get st1 u = Some k)" by auto
  have seats: "all_seats (kb # bs) = Pair k ` set ?us \<union> all_seats bs" by (auto simp: all_seats_def kb)
  have dup: "dup' = None \<longleftrightarrow> dup = None \<and> distinct (seated (kb # bs)) \<and> (\<forall>u \<in> set (seated (kb # bs)). hm_get st u = None)"
    unfolding IH(3) one(4) using one(3) by (auto simp: kb split: if_splits)
  have "hm_get st' u = Some j \<longleftrightarrow> (j, u) \<in> all_seats (kb # bs) \<or> hm_get st u = Some j" if "dup' = None" for u j
    using that IH(4) one(3) dup unfolding seats by (auto simp: kb)
  with step IH(1,2) dup seats show ?case by (intro exI [of _ st'] exI [of _ dup']) (simp add: Un_assoc)
qed (simp_all add: all_seats_def)

lemma note_occupant_sizing: "fst (note_occupant k u c) = fst c"
  by (cases c) (simp add: note_occupant_def)

lemma census_sizing:
  "fst (fold (note_board n) bs c) = None \<longleftrightarrow> fst c = None \<and> (\<forall>kb \<in> set bs. length (bd_positions (snd kb)) = n)"
proof (induction bs arbitrary: c)
  case (Cons kb bs)
  have "fst (fold (note_occupant k) us c) = fst c" for k us c by (induction us arbitrary: c) (simp_all add: note_occupant_sizing)
  then have "fst (note_board n kb c) = None \<longleftrightarrow> fst c = None \<and> length (bd_positions (snd kb)) = n"
    by (cases kb; cases c) (auto simp: note_board_def keep_lowest_eq_None)
  with Cons show ?case by auto
qed simp

lemma check_displaced_ok:
  "check_displaced e listed us = Ok () \<longleftrightarrow> distinct us \<and> (\<forall>u \<in> set us. u \<notin> listed \<and> hm_get (be_member_boards e) u = None)"
  "decided (check_displaced e listed us)"
  by (induction us arbitrary: listed) (auto split: option.splits)

lemma check_dimensions_ok: "check_dimensions e = Ok () \<longleftrightarrow> sized e" "decided (check_dimensions e)"
  by (auto simp: check_dimensions_def sized_def Let_def)

lemma decided_raise [simp]: "decided (raise_fault h)"
  by (simp add: raise_fault_def split: option.split)

section \<open>The verdict\<close>

lemma validate_decided: "decided (engine_validate_restored e)"
proof -
  obtain sizing placed seats duplicate where "board_census e = (sizing, placed, seats, duplicate)" by (metis prod_cases4)
  then show ?thesis
    unfolding engine_validate_restored_def
    by (auto intro!: decided_bnd simp: check_dimensions_ok check_displaced_ok check_seq_repeats_ok split: option.split)
qed

lemma validate_steps:
  assumes "board_census e = (sizing, placed, seats, duplicate)"
  shows "engine_validate_restored e = Ok () \<longleftrightarrow> sized e \<and> (\<forall>kb \<in> set (be_boards e). key_fault kb = None) \<and> sizing = None \<and> duplicate = None \<and>
    (\<forall>ub \<in> set (be_member_boards e). member_fault e placed ub = None) \<and> (\<forall>ub \<in> set seats. seat_fault e ub = None) \<and>
    distinct (be_displaced_members e) \<and> (\<forall>u \<in> set (be_displaced_members e). hm_get (be_member_boards e) u = None) \<and>
    (\<forall>kb \<in> set (be_boards e). gap_fault kb = None) \<and> be_next_board_seq e \<le> MAX_RESTORED_BOARD_SEQ \<and>
    (\<forall>kb \<in> set (be_boards e). seq_fault (be_next_board_seq e) kb = None) \<and> distinct (map (bd_seq \<circ> snd) (be_boards e))"
  unfolding engine_validate_restored_def assms prod.case
  by (cases duplicate)
    (auto simp: lowest_fault_None check_dimensions_ok check_displaced_ok check_seq_repeats_ok(1) not_less simp del: not_None_eq)

lemma indexed_seats: "indexed mb bs \<longleftrightarrow> (\<forall>u k. hm_get mb u = Some k \<longleftrightarrow> (k, u) \<in> all_seats bs)"
  by (simp add: indexed_def all_seats_def)

lemma member_faults:
  assumes "hm_ok (be_boards e)" "hm_ok (be_member_boards e)"
  shows "(\<forall>ub \<in> set (be_member_boards e). member_fault e (all_seats (be_boards e)) ub = None) \<longleftrightarrow>
    (\<forall>u k. hm_get (be_member_boards e) u = Some k \<longrightarrow> (k, u) \<in> all_seats (be_boards e))"
proof -
  have each: "member_fault e (all_seats (be_boards e)) (u, k) = None \<longleftrightarrow> (k, u) \<in> all_seats (be_boards e)" for u k
    using hm_in_get [OF assms(1), of k] by (auto simp: member_fault_def all_seats_def)
  have "(\<forall>ub \<in> set (be_member_boards e). member_fault e (all_seats (be_boards e)) ub = None) \<longleftrightarrow>
      (\<forall>u k. (u, k) \<in> set (be_member_boards e) \<longrightarrow> member_fault e (all_seats (be_boards e)) (u, k) = None)" by auto
  then show ?thesis by (simp only: hm_in_get [OF assms(2)] each)
qed

lemma seat_faults:
  assumes "hm_ok seats" "\<forall>u k. hm_get seats u = Some k \<longleftrightarrow> (k, u) \<in> all_seats (be_boards e)"
  shows "(\<forall>ub \<in> set seats. seat_fault e ub = None) \<longleftrightarrow>
    (\<forall>u k. (k, u) \<in> all_seats (be_boards e) \<longrightarrow> hm_get (be_member_boards e) u = Some k)"
proof -
  have each: "seat_fault e (u, k) = None \<longleftrightarrow> hm_get (be_member_boards e) u = Some k" for u k by (simp add: seat_fault_def)
  have "(\<forall>ub \<in> set seats. seat_fault e ub = None) \<longleftrightarrow> (\<forall>u k. (u, k) \<in> set seats \<longrightarrow> seat_fault e (u, k) = None)" by auto
  then show ?thesis by (simp only: hm_in_get [OF assms(1)] each assms(2) [rule_format])
qed

lemma validate_exact:
  assumes ok: "hm_ok (be_boards e)" "hm_ok (be_member_boards e)"
  shows "engine_validate_restored e = Ok () \<longleftrightarrow> engine_wf e \<and> be_next_board_seq e \<le> MAX_RESTORED_BOARD_SEQ"
proof -
  let ?bs = "be_boards e" and ?mb = "be_member_boards e" and ?n = "be_total_positions e"
  obtain sizing placed seats duplicate where census: "board_census e = (sizing, placed, seats, duplicate)" by (metis prod_cases4)
  have sizing: "sizing = None \<longleftrightarrow> (\<forall>kb \<in> set ?bs. length (bd_positions (snd kb)) = ?n)"
    using census_sizing [of ?n ?bs "(None, {}, [], None)"] census by (simp add: board_census_def)
  have boards: "sizing = None \<and> (\<forall>kb \<in> set ?bs. key_fault kb = None) \<and> (\<forall>kb \<in> set ?bs. gap_fault kb = None) \<and>
      (\<forall>kb \<in> set ?bs. seq_fault (be_next_board_seq e) kb = None) \<longleftrightarrow> (\<forall>kb \<in> set ?bs. board_ok ?n (be_next_board_seq e) kb)"
  proof -
    have "board_ok ?n s kb \<longleftrightarrow> length (bd_positions (snd kb)) = ?n \<and> key_fault kb = None \<and> gap_fault kb = None \<and> seq_fault s kb = None" for kb s
      using compact_length [of ?n "snd kb"] gap_fault_None [of "fst kb" "snd kb"]
      by (cases kb) (auto simp: board_ok_def key_fault_def seq_fault_def)
    then show ?thesis unfolding sizing by blast
  qed
  show ?thesis
  proof (cases "sizing = None")
    case False
    then show ?thesis using boards unfolding validate_steps [OF census] engine_wf_def by blast
  next
    case True
    then obtain st' dup' where "fold (note_board ?n) ?bs (None, {}, [], None) = (None, {} \<union> all_seats ?bs, st', dup')" "hm_ok st'"
      "dup' = None \<longleftrightarrow> None = None \<and> distinct (seated ?bs) \<and> (\<forall>u \<in> set (seated ?bs). hm_get [] u = (None :: uuid option))"
      "dup' = None \<longrightarrow> (\<forall>u k. hm_get st' u = Some k \<longleftrightarrow> (k, u) \<in> all_seats ?bs \<or> hm_get [] u = Some k)"
      using census_fold [of "[]" ?bs ?n None "{}" None] sizing by auto
    then have c: "placed = all_seats ?bs" "hm_ok seats" "duplicate = None \<longleftrightarrow> distinct (seated ?bs)"
      "duplicate = None \<Longrightarrow> \<forall>u k. hm_get seats u = Some k \<longleftrightarrow> (k, u) \<in> all_seats ?bs"
      using census by (auto simp: board_census_def)
    have roster: "indexed ?mb ?bs \<Longrightarrow> distinct (seated ?bs) \<and> distinct (be_displaced_members e) \<and>
        (\<forall>u \<in> set (be_displaced_members e). hm_get ?mb u = None) \<longleftrightarrow> distinct (roster e)"
      unfolding roster_def distinct_append disjoint_iff using in_seated_indexed [of ?mb ?bs] by blast
    have index: "duplicate = None \<Longrightarrow> (\<forall>ub \<in> set ?mb. member_fault e placed ub = None) \<and> (\<forall>ub \<in> set seats. seat_fault e ub = None) \<longleftrightarrow> indexed ?mb ?bs"
      unfolding c(1) member_faults [OF ok] using seat_faults [OF c(2) c(4)] unfolding indexed_seats by blast
    have "(duplicate = None \<and> (\<forall>ub \<in> set ?mb. member_fault e placed ub = None) \<and> (\<forall>ub \<in> set seats. seat_fault e ub = None) \<and>
        distinct (be_displaced_members e) \<and> (\<forall>u \<in> set (be_displaced_members e). hm_get ?mb u = None)) \<longleftrightarrow>
        indexed ?mb ?bs \<and> distinct (roster e)"
      using index roster c(3) unfolding roster_def distinct_append by blast
    then show ?thesis using boards ok unfolding validate_steps [OF census] engine_wf_def by blast
  qed
qed

end
