(* ===== verification/Board_Contract.thy ===== *)
theory Board_Contract
  imports Board_Leave Board_Exact Matrix_Contract
begin

text \<open>
  The contract of the board plan's operations: a check decides, a refused call changes nothing, an
  accepted one is carried out, keeps the invariant and raises the potential by a bounded amount. Any
  session of calls from a new engine is safe.

  \<open>max_cascade_depth\<close> is a \<open>NonZeroU32\<close> in the source; here it is a \<open>u32\<close>, and that it is not zero is
  part of the invariant.
\<close>

section \<open>Construction\<close>

lemma board_new_empty: "board_members (board_new k n ts p s) = []"
  by (simp add: board_members_def board_new_def)

lemma engine_new_ok:
  assumes new: "engine_new gen w h config ts = Ok e" and gen: "inj gen"
  shows "good gen e" "roster e = []" "budget e = 1" "be_config e = config" "has_opening e"
proof -
  define b where "b = board_new (gen 0) (total_positions w h) ts None 0"
  have dims: "2 \<le> w" "w \<le> 5" "1 \<le> h" "h \<le> 4"
    and e: "e = \<lparr>be_width = w, be_height = h, be_total_positions = total_positions w h, be_boards = [(gen 0, b)],
      be_member_boards = [], be_sponsor_map = [], be_displaced_members = [], be_next_board_seq = 1, be_config = config\<rparr>"
    using new by (auto simp: engine_new_def Let_def b_def board_new_def hm_insert_def split: if_splits)
  have b: "board_members b = []" "bd_id b = gen 0" "bd_seq b = 0" "compact (total_positions w h) b"
    by (simp_all add: b_def board_new_empty board_new_def compact_def board_members_def)
  have "engine_wf e"
    using dims b by (auto simp: e engine_wf_def sized_def hm_ok_def board_ok_def roster_def indexed_def hm_get_def)
  moreover have "fresh_ids gen e"
    using gen by (auto simp: e fresh_ids_def hm_get_def inj_eq)
  ultimately show "good gen e" by simp
  show "roster e = []" "budget e = 1" "be_config e = config" by (simp_all add: e b roster_def budget_def)
  show "has_opening e" using total_positions_bounds(1) [OF dims] by (simp add: e b has_opening_def)
qed

section \<open>The operations\<close>

abbreviation board_inv :: "(u64 \<Rightarrow> uuid) \<Rightarrow> 'd board_engine \<Rightarrow> bool" where
  "board_inv gen e \<equiv> good gen e \<and> 0 < bc_max_cascade_depth (be_config e)"

text \<open>
  A call raises the potential by at most 312, twice the members a dissolved board can displace
  without having paid for them; the size counts in these units.
\<close>

abbreviation board_size :: "'d board_engine \<Rightarrow> nat" where
  "board_size e \<equiv> (budget e + 311) div 312"

definition board_fits :: "'d board_engine \<Rightarrow> bool" where
  "board_fits e \<longleftrightarrow> budget e + 312 < 2 ^ 64"

lemma size_step: "b' \<le> b + (312 :: nat) \<Longrightarrow> (b' + 311) div 312 \<le> Suc ((b + 311) div 312)"
  by linarith

lemma board_fitsD:
  assumes "board_fits e" "sized e"
  shows "budget e < 2 ^ 64" "budget e + 2 < 2 ^ 64" "budget e + 2 * part_size e < 2 ^ 64"
  using assms sized_parts(5) [OF assms(2)] by (simp_all add: board_fits_def)

lemma goodD: "good gen e \<Longrightarrow> engine_wf e" "good gen e \<Longrightarrow> sized e"
  using engine_wfD(1) by auto

lemma inv_kept: "good gen e' \<Longrightarrow> be_config e' = be_config e \<Longrightarrow> board_inv gen e \<Longrightarrow> board_inv gen e'"
  by simp

lemma add_member_accepted:
  assumes inv: "board_inv gen e" and fits: "board_fits e" and chk: "check_add_member e u s = Ok ()"
  obtains r e' where "add_member gen u s ts e = (Ok r, e')" "admitted gen u s e r e'"
proof -
  have "returns (add_member gen u s ts) e (admitted gen u s e) (turned_away gen u s e)"
    using inv board_fitsD(2) [OF fits engine_wfD(1)] by (intro add_member_ok chk) simp_all
  with inv that show thesis by (auto simp: returns_def turned_away_def)
qed

lemma add_member_refused: "check_add_member e u s = Err x \<Longrightarrow> add_member gen u s ts e = (Err x, e)"
  by (simp add: add_member_def sbind_def sgets_def)

text \<open>The refusals the source has inline, as checks.\<close>

definition check_remove_member :: "'d board_engine \<Rightarrow> uuid \<Rightarrow> (board_plan_error, unit) result" where
  "check_remove_member e user = (if user \<in> set (roster e) then Ok () else Err (MemberNotFound user))"

lemma remove_member_accepted:
  assumes inv: "board_inv gen e" and fits: "board_fits e" and u: "u \<in> set (roster e)"
  obtains r e' where "remove_member gen u ts e = (Ok r, e')" "departed gen u e [] (rm_cycle_events r) e'"
  using remove_member_ok(2) [where gen = gen and e = e and u = u and ts = ts] inv board_fitsD(1) [OF fits] goodD(2) u by (auto simp: runs_def)

definition check_dissolve_board :: "'d board_engine \<Rightarrow> uuid \<Rightarrow> (board_plan_error, unit) result" where
  "check_dissolve_board e k = (case hm_get (be_boards e) k of
      None \<Rightarrow> Err (BoardNotFound k)
    | Some b \<Rightarrow> if is_full b then Err (BoardFull k (be_total_positions e) (be_total_positions e)) else Ok ())"

lemma dissolve_board_accepted:
  assumes inv: "board_inv gen e" and fits: "board_fits e" and b: "hm_get (be_boards e) k = Some b" "\<not> is_full b"
  obtains r e' where "dissolve_board gen k ts e = (Ok r, e')" "dr_dissolved_board_id r = k" "dr_displaced_members r = board_members b"
    "cascaded gen (dissolved k b e) [] (dr_cycle_events r) e'"
  using dissolve_board_ok(3) [where gen = gen and e = e and k = k and b = b and ts = ts] inv board_fitsD(3) [OF fits] goodD(2) b by (auto simp: runs_def)

interpretation add_member_op: sized_guarded "board_inv gen" "\<lambda>_. board_fits"
  "\<lambda>(u, s, ts) e. check_add_member e u s" "\<lambda>(u, s, ts). add_member gen u s ts" board_size for gen
proof (unfold_locales, goal_cases)
  case (1 e i)
  then show ?case using decided_unit [OF check_add_member_cases(1)] by (cases i) auto
next
  case (2 e i x)
  then show ?case using add_member_refused by (cases i) auto
next
  case (3 e i)
  obtain u s ts where i: "i = (u, s, ts)" by (cases i)
  with 3 obtain r e' where run: "add_member gen u s ts e = (Ok r, e')" "admitted gen u s e r e'"
    using add_member_accepted [OF 3(1,2), of u s ts] by auto
  then have "board_inv gen e'" using 3(1) by (simp add: admitted_def same_setup_def)
  with run i show ?case by auto
next
  case (4 e i r e')
  obtain u s ts where i: "i = (u, s, ts)" by (cases i)
  with 4 have "admitted gen u s e r e'" using add_member_accepted [OF 4(1,2), of u s ts] by auto
  then show ?case by (intro size_step) (simp add: admitted_def)
qed

interpretation remove_member_op: sized_guarded "board_inv gen" "\<lambda>_. board_fits"
  "\<lambda>(u, ts) e. check_remove_member e u" "\<lambda>(u, ts). remove_member gen u ts" board_size for gen
proof (unfold_locales, goal_cases)
  case (1 e i)
  then show ?case by (cases i) (simp add: check_remove_member_def)
next
  case (2 e i x)
  then show ?case using roster_not(1,2) [of e] by (cases i)
    (auto simp: check_remove_member_def remove_member_def sbind_def sgets_def hm_contains_def split: if_splits)
next
  case (3 e i)
  obtain u ts where i: "i = (u, ts)" by (cases i)
  with 3 obtain r e' where run: "remove_member gen u ts e = (Ok r, e')" "departed gen u e [] (rm_cycle_events r) e'"
    using remove_member_accepted [OF 3(1,2), of u ts] by (auto simp: check_remove_member_def split: if_splits)
  then have "board_inv gen e'" using 3(1) by (simp add: departed_def same_setup_def)
  with run i show ?case by auto
next
  case (4 e i r e')
  obtain u ts where i: "i = (u, ts)" by (cases i)
  with 4 have "departed gen u e [] (rm_cycle_events r) e'"
    using remove_member_accepted [OF 4(1,2), of u ts] by (auto simp: check_remove_member_def split: if_splits)
  then show ?case by (intro size_step) (simp add: departed_def)
qed

interpretation dissolve_board_op: sized_guarded "board_inv gen" "\<lambda>_. board_fits"
  "\<lambda>(k, ts) e. check_dissolve_board e k" "\<lambda>(k, ts). dissolve_board gen k ts" board_size for gen
proof (unfold_locales, goal_cases)
  case (1 e i)
  then show ?case by (cases i) (simp add: check_dissolve_board_def split: option.split)
next
  case (2 e i x)
  obtain k ts where i: "i = (k, ts)" by (cases i)
  with 2 show ?case using compact_filled [OF wf_board(2)] compact_length [OF wf_board(2)] wf_board(2) compact_is_full
    by (fastforce simp: check_dissolve_board_def dissolve_board_def sbind_def sgets_def split: option.splits if_splits)
next
  case (3 e i)
  obtain k ts where i: "i = (k, ts)" by (cases i)
  with 3 obtain b where b: "hm_get (be_boards e) k = Some b" "\<not> is_full b"
    by (auto simp: check_dissolve_board_def split: option.splits if_splits)
  obtain r e' where run: "dissolve_board gen k ts e = (Ok r, e')" "cascaded gen (dissolved k b e) [] (dr_cycle_events r) e'"
    by (rule dissolve_board_accepted [OF 3(1,2) b])
  then have "board_inv gen e'" using 3(1) evolvesD(1,9) [OF cascadedD(1) [OF run(2)]] by (simp add: dissolved_def)
  with run i show ?case by auto
next
  case (4 e i r e')
  obtain k ts where i: "i = (k, ts)" by (cases i)
  with 4 obtain b where b: "hm_get (be_boards e) k = Some b" "\<not> is_full b"
    by (auto simp: check_dissolve_board_def split: option.splits if_splits)
  have "cascaded gen (dissolved k b e) [] (dr_cycle_events r) e'"
    using dissolve_board_accepted [OF 4(1,2) b, of ts] 4(4) i by auto
  from cascadedD(3) [OF this] dissolved_ok(3) [OF _ b(1) refl] 4(1) goodD sized_parts(5) [of e] show ?case
    by (intro size_step) fastforce
qed

interpretation compress_op: sized_guarded "board_inv gen" "\<lambda>_. board_fits"
  "\<lambda>_ _. Ok ()" "\<lambda>(us, ts). compress_inactive gen us ts" board_size for gen
proof (unfold_locales, goal_cases)
  case (3 e i)
  obtain us ts where i: "i = (us, ts)" by (cases i)
  obtain r e' where run: "compress_inactive gen us ts e = (Ok r, e')"
      "compressed_out gen e (seats_of e us) (cr_compressed r, cr_cycle_events r) e'"
    using compress_inactive_ok [where gen = gen and e = e and us = us and ts = ts] 3(1) board_fitsD(1) [OF 3(2)] goodD(2) by (auto simp: runs_def)
  then have "board_inv gen e'" using 3(1) by (simp add: compressed_out_def same_setup_def)
  with run i show ?case by auto
next
  case (4 e i r e')
  obtain us ts where i: "i = (us, ts)" by (cases i)
  have "compressed_out gen e (seats_of e us) (cr_compressed r, cr_cycle_events r) e'"
    using compress_inactive_ok [where gen = gen and e = e and us = us and ts = ts] 4(1,4) i board_fitsD(1) [OF 4(2)] goodD(2) by (auto simp: runs_def)
  then show ?case by (intro size_step) (simp add: compressed_out_def)
qed simp_all

section \<open>Sessions\<close>

datatype board_call = BpAdd uuid uuid i64 | BpRemove uuid i64 | BpDissolve uuid i64 | BpCompress "uuid list" i64

definition board_exec :: "(u64 \<Rightarrow> uuid) \<Rightarrow> board_call \<Rightarrow> ('d board_engine, board_plan_error, unit) sm" where
  "board_exec gen c = (case c of
      BpAdd u s ts \<Rightarrow> sbind (add_member gen u s ts) (\<lambda>_. sret ())
    | BpRemove u ts \<Rightarrow> sbind (remove_member gen u ts) (\<lambda>_. sret ())
    | BpDissolve k ts \<Rightarrow> sbind (dissolve_board gen k ts) (\<lambda>_. sret ())
    | BpCompress us ts \<Rightarrow> sbind (compress_inactive gen us ts) (\<lambda>_. sret ()))"

lemma board_exec_step:
  assumes "board_inv gen e" "board_fits e"
  shows "\<exists>r e'. board_exec gen c e = (r, e') \<and> ((\<exists>x. r = Ok x) \<or> (\<exists>x. r = Err x)) \<and> board_inv gen e' \<and> board_size e' \<le> Suc (board_size e)"
  using add_member_op.run_settles [OF assms] remove_member_op.run_settles [OF assms]
    dissolve_board_op.run_settles [OF assms] compress_op.run_settles [OF assms]
  by (cases c) (fastforce simp: board_exec_def)+

lemma board_session_wf:
  assumes "inj gen" "engine_new gen w h config ts = Ok e0" "0 < bc_max_cascade_depth config" "length calls \<le> 2 ^ 32"
  shows "\<exists>e. sfor (\<lambda>c. settle (board_exec gen c)) calls e0 = (Ok (), e) \<and> board_inv gen e \<and> budget e \<le> 312 * (2 ^ 32 + 1)"
proof -
  note new = engine_new_ok [OF assms(2,1)]
  have "\<exists>e. sfor (\<lambda>c. settle (board_exec gen c)) calls e0 = (Ok (), e) \<and> board_inv gen e \<and> board_size e \<le> board_size e0 + length calls"
  proof (rule session_grows [where n = "2 ^ 32 + 1"])
    show "board_inv gen e0" using new(1,4) assms(3) by simp
    show "board_size e0 + length calls \<le> 2 ^ 32 + 1" using assms(4) by (simp add: new(3))
    fix c and e :: "'a board_engine" assume "board_inv gen e" "board_size e < 2 ^ 32 + 1"
    then show "\<exists>r e'. board_exec gen c e = (r, e') \<and> ((\<exists>x. r = Ok x) \<or> (\<exists>x. r = Err x)) \<and> board_inv gen e' \<and> board_size e' \<le> Suc (board_size e)"
      by (intro board_exec_step) (simp_all add: board_fits_def)
  qed
  then obtain e where e: "sfor (\<lambda>c. settle (board_exec gen c)) calls e0 = (Ok (), e)" "board_inv gen e" "board_size e \<le> board_size e0 + length calls"
    by blast
  then have "budget e \<le> 312 * (2 ^ 32 + 1)" using assms(4) by (simp add: new(3))
  with e show ?thesis by blast
qed

lemma budget_seq: "budget e \<le> 312 * (2 ^ 32 + 1) \<Longrightarrow> be_next_board_seq e \<le> MAX_RESTORED_BOARD_SEQ"
  by (simp add: budget_def MAX_RESTORED_BOARD_SEQ_def word_le_nat_alt)

end
