(* ===== verification/Spec2Isabelle.thy ===== *)
theory Spec2Isabelle
  imports Unilevel Binary_Tree Matrix_Props Board_Contract
begin

text \<open>
  A verification library for the network engine of mlmforge (the Rust crate under
  \<open>src/engine/network-engine\<close>).
\<close>

end
